(* ===== verification/Prelude.thy ===== *)
theory Prelude
  imports Main "HOL-Library.Word" "HOL-Library.AList" "HOL-Library.Multiset"
begin

text \<open>
  Shared vocabulary of the development: the fixed-size arrays of length two that the snow
  code indexes by a bit, the bit ranges that identifiers are compared on, and the generic
  facts on lists, association lists and words that the component theories use.
\<close>

section \<open>Arrays of length two\<close>

text \<open>
  The snow tree keeps its per-branch data in Go arrays of length two indexed by a bit that
  is 0 or 1.  \<open>at2 p i\<close> reads the array, \<open>upd2 p i v\<close> assigns one cell.
\<close>

definition at2 :: "'a \<times> 'a \<Rightarrow> nat \<Rightarrow> 'a" where
  "at2 p i = (if i = 0 then fst p else snd p)"

definition upd2 :: "'a \<times> 'a \<Rightarrow> nat \<Rightarrow> 'a \<Rightarrow> 'a \<times> 'a" where
  "upd2 p i v = (if i = 0 then (v, snd p) else (fst p, v))"

lemma at2_simps [simp]:
  "at2 (a, b) 0 = a" "at2 (a, b) (Suc 0) = b"
  by (simp_all add: at2_def)

lemma upd2_simps [simp]:
  "upd2 (a, b) 0 v = (v, b)" "upd2 (a, b) (Suc 0) v = (a, v)"
  by (simp_all add: upd2_def)

lemma at2_upd2_same [simp]: "at2 (upd2 p i v) i = v"
  by (simp add: at2_def upd2_def)

lemma at2_upd2_other [simp]: "i < 2 \<Longrightarrow> j < 2 \<Longrightarrow> i \<noteq> j \<Longrightarrow> at2 (upd2 p i v) j = at2 p j"
  by (auto simp: at2_def upd2_def)

lemma bit_flip:
  "(b::nat) < 2 \<Longrightarrow> 1 - b < 2"
  "(b::nat) < 2 \<Longrightarrow> 1 - b \<noteq> b"
  "(b::nat) < 2 \<Longrightarrow> c < 2 \<Longrightarrow> c \<noteq> b \<Longrightarrow> 1 - b = c"
  by presburger+

section \<open>Searching a range\<close>

lemma find_upt_Some_iff:
  "List.find P [a..<b] = Some i \<longleftrightarrow> a \<le> i \<and> i < b \<and> P i \<and> (\<forall>j. a \<le> j \<longrightarrow> j < i \<longrightarrow> \<not> P j)"
proof (induction "b - a" arbitrary: a)
  case 0
  then show ?case by simp
next
  case (Suc n)
  then have ab: "a < b" and n: "n = b - Suc a" by auto
  have "List.find P [a..<b] = (if P a then Some a else List.find P [Suc a..<b])"
    using ab by (simp add: upt_conv_Cons)
  moreover have "(\<forall>j. a \<le> j \<longrightarrow> j < i \<longrightarrow> \<not> P j) \<longleftrightarrow>
      (a < i \<longrightarrow> \<not> P a) \<and> (\<forall>j. Suc a \<le> j \<longrightarrow> j < i \<longrightarrow> \<not> P j)"
    by (metis Suc_leD Suc_leI le_neq_implies_less order_refl)
  ultimately show ?case
    using Suc.hyps(1) [OF n] ab by (auto simp: Suc_le_eq order.order_iff_strict)
qed

lemma find_upt_None_iff:
  "List.find P [a..<b] = None \<longleftrightarrow> (\<forall>i. a \<le> i \<longrightarrow> i < b \<longrightarrow> \<not> P i)"
  by (auto simp: find_None_iff)

lemma find_append:
  "List.find P (xs @ ys) = (case List.find P xs of Some x \<Rightarrow> Some x | None \<Rightarrow> List.find P ys)"
  by (induction xs) auto

lemma upt_append: "i \<le> j \<Longrightarrow> j \<le> k \<Longrightarrow> [i..<j] @ [j..<k] = [i..<k]"
  using upt_add_eq_append [of i j "k - j"] by simp

lemma takeWhile_upt_least:
  assumes "i < n" "P i"
  shows "length (takeWhile (\<lambda>j. \<not> P j) [0..<n]) < n \<and>
    P (length (takeWhile (\<lambda>j. \<not> P j) [0..<n])) \<and>
    (\<forall>j < length (takeWhile (\<lambda>j. \<not> P j) [0..<n]). \<not> P j)"
proof -
  define k where "k = (LEAST j. P j)"
  have k: "P k" "k \<le> i" "\<And>j. j < k \<Longrightarrow> \<not> P j"
    unfolding k_def using assms(2) by (auto intro: LeastI Least_le dest: not_less_Least)
  have "[0..<n] = [0..<k] @ [k..<n]" using k(2) assms(1) by (simp add: upt_append)
  moreover have "[k..<n] = k # [Suc k..<n]" using k(2) assms(1) by (simp add: upt_conv_Cons)
  ultimately have "takeWhile (\<lambda>j. \<not> P j) [0..<n] = [0..<k]"
    using k by (simp only:) (subst takeWhile_append2, auto)
  with k assms(1) show ?thesis by simp
qed

section \<open>Adjacent elements of a list\<close>

lemma sorted_wrt_distinct_mono:
  "sorted_wrt P xs \<Longrightarrow> distinct xs \<Longrightarrow>
    (\<And>u v. u \<in> set xs \<Longrightarrow> v \<in> set xs \<Longrightarrow> u \<noteq> v \<Longrightarrow> P u v \<Longrightarrow> Q u v) \<Longrightarrow> sorted_wrt Q xs"
  by (induction xs) auto

lemma successivelyI:
  "(\<And>pre a b post. xs = pre @ a # b # post \<Longrightarrow> P a b) \<Longrightarrow> successively P xs"
proof (induction xs rule: induct_list012)
  case (3 x y zs)
  have "successively P (y # zs)" by (rule "3.IH"(2)) (metis "3.prems" append_Cons)
  moreover have "P x y" using "3.prems" [of "[]" x y zs] by simp
  ultimately show ?case by simp
qed simp_all

end
