(* ===== verification/Bag.thy ===== *)
theory Bag
  imports Prelude
begin

text \<open>
  \<open>utils/bag/bag.go\<close>: the multiset that carries the votes of a poll.

  The Go map \<open>counts\<close> is an association list: its order is an iteration order of the
  map, and the facts below hold for every list, hence for every order.  A lookup of a
  missing key gives the zero value.  The set of elements that met the threshold is a HOL set.

  The counters are mathematical integers here, as the components that call the bag use them: they
  count responses of one poll.  \<open>Bag_Int\<close> has the operations with the counters of Go's \<open>int\<close>, which
  wrap, and shows that the two agree as long as the elements of a bag are fewer than \<open>2 ^ 63\<close>.
\<close>

record 'a Bag =
  bag_counts :: "('a \<times> int) list"
  bag_size :: int
  bag_threshold :: int
  bag_metThreshold :: "'a set"

text \<open>The zero value of the struct.\<close>

definition Bag_empty :: "'a Bag" where
  "Bag_empty = \<lparr>bag_counts = [], bag_size = 0, bag_threshold = 0, bag_metThreshold = {}\<rparr>"

definition Bag_Count :: "'a Bag \<Rightarrow> 'a \<Rightarrow> int" where
  "Bag_Count b elt = (case map_of (bag_counts b) elt of Some c \<Rightarrow> c | None \<Rightarrow> 0)"

definition Bag_AddCount :: "'a Bag \<Rightarrow> 'a \<Rightarrow> int \<Rightarrow> 'a Bag" where
  "Bag_AddCount b elt cnt =
     (if cnt \<le> 0 then b
      else let totalCount = Bag_Count b elt + cnt in
        b\<lparr>bag_counts := AList.update elt totalCount (bag_counts b),
          bag_size := bag_size b + cnt,
          bag_metThreshold :=
            (if totalCount \<ge> bag_threshold b then insert elt (bag_metThreshold b)
             else bag_metThreshold b)\<rparr>)"

definition Bag_Add :: "'a Bag \<Rightarrow> 'a list \<Rightarrow> 'a Bag" where
  "Bag_Add b elts = fold (\<lambda>elt b. Bag_AddCount b elt 1) elts b"

definition Bag_Of :: "'a list \<Rightarrow> 'a Bag" where
  "Bag_Of elts = Bag_Add Bag_empty elts"

definition Bag_SetThreshold :: "'a Bag \<Rightarrow> int \<Rightarrow> 'a Bag" where
  "Bag_SetThreshold b threshold =
     (if bag_threshold b = threshold then b
      else b\<lparr>bag_threshold := threshold,
             bag_metThreshold :=
               fold (\<lambda>(vote, count) s. if count \<ge> threshold then insert vote s else s)
                 (bag_counts b) {}\<rparr>)"

definition Bag_Len :: "'a Bag \<Rightarrow> int" where
  "Bag_Len b = bag_size b"

definition Bag_List :: "'a Bag \<Rightarrow> 'a list" where
  "Bag_List b = map fst (bag_counts b)"

text \<open>\<open>maps.Equal\<close> compares the lengths and looks every entry up in the other map.\<close>

definition Bag_Equals :: "'a Bag \<Rightarrow> 'a Bag \<Rightarrow> bool" where
  "Bag_Equals b other \<longleftrightarrow>
     bag_size b = bag_size other \<and>
     length (bag_counts b) = length (bag_counts other) \<and>
     list_all (\<lambda>(k, v). map_of (bag_counts other) k = Some v) (bag_counts b)"

text \<open>\<open>Mode\<close>: \<open>zero\<close> is the zero value of the element type.\<close>

definition Bag_Mode :: "'a \<Rightarrow> 'a Bag \<Rightarrow> 'a \<times> int" where
  "Bag_Mode zero b =
     fold (\<lambda>(elt, count) (mode, modeFreq).
             if count > modeFreq then (elt, count) else (mode, modeFreq))
       (bag_counts b) (zero, 0)"

definition Bag_Threshold :: "'a Bag \<Rightarrow> 'a set" where
  "Bag_Threshold b = bag_metThreshold b"

definition Bag_Filter :: "('a \<Rightarrow> bool) \<Rightarrow> 'a Bag \<Rightarrow> 'a Bag" where
  "Bag_Filter filterFunc b =
     fold (\<lambda>(vote, count) newBag.
             if filterFunc vote then Bag_AddCount newBag vote count else newBag)
       (bag_counts b) Bag_empty"

definition Bag_Split :: "('a \<Rightarrow> bool) \<Rightarrow> 'a Bag \<Rightarrow> 'a Bag \<times> 'a Bag" where
  "Bag_Split splitFunc b =
     fold (\<lambda>(vote, count) (s0, s1).
             if splitFunc vote then (s0, Bag_AddCount s1 vote count)
             else (Bag_AddCount s0 vote count, s1))
       (bag_counts b) (Bag_empty, Bag_empty)"

definition Bag_Remove :: "'a Bag \<Rightarrow> 'a \<Rightarrow> 'a Bag" where
  "Bag_Remove b elt =
     b\<lparr>bag_counts := AList.delete elt (bag_counts b),
       bag_size := bag_size b - Bag_Count b elt\<rparr>"

definition Bag_Clone :: "'a Bag \<Rightarrow> 'a Bag" where
  "Bag_Clone b = fold (\<lambda>(x, count) clone. Bag_AddCount clone x count) (bag_counts b) Bag_empty"

section \<open>Well-formed bags and the multiset they represent\<close>

definition bag_wf :: "'a Bag \<Rightarrow> bool" where
  "bag_wf b \<longleftrightarrow> distinct (map fst (bag_counts b)) \<and>
     (\<forall>(k, c) \<in> set (bag_counts b). 0 < c) \<and>
     bag_size b = sum_list (map snd (bag_counts b))"

definition alist_mset :: "('a \<times> int) list \<Rightarrow> 'a multiset" where
  "alist_mset al = sum_list (map (\<lambda>(k, c). replicate_mset (nat c) k) al)"

definition Bag_mset :: "'a Bag \<Rightarrow> 'a multiset" where
  "Bag_mset b = alist_mset (bag_counts b)"

lemma alist_mset_simps [simp]:
  "alist_mset [] = {#}"
  "alist_mset ((k, c) # al) = replicate_mset (nat c) k + alist_mset al"
  by (simp_all add: alist_mset_def)

lemma set_alist_mset: "x \<in># alist_mset al \<Longrightarrow> x \<in> fst ` set al"
  by (induction al) (auto split: if_splits)

lemma count_alist_mset:
  "distinct (map fst al) \<Longrightarrow>
    count (alist_mset al) x = (case map_of al x of Some c \<Rightarrow> nat c | None \<Rightarrow> 0)"
proof (induction al)
  case (Cons p al)
  obtain k c where p: "p = (k, c)" by (cases p)
  have "x = k \<Longrightarrow> count (alist_mset al) x = 0"
    using Cons.prems set_alist_mset [of x al] p by (auto simp: not_in_iff [symmetric])
  with Cons p show ?case by auto
qed simp

lemma size_alist_mset:
  "(\<forall>(k, c) \<in> set al. 0 < c) \<Longrightarrow> int (size (alist_mset al)) = sum_list (map snd al)"
  by (induction al) auto

lemma map_of_in_set: "map_of al k = Some c \<Longrightarrow> (k, c) \<in> set al"
  by (rule map_of_SomeD)

lemma bag_wf_Count_nonneg: "bag_wf b \<Longrightarrow> 0 \<le> Bag_Count b x"
  by (auto simp: bag_wf_def Bag_Count_def split: option.splits dest!: map_of_SomeD)

lemma count_Bag_mset: "bag_wf b \<Longrightarrow> count (Bag_mset b) x = nat (Bag_Count b x)"
  by (simp add: bag_wf_def Bag_mset_def count_alist_mset Bag_Count_def split: option.splits)

lemma Bag_Count_mset: "bag_wf b \<Longrightarrow> Bag_Count b x = int (count (Bag_mset b) x)"
  by (simp add: count_Bag_mset bag_wf_Count_nonneg)

lemma Bag_Len_mset: "bag_wf b \<Longrightarrow> Bag_Len b = int (size (Bag_mset b))"
  by (simp add: Bag_Len_def Bag_mset_def size_alist_mset bag_wf_def)

lemma bag_wf_empty [simp]: "bag_wf Bag_empty"
  by (simp add: bag_wf_def Bag_empty_def)

lemma Bag_mset_empty [simp]: "Bag_mset Bag_empty = {#}"
  by (simp add: Bag_mset_def Bag_empty_def)

section \<open>Updating an entry\<close>

lemma sum_list_update_alist:
  "distinct (map fst al) \<Longrightarrow> sum_list (map snd (AList.update k v al)) =
    sum_list (map snd al) + v - (case map_of al k of Some c \<Rightarrow> c | None \<Rightarrow> (0::int))"
proof (induction al)
  case (Cons p al)
  obtain k' c where p: "p = (k', c)" by (cases p)
  show ?case
  proof (cases "k' = k")
    case True
    with Cons.prems p have "map_of al k = None" by (auto simp: map_of_eq_None_iff)
    with True p show ?thesis by simp
  next
    case False
    with Cons p show ?thesis by simp
  qed
qed simp

lemma sum_list_delete_alist:
  "distinct (map fst al) \<Longrightarrow> sum_list (map snd (AList.delete k al)) =
    sum_list (map snd al) - (case map_of al k of Some c \<Rightarrow> c | None \<Rightarrow> (0::int))"
proof (induction al)
  case (Cons p al)
  obtain k' c where p: "p = (k', c)" by (cases p)
  show ?case
  proof (cases "k' = k")
    case True
    with Cons.prems p have "map_of al k = None" by (auto simp: map_of_eq_None_iff)
    with True p Cons show ?thesis by simp
  next
    case False
    with Cons p show ?thesis by simp
  qed
qed simp

lemma set_update_alist: "set (AList.update k v al) \<subseteq> insert (k, v) (set al)"
  by (induction al) auto

lemma bag_wf_AddCount [simp]:
  assumes wf: "bag_wf b"
  shows "bag_wf (Bag_AddCount b e n)"
proof (cases "n \<le> 0")
  case True
  with wf show ?thesis by (simp add: Bag_AddCount_def)
next
  case False
  let ?t = "Bag_Count b e + n" and ?al = "bag_counts b"
  from wf have d: "distinct (map fst ?al)" and pos: "\<forall>(k, c) \<in> set ?al. 0 < c"
    and sz: "bag_size b = sum_list (map snd ?al)" by (auto simp: bag_wf_def)
  have "0 < ?t" using False bag_wf_Count_nonneg [OF wf, of e] by simp
  with pos have "\<forall>(k, c) \<in> set (AList.update e ?t ?al). 0 < c"
    using set_update_alist [of e ?t ?al] by blast
  moreover have "sum_list (map snd (AList.update e ?t ?al)) = bag_size b + n"
    using d by (simp add: sum_list_update_alist sz Bag_Count_def)
  ultimately show ?thesis
    using False d by (simp add: bag_wf_def Bag_AddCount_def Let_def distinct_update)
qed

lemma Bag_Count_AddCount:
  "Bag_Count (Bag_AddCount b e n) x = Bag_Count b x + (if x = e \<and> 0 < n then n else 0)"
  by (auto simp: Bag_AddCount_def Let_def Bag_Count_def update_conv')

lemma Bag_mset_AddCount [simp]:
  "bag_wf b \<Longrightarrow> Bag_mset (Bag_AddCount b e n) = Bag_mset b + replicate_mset (nat n) e"
  by (rule multiset_eqI)
    (auto simp: count_Bag_mset Bag_Count_AddCount nat_add_distrib bag_wf_Count_nonneg)

lemma Bag_Len_AddCount: "Bag_Len (Bag_AddCount b e n) = Bag_Len b + max 0 n"
  by (simp add: Bag_AddCount_def Let_def Bag_Len_def)

section \<open>The loops over the entries\<close>

lemma Filter_fold:
  assumes "bag_wf nb"
    and F: "F = (\<lambda>(vote, cnt) newBag. if f vote then Bag_AddCount newBag vote cnt else newBag)"
  shows "bag_wf (fold F al nb) \<and> Bag_mset (fold F al nb) = Bag_mset nb + filter_mset f (alist_mset al)"
  using assms(1)
proof (induction al arbitrary: nb)
  case (Cons p al)
  obtain k c where p: "p = (k, c)" by (cases p)
  show ?case
  proof (cases "f k")
    case True
    then have "filter_mset f (replicate_mset (nat c) k) = replicate_mset (nat c) k"
      by (auto simp: filter_mset_eq_conv)
    with Cons.IH [of "Bag_AddCount nb k c"] Cons.prems p True show ?thesis
      by (simp add: F ac_simps)
  next
    case False
    then have "filter_mset f (replicate_mset (nat c) k) = {#}" by auto
    with Cons p False show ?thesis by (simp add: F)
  qed
qed simp

lemma bag_wf_Filter [simp]: "bag_wf (Bag_Filter f b)"
  and Bag_mset_Filter: "Bag_mset (Bag_Filter f b) = filter_mset f (Bag_mset b)"
  using Filter_fold [OF bag_wf_empty refl, of f "bag_counts b"]
  by (simp_all add: Bag_Filter_def Bag_mset_def Bag_empty_def)

lemma Bag_Split_Filter: "Bag_Split f b = (Bag_Filter (\<lambda>x. \<not> f x) b, Bag_Filter f b)"
proof -
  have "fold (\<lambda>(vote, cnt) (s0, s1). if f vote then (s0, Bag_AddCount s1 vote cnt)
            else (Bag_AddCount s0 vote cnt, s1)) al (a, c) =
        (fold (\<lambda>(vote, cnt) newBag. if \<not> f vote then Bag_AddCount newBag vote cnt else newBag) al a,
         fold (\<lambda>(vote, cnt) newBag. if f vote then Bag_AddCount newBag vote cnt else newBag) al c)"
    for al and a c :: "'a Bag"
    by (induction al arbitrary: a c) auto
  then show ?thesis by (simp add: Bag_Split_def Bag_Filter_def)
qed

lemma Bag_Clone_Filter: "Bag_Clone b = Bag_Filter (\<lambda>_. True) b"
  by (simp add: Bag_Clone_def Bag_Filter_def)

lemma bag_wf_Remove [simp]:
  assumes "bag_wf b" shows "bag_wf (Bag_Remove b e)"
proof -
  have "set (AList.delete e (bag_counts b)) \<subseteq> set (bag_counts b)"
    by (auto simp: AList.delete_eq)
  with assms show ?thesis
    by (auto simp: bag_wf_def Bag_Remove_def distinct_delete sum_list_delete_alist Bag_Count_def)
qed

lemma Bag_Count_Remove: "Bag_Count (Bag_Remove b e) x = (if x = e then 0 else Bag_Count b x)"
  by (simp add: Bag_Remove_def Bag_Count_def delete_conv')

lemma Bag_mset_Remove:
  "bag_wf b \<Longrightarrow> Bag_mset (Bag_Remove b e) = filter_mset (\<lambda>x. x \<noteq> e) (Bag_mset b)"
  by (rule multiset_eqI) (simp add: count_Bag_mset Bag_Count_Remove)

lemma bag_wf_Add [simp]: "bag_wf b \<Longrightarrow> bag_wf (Bag_Add b es)"
  unfolding Bag_Add_def by (induction es arbitrary: b) auto

lemma Bag_mset_Add: "bag_wf b \<Longrightarrow> Bag_mset (Bag_Add b es) = Bag_mset b + mset es"
  unfolding Bag_Add_def by (induction es arbitrary: b) auto

lemma bag_wf_Of [simp]: "bag_wf (Bag_Of es)"
  by (simp add: Bag_Of_def)

lemma Bag_mset_Of: "Bag_mset (Bag_Of es) = mset es"
  by (simp only: Bag_Of_def Bag_mset_Add [OF bag_wf_empty] Bag_mset_empty add_0)

lemma set_Bag_List: "bag_wf b \<Longrightarrow> set (Bag_List b) = set_mset (Bag_mset b)"
proof
  assume wf: "bag_wf b"
  show "set (Bag_List b) \<subseteq> set_mset (Bag_mset b)"
  proof
    fix x assume "x \<in> set (Bag_List b)"
    then obtain c where "(x, c) \<in> set (bag_counts b)" by (auto simp: Bag_List_def)
    with wf have "map_of (bag_counts b) x = Some c" "0 < c" by (auto simp: bag_wf_def)
    with wf have "0 < count (Bag_mset b) x" by (simp add: count_Bag_mset Bag_Count_def)
    then show "x \<in># Bag_mset b" by simp
  qed
  show "set_mset (Bag_mset b) \<subseteq> set (Bag_List b)"
    by (auto simp: Bag_List_def Bag_mset_def dest: set_alist_mset)
qed

lemma distinct_Bag_List: "bag_wf b \<Longrightarrow> distinct (Bag_List b)"
  by (simp add: bag_wf_def Bag_List_def)

lemma Bag_Equals_mset:
  assumes a: "bag_wf a" and b: "bag_wf b"
  shows "Bag_Equals a b \<longleftrightarrow> Bag_mset a = Bag_mset b"
proof
  assume eq: "Bag_Equals a b"
  then have le: "\<And>k v. (k, v) \<in> set (bag_counts a) \<Longrightarrow> map_of (bag_counts b) k = Some v"
    and len: "length (bag_counts a) = length (bag_counts b)"
    by (auto simp: Bag_Equals_def list_all_iff)
  have "set (Bag_List a) \<subseteq> set (Bag_List b)"
    using le by (force simp: Bag_List_def dest: map_of_SomeD)
  moreover have "card (set (Bag_List a)) = card (set (Bag_List b))"
    using distinct_card [OF distinct_Bag_List [OF a]] distinct_card [OF distinct_Bag_List [OF b]] len
    by (simp add: Bag_List_def)
  ultimately have keys: "set (Bag_List a) = set (Bag_List b)"
    by (simp add: card_subset_eq)
  show "Bag_mset a = Bag_mset b"
  proof (rule multiset_eqI)
    fix x
    show "count (Bag_mset a) x = count (Bag_mset b) x"
    proof (cases "x \<in> set (Bag_List a)")
      case True
      then obtain c where "(x, c) \<in> set (bag_counts a)" by (auto simp: Bag_List_def)
      with a le show ?thesis
        by (simp add: count_Bag_mset [OF a] count_Bag_mset [OF b] Bag_Count_def bag_wf_def)
    next
      case False
      then have "x \<notin># Bag_mset a" "x \<notin># Bag_mset b" using keys a b by (simp_all add: set_Bag_List)
      then show ?thesis by (simp add: not_in_iff)
    qed
  qed
next
  assume eq: "Bag_mset a = Bag_mset b"
  have cnt: "Bag_Count a x = Bag_Count b x" for x using a b eq by (simp add: Bag_Count_mset)
  have keys: "set (Bag_List a) = set (Bag_List b)" using a b eq by (simp add: set_Bag_List)
  have "map_of (bag_counts b) k = Some v" if kv: "(k, v) \<in> set (bag_counts a)" for k v
  proof -
    from kv a have "Bag_Count a k = v" by (simp add: Bag_Count_def bag_wf_def)
    moreover from kv have "k \<in> set (Bag_List a)" by (force simp: Bag_List_def)
    with keys obtain w where "map_of (bag_counts b) k = Some w"
      by (fastforce simp: Bag_List_def map_of_eq_None_iff simp del: not_None_eq simp: not_None_eq [symmetric])
    ultimately show ?thesis using cnt [of k] by (simp add: Bag_Count_def)
  qed
  moreover have "length (bag_counts a) = length (bag_counts b)"
    using distinct_card [OF distinct_Bag_List [OF a]] distinct_card [OF distinct_Bag_List [OF b]] keys
    by (simp add: Bag_List_def)
  moreover have "bag_size a = bag_size b"
    using Bag_Len_mset [OF a] Bag_Len_mset [OF b] eq by (simp add: Bag_Len_def)
  ultimately show "Bag_Equals a b" by (auto simp: Bag_Equals_def list_all_iff)
qed

section \<open>The most common element\<close>

lemma Mode_fold:
  assumes "F = (\<lambda>(elt, cnt) (mode, modeFreq). if cnt > modeFreq then (elt, cnt) else (mode, modeFreq :: int))"
    and "fold F al (m, f) = (m', f')"
  shows "f \<le> f' \<and> (\<forall>(k, c) \<in> set al. c \<le> f') \<and> ((m', f') = (m, f) \<or> (m', f') \<in> set al \<and> f < f')"
  using assms(2)
proof (induction al arbitrary: m f)
  case (Cons p al)
  obtain k c where p: "p = (k, c)" by (cases p)
  from Cons.prems p have "fold F al (if c > f then (k, c) else (m, f)) = (m', f')"
    by (simp add: assms(1))
  then have "fold F al (if c > f then k else m, if c > f then c else f) = (m', f')"
    by (simp split: if_splits)
  from Cons.IH [OF this] p show ?case by (auto split: if_splits)
qed simp

lemma Bag_Mode_spec:
  assumes wf: "bag_wf b" and mode: "Bag_Mode zero b = (m, f)"
  shows "(\<forall>x. Bag_Count b x \<le> f) \<and> 0 \<le> f \<and>
    (if Bag_Len b = 0 then (m, f) = (zero, 0) else 0 < f \<and> Bag_Count b m = f)"
proof -
  have fold: "0 \<le> f" "\<forall>(k, c) \<in> set (bag_counts b). c \<le> f"
    "(m, f) = (zero, 0) \<or> (m, f) \<in> set (bag_counts b) \<and> 0 < f"
    using Mode_fold [OF refl mode [unfolded Bag_Mode_def]] by auto
  have le: "Bag_Count b x \<le> f" for x
    using fold(1,2) by (auto simp: Bag_Count_def split: option.splits dest!: map_of_SomeD)
  show ?thesis
  proof (cases "Bag_Len b = 0")
    case True
    with wf have "Bag_mset b = {#}" by (simp add: Bag_Len_mset)
    with wf have "bag_counts b = []" using set_Bag_List [OF wf] by (simp add: Bag_List_def)
    with mode True show ?thesis by (simp add: Bag_Mode_def Bag_Count_def)
  next
    case False
    with wf have "Bag_mset b \<noteq> {#}" by (auto simp: Bag_Len_mset)
    then obtain x where "x \<in># Bag_mset b" by blast
    with wf have "0 < Bag_Count b x" by (simp add: Bag_Count_mset)
    with le [of x] have "0 < f" by linarith
    with fold(3) have "(m, f) \<in> set (bag_counts b)" by auto
    with wf have "Bag_Count b m = f" by (simp add: Bag_Count_def bag_wf_def)
    with le \<open>0 < f\<close> False show ?thesis by simp
  qed
qed

section \<open>The threshold set\<close>

definition bag_met :: "'a Bag \<Rightarrow> bool" where
  "bag_met b \<longleftrightarrow> bag_metThreshold b = {x \<in> set (Bag_List b). bag_threshold b \<le> Bag_Count b x}"

lemma SetThreshold_fold:
  "fold (\<lambda>(vote, cnt) s. if cnt \<ge> t then insert vote s else s) al S =
    S \<union> {k. \<exists>c. (k, c) \<in> set al \<and> t \<le> (c::int)}"
  by (induction al arbitrary: S) (auto split: if_splits)

lemma bag_entry_iff:
  "bag_wf b \<Longrightarrow> (k, c) \<in> set (bag_counts b) \<longleftrightarrow> k \<in> set (Bag_List b) \<and> Bag_Count b k = c"
  by (force simp: bag_wf_def Bag_List_def Bag_Count_def)

lemma bag_met_AddCount: "bag_wf b \<Longrightarrow> bag_met b \<Longrightarrow> bag_met (Bag_AddCount b e n)"
proof (cases "0 < n")
  case True
  assume wf: "bag_wf b" and met: "bag_met b"
  have keys: "set (Bag_List (Bag_AddCount b e n)) = insert e (set (Bag_List b))"
    using True by (auto simp: Bag_AddCount_def Bag_List_def Let_def update_keys)
  have thr: "bag_threshold (Bag_AddCount b e n) = bag_threshold b"
    by (simp add: Bag_AddCount_def Let_def)
  have new: "bag_metThreshold (Bag_AddCount b e n) =
      (if Bag_Count b e + n \<ge> bag_threshold b then insert e (bag_metThreshold b) else bag_metThreshold b)"
    using True by (simp add: Bag_AddCount_def Let_def)
  show ?thesis
    using met True unfolding bag_met_def keys thr new by (auto simp: Bag_Count_AddCount)
qed (simp add: Bag_AddCount_def)

lemma bag_met_SetThreshold: "bag_wf b \<Longrightarrow> bag_met b \<Longrightarrow> bag_met (Bag_SetThreshold b t)"
  by (simp add: bag_met_def Bag_SetThreshold_def SetThreshold_fold bag_entry_iff)
    (auto simp: Bag_List_def Bag_Count_def)

lemma bag_met_Filter: "bag_met (Bag_Filter f b)"
proof -
  have loop: "bag_wf nb \<Longrightarrow> bag_met nb \<Longrightarrow>
    bag_met (fold (\<lambda>(vote, cnt) newBag. if f vote then Bag_AddCount newBag vote cnt else newBag) al nb)"
    for al nb
    by (induction al arbitrary: nb) (auto simp: bag_met_AddCount)
  have "bag_met Bag_empty" by (simp add: bag_met_def Bag_empty_def Bag_List_def)
  from loop [OF bag_wf_empty this] show ?thesis by (simp add: Bag_Filter_def)
qed

lemma bag_met_Add: "bag_wf b \<Longrightarrow> bag_met b \<Longrightarrow> bag_met (Bag_Add b es)"
  unfolding Bag_Add_def by (induction es arbitrary: b) (auto simp: bag_met_AddCount)

section \<open>The interface of the votes\<close>

text \<open>
  What the consensus code relies on: a bag of votes stands for a multiset, its length is
  the size of the multiset, and filtering and splitting keep the counts.
\<close>

locale vote_bag =
  fixes votes_of :: "'b \<Rightarrow> 'a multiset"
    and invar :: "'b \<Rightarrow> bool"
    and len :: "'b \<Rightarrow> int"
    and cnt :: "'b \<Rightarrow> 'a \<Rightarrow> int"
    and restrict :: "('a \<Rightarrow> bool) \<Rightarrow> 'b \<Rightarrow> 'b"
    and divide :: "('a \<Rightarrow> bool) \<Rightarrow> 'b \<Rightarrow> 'b \<times> 'b"
  assumes len_votes: "invar b \<Longrightarrow> len b = int (size (votes_of b))"
    and cnt_votes: "invar b \<Longrightarrow> cnt b x = int (count (votes_of b) x)"
    and invar_restrict: "invar b \<Longrightarrow> invar (restrict f b)"
    and votes_restrict: "invar b \<Longrightarrow> votes_of (restrict f b) = filter_mset f (votes_of b)"
    and divide_restrict: "divide f b = (restrict (\<lambda>x. \<not> f x) b, restrict f b)"
begin

lemma len_nonneg: "invar b \<Longrightarrow> 0 \<le> len b"
  by (simp add: len_votes)

lemma len_restrict_le: "invar b \<Longrightarrow> len (restrict f b) \<le> len b"
  by (simp add: len_votes invar_restrict votes_restrict size_filter_mset_lesseq)

lemma len_divide: "invar b \<Longrightarrow> len (fst (divide f b)) + len (snd (divide f b)) = len b"
proof -
  assume b: "invar b"
  have "size (votes_of b) =
      size (filter_mset f (votes_of b)) + size (filter_mset (\<lambda>x. \<not> f x) (votes_of b))"
    by (metis multiset_partition size_union)
  with b show ?thesis
    by (simp add: divide_restrict len_votes invar_restrict votes_restrict)
qed

text \<open>With more than half of at most \<open>k\<close> votes required, both halves cannot win.\<close>

lemma one_majority:
  assumes "invar b" "len b \<le> k" "k div 2 < alpha" "alpha \<le> len (fst (divide f b))"
  shows "len (snd (divide f b)) < alpha"
  using len_divide [OF assms(1), of f] assms(2-4) by linarith

lemma len_all: "invar b \<Longrightarrow> (\<And>x. x \<in># votes_of b \<Longrightarrow> f x) \<Longrightarrow> len (restrict f b) = len b"
proof -
  assume b: "invar b" and all: "\<And>x. x \<in># votes_of b \<Longrightarrow> f x"
  from all have "filter_mset f (votes_of b) = votes_of b" by (simp add: filter_mset_cong)
  with b show ?thesis by (simp add: len_votes invar_restrict votes_restrict)
qed

end

interpretation bag: vote_bag Bag_mset bag_wf Bag_Len Bag_Count Bag_Filter Bag_Split
  by unfold_locales (simp_all add: Bag_Len_mset Bag_Count_mset Bag_mset_Filter Bag_Split_Filter)

section \<open>Properties\<close>

text \<open>
  C37. \<open>Mode\<close> returns an element whose count is the maximum over the bag, with that count,
  and the zero value with count 0 exactly for an empty bag; this holds for every iteration
  order of the underlying map.
\<close>

theorem Bag_Mode_is_maximum:
  assumes "bag_wf b" "Bag_Mode zero b = (m, f)"
  shows "(\<forall>x. Bag_Count b x \<le> f) \<and>
    (if Bag_Len b = 0 then m = zero \<and> f = 0 else 0 < f \<and> Bag_Count b m = f)"
  using Bag_Mode_spec [OF assms] by (auto split: if_splits)

theorem Bag_Mode_is_maximum_witness:
  "Bag_Mode 0 (Bag_Of [1, 2, 2, 3 :: nat]) = (2, 2) \<and>
    (\<forall>x. Bag_Count (Bag_Of [1, 2, 2, 3 :: nat]) x \<le> 2)"
proof -
  have wf: "bag_wf (Bag_Of [1, 2, 2, 3 :: nat])" by simp
  have m: "Bag_Mode 0 (Bag_Of [1, 2, 2, 3 :: nat]) = (2, 2)" by code_simp
  show ?thesis using m Bag_Mode_is_maximum [OF wf m] by simp
qed

end
