(* ===== verification/Bag_Int.thy ===== *)
theory Bag_Int
  imports Bag
begin

text \<open>
  \<open>utils/bag/bag.go\<close> with the counters of the code: \<open>int\<close> is a signed 64-bit integer, so the sum of a
  count, the size of the bag and its decrease wrap.  The operations that compute no counter (\<open>SetThreshold\<close>,
  \<open>Count\<close>, \<open>Len\<close>, \<open>List\<close>, \<open>Equals\<close>, \<open>Mode\<close>, \<open>Threshold\<close>) are those of \<open>Bag\<close>.  The others are given
  here again, and agree with those of \<open>Bag\<close> on a bag of fewer than \<open>2 ^ 63\<close> elements.
\<close>

definition int_wrap :: "int \<Rightarrow> int" where
  "int_wrap x = (x + 2 ^ 63) mod 2 ^ 64 - 2 ^ 63"

definition Bag_AddCount_int :: "'a Bag \<Rightarrow> 'a \<Rightarrow> int \<Rightarrow> 'a Bag" where
  "Bag_AddCount_int b elt cnt =
     (if cnt \<le> 0 then b
      else let totalCount = int_wrap (Bag_Count b elt + cnt) in
        b\<lparr>bag_counts := AList.update elt totalCount (bag_counts b),
          bag_size := int_wrap (bag_size b + cnt),
          bag_metThreshold :=
            (if totalCount \<ge> bag_threshold b then insert elt (bag_metThreshold b)
             else bag_metThreshold b)\<rparr>)"

definition Bag_Add_int :: "'a Bag \<Rightarrow> 'a list \<Rightarrow> 'a Bag" where
  "Bag_Add_int b elts = fold (\<lambda>elt b. Bag_AddCount_int b elt 1) elts b"

definition Bag_Of_int :: "'a list \<Rightarrow> 'a Bag" where
  "Bag_Of_int elts = Bag_Add_int Bag_empty elts"

definition Bag_Filter_int :: "('a \<Rightarrow> bool) \<Rightarrow> 'a Bag \<Rightarrow> 'a Bag" where
  "Bag_Filter_int filterFunc b =
     fold (\<lambda>(vote, count) newBag.
             if filterFunc vote then Bag_AddCount_int newBag vote count else newBag)
       (bag_counts b) Bag_empty"

definition Bag_Split_int :: "('a \<Rightarrow> bool) \<Rightarrow> 'a Bag \<Rightarrow> 'a Bag \<times> 'a Bag" where
  "Bag_Split_int splitFunc b =
     fold (\<lambda>(vote, count) (s0, s1).
             if splitFunc vote then (s0, Bag_AddCount_int s1 vote count)
             else (Bag_AddCount_int s0 vote count, s1))
       (bag_counts b) (Bag_empty, Bag_empty)"

definition Bag_Remove_int :: "'a Bag \<Rightarrow> 'a \<Rightarrow> 'a Bag" where
  "Bag_Remove_int b elt =
     b\<lparr>bag_counts := AList.delete elt (bag_counts b),
       bag_size := int_wrap (bag_size b - Bag_Count b elt)\<rparr>"

definition Bag_Clone_int :: "'a Bag \<Rightarrow> 'a Bag" where
  "Bag_Clone_int b = fold (\<lambda>(x, count) clone. Bag_AddCount_int clone x count) (bag_counts b) Bag_empty"

section \<open>Bags of fewer than \<open>2 ^ 63\<close> elements\<close>

lemma int_wrap_id: "- (2 ^ 63) \<le> x \<Longrightarrow> x < 2 ^ 63 \<Longrightarrow> int_wrap x = x"
  by (simp add: int_wrap_def)

lemma int_wrap_over: "2 ^ 63 \<le> x \<Longrightarrow> x < 2 ^ 64 \<Longrightarrow> int_wrap x = x - 2 ^ 64"
proof -
  assume x: "2 ^ 63 \<le> x" "x < 2 ^ 64"
  have "(x + 2 ^ 63) mod 2 ^ 64 = (x + 2 ^ 63 - 2 ^ 64) mod (2 ^ 64 :: int)" by (metis minus_mod_self2)
  also have "\<dots> = x + 2 ^ 63 - 2 ^ 64" using x by (intro mod_pos_pos_trivial) simp_all
  finally show ?thesis by (simp add: int_wrap_def)
qed

lemma Bag_Count_le_Len: "bag_wf b \<Longrightarrow> Bag_Count b x \<le> Bag_Len b"
  by (simp add: Bag_Count_mset Bag_Len_mset count_le_size)

lemma Bag_AddCount_int_eq:
  assumes "bag_wf b" "Bag_Len b + n < 2 ^ 63"
  shows "Bag_AddCount_int b e n = Bag_AddCount b e n"
proof (cases "n \<le> 0")
  case False
  have c: "0 \<le> Bag_Count b e" "Bag_Count b e \<le> Bag_Len b" "0 \<le> Bag_Len b"
    using bag_wf_Count_nonneg [OF assms(1)] Bag_Count_le_Len [OF assms(1)] Bag_Len_mset [OF assms(1)] by simp_all
  have "int_wrap (Bag_Count b e + n) = Bag_Count b e + n" using c False assms(2) by (intro int_wrap_id) linarith+
  moreover have "int_wrap (bag_size b + n) = bag_size b + n"
    using c False assms(2) unfolding Bag_Len_def by (intro int_wrap_id) linarith+
  ultimately show ?thesis by (simp add: Bag_AddCount_int_def Bag_AddCount_def Let_def)
qed (simp add: Bag_AddCount_int_def Bag_AddCount_def)

lemma Bag_Add_int_eq:
  "bag_wf b \<Longrightarrow> Bag_Len b + int (length es) < 2 ^ 63 \<Longrightarrow> Bag_Add_int b es = Bag_Add b es"
proof (induction es arbitrary: b)
  case (Cons e es)
  have "Bag_AddCount_int b e 1 = Bag_AddCount b e 1" using Cons.prems by (intro Bag_AddCount_int_eq) simp_all
  moreover have "Bag_Add_int (Bag_AddCount b e 1) es = Bag_Add (Bag_AddCount b e 1) es"
    using Cons.prems by (intro Cons.IH) (simp_all add: Bag_Len_AddCount)
  ultimately show ?case by (simp add: Bag_Add_int_def Bag_Add_def)
qed (simp add: Bag_Add_int_def Bag_Add_def)

lemma Bag_Of_int_eq: "int (length es) < 2 ^ 63 \<Longrightarrow> Bag_Of_int es = Bag_Of es"
  using Bag_Add_int_eq [OF bag_wf_empty, of es] by (simp add: Bag_Of_int_def Bag_Of_def Bag_Len_def Bag_empty_def)

lemma Filter_int_fold:
  assumes "F = (\<lambda>(vote, cnt) newBag. if f vote then Bag_AddCount newBag vote cnt else newBag)"
    and "F' = (\<lambda>(vote, cnt) newBag. if f vote then Bag_AddCount_int newBag vote cnt else newBag)"
  shows "bag_wf nb \<Longrightarrow> \<forall>(k, c) \<in> set al. 0 < c \<Longrightarrow> Bag_Len nb + sum_list (map snd al) < 2 ^ 63 \<Longrightarrow> fold F' al nb = fold F al nb"
proof (induction al arbitrary: nb)
  case (Cons p al)
  obtain k c where p: "p = (k, c)" by (cases p)
  have pos: "0 < c" "0 \<le> sum_list (map snd al)"
    using Cons.prems(2) p by (auto intro!: sum_list_nonneg split: prod.splits) fastforce
  have "Bag_AddCount_int nb k c = Bag_AddCount nb k c" using Cons.prems p pos by (intro Bag_AddCount_int_eq) simp_all
  then have "F' p nb = F p nb" by (simp add: assms p)
  moreover have "fold F' al (F p nb) = fold F al (F p nb)"
    using Cons.prems p pos by (intro Cons.IH) (auto simp: assms Bag_Len_AddCount)
  ultimately show ?case by simp
qed simp

lemma Bag_Filter_int_eq:
  assumes "bag_wf b" "Bag_Len b < 2 ^ 63"
  shows "Bag_Filter_int f b = Bag_Filter f b"
  using Filter_int_fold [OF refl refl bag_wf_empty, of "bag_counts b" f] assms
  by (simp add: Bag_Filter_int_def Bag_Filter_def bag_wf_def Bag_Len_def Bag_empty_def)

lemma Bag_Split_int_Filter: "Bag_Split_int f b = (Bag_Filter_int (\<lambda>x. \<not> f x) b, Bag_Filter_int f b)"
proof -
  have "fold (\<lambda>(vote, cnt) (s0, s1). if f vote then (s0, Bag_AddCount_int s1 vote cnt)
            else (Bag_AddCount_int s0 vote cnt, s1)) al (a, c) =
        (fold (\<lambda>(vote, cnt) newBag. if \<not> f vote then Bag_AddCount_int newBag vote cnt else newBag) al a,
         fold (\<lambda>(vote, cnt) newBag. if f vote then Bag_AddCount_int newBag vote cnt else newBag) al c)"
    for al and a c :: "'a Bag"
    by (induction al arbitrary: a c) auto
  then show ?thesis by (simp add: Bag_Split_int_def Bag_Filter_int_def)
qed

lemma Bag_Clone_int_Filter: "Bag_Clone_int b = Bag_Filter_int (\<lambda>_. True) b"
  by (simp add: Bag_Clone_int_def Bag_Filter_int_def)

lemma Bag_Split_Clone_int_eq:
  assumes "bag_wf b" "Bag_Len b < 2 ^ 63"
  shows "Bag_Split_int f b = Bag_Split f b" "Bag_Clone_int b = Bag_Clone b"
  by (simp_all add: Bag_Split_int_Filter Bag_Split_Filter Bag_Clone_int_Filter Bag_Clone_Filter Bag_Filter_int_eq [OF assms])

lemma Bag_Remove_int_eq:
  assumes "bag_wf b" "Bag_Len b < 2 ^ 63"
  shows "Bag_Remove_int b e = Bag_Remove b e"
proof -
  have "int_wrap (bag_size b - Bag_Count b e) = bag_size b - Bag_Count b e"
    using assms bag_wf_Count_nonneg [OF assms(1), of e] Bag_Count_le_Len [OF assms(1), of e]
    unfolding Bag_Len_def by (intro int_wrap_id) linarith+
  then show ?thesis by (simp add: Bag_Remove_int_def Bag_Remove_def)
qed

lemmas Bag_int_eqs = Bag_AddCount_int_eq Bag_Add_int_eq Bag_Filter_int_eq Bag_Split_Clone_int_eq Bag_Remove_int_eq

section \<open>Properties\<close>

text \<open>
  C36. The bag implements a multiset of fewer than \<open>2 ^ 63\<close> elements: on a well-formed bag (distinct keys,
  positive counts, the cached size equal to their sum) of this size every operation keeps well-formedness and acts on the
  represented multiset as its name says: counting, length, filtering, splitting,
  removing all occurrences, cloning, listing without duplicates, equality, and adding, to it or to a new bag, as long as the elements
  after the addition are still fewer than \<open>2 ^ 63\<close>.  The bound is sharp: an addition that reaches it makes the length
  negative.
\<close>

theorem Bag_implements_multiset:
  assumes "bag_wf b" "bag_wf b'" "Bag_Len b < 2 ^ 63" "n < 2 ^ 63"
  shows "Bag_Count b x = int (count (Bag_mset b) x) \<and>
    Bag_Len b = int (size (Bag_mset b)) \<and>
    (if Bag_Len b + n < 2 ^ 63
     then bag_wf (Bag_AddCount_int b x n) \<and>
       Bag_mset (Bag_AddCount_int b x n) = Bag_mset b + replicate_mset (nat n) x
     else Bag_Len (Bag_AddCount_int b x n) = int (size (Bag_mset b)) + n - 2 ^ 64 \<and> Bag_Len (Bag_AddCount_int b x n) < 0) \<and>
    (Bag_Len b + int (length xs) < 2 ^ 63 \<longrightarrow>
       bag_wf (Bag_Add_int b xs) \<and> Bag_mset (Bag_Add_int b xs) = Bag_mset b + mset xs \<and>
       bag_wf (Bag_Of_int xs) \<and> Bag_mset (Bag_Of_int xs) = mset xs) \<and>
    bag_wf (Bag_Filter_int f b) \<and> Bag_mset (Bag_Filter_int f b) = filter_mset f (Bag_mset b) \<and>
    bag_wf (fst (Bag_Split_int f b)) \<and> bag_wf (snd (Bag_Split_int f b)) \<and>
    Bag_mset (fst (Bag_Split_int f b)) = filter_mset (\<lambda>x. \<not> f x) (Bag_mset b) \<and>
    Bag_mset (snd (Bag_Split_int f b)) = filter_mset f (Bag_mset b) \<and>
    bag_wf (Bag_Remove_int b x) \<and>
    Bag_mset (Bag_Remove_int b x) = filter_mset (\<lambda>y. y \<noteq> x) (Bag_mset b) \<and>
    bag_wf (Bag_Clone_int b) \<and> Bag_mset (Bag_Clone_int b) = Bag_mset b \<and>
    distinct (Bag_List b) \<and> set (Bag_List b) = set_mset (Bag_mset b) \<and>
    (Bag_Equals b b' \<longleftrightarrow> Bag_mset b = Bag_mset b')"
proof -
  have "Bag_Len (Bag_AddCount_int b x n) = int (size (Bag_mset b)) + n - 2 ^ 64 \<and> Bag_Len (Bag_AddCount_int b x n) < 0"
    if over: "\<not> Bag_Len b + n < 2 ^ 63"
  proof -
    have "0 < n" using over assms(3) by linarith
    moreover have "int_wrap (Bag_Len b + n) = Bag_Len b + n - 2 ^ 64" using over assms(3,4) by (intro int_wrap_over) simp_all
    ultimately have "Bag_Len (Bag_AddCount_int b x n) = Bag_Len b + n - 2 ^ 64"
      by (simp add: Bag_AddCount_int_def Let_def Bag_Len_def)
    then show ?thesis using assms by (simp add: Bag_Len_mset)
  qed
  moreover have "Bag_Of_int xs = Bag_Of xs" if "Bag_Len b + int (length xs) < 2 ^ 63"
    using that Bag_Len_mset [OF assms(1)] by (intro Bag_Of_int_eq) simp
  ultimately show ?thesis
    using assms
    by (simp add: Bag_mset_Of Bag_Count_mset Bag_Len_mset Bag_int_eqs Bag_mset_Add Bag_mset_Filter Bag_Split_Filter
        Bag_mset_Remove Bag_Clone_Filter distinct_Bag_List set_Bag_List Bag_Equals_mset)
qed

theorem Bag_implements_multiset_witness:
  "Bag_mset (Bag_Filter_int (\<lambda>x. x < 3) (Bag_Of [1, 2, 2, 3 :: nat])) = {#1, 2, 2#} \<and>
   Bag_Len (Bag_AddCount_int (Bag_Of [1, 2, 2, 3 :: nat]) 5 (2 ^ 63 - 1)) = 3 - 2 ^ 63"
proof -
  have len: "Bag_Len (Bag_Of [1, 2, 2, 3 :: nat]) = 4" by (simp add: Bag_Len_mset Bag_mset_Of)
  then show ?thesis
    using Bag_implements_multiset [of "Bag_Of [1, 2, 2, 3 :: nat]" Bag_empty "2 ^ 63 - 1" 5 "[]" "\<lambda>x. x < 3"]
    by (simp add: Bag_mset_Of)
qed

text \<open>
  C38. In a bag of fewer than \<open>2 ^ 63\<close> elements the threshold set is exactly the set of listed elements whose count
  reaches the threshold: every addition that stays below this bound, every threshold change, filtering and cloning keep
  or establish this.  \<open>Remove\<close> does not: it drops an element's count to zero and leaves the threshold set as it was,
  so that a removed element stays in the set that \<open>Threshold\<close> returns.  Neither does an addition that makes a count
  wrap: the count becomes negative, and an element that is in the threshold set stays there.
\<close>

theorem Bag_Threshold_exact_but_for_Remove:
  assumes "bag_wf b" "bag_met b" "Bag_Len b < 2 ^ 63" "n < 2 ^ 63"
  shows "(Bag_Len b + n < 2 ^ 63 \<longrightarrow> bag_met (Bag_AddCount_int b x n)) \<and>
    (Bag_Len b + int (length xs) < 2 ^ 63 \<longrightarrow> bag_met (Bag_Add_int b xs)) \<and>
    bag_met (Bag_SetThreshold b t) \<and> bag_met (Bag_Filter_int f b) \<and> bag_met (Bag_Clone_int b) \<and>
    Bag_Threshold (Bag_SetThreshold b t) = {x \<in> set (Bag_List b). t \<le> Bag_Count b x} \<and>
    Bag_Threshold (Bag_Remove_int b x) = Bag_Threshold b \<and> Bag_Count (Bag_Remove_int b x) x = 0 \<and>
    (2 ^ 63 \<le> Bag_Count b x + n \<longrightarrow>
       Bag_Count (Bag_AddCount_int b x n) x = Bag_Count b x + n - 2 ^ 64 \<and> Bag_Count (Bag_AddCount_int b x n) x < 0 \<and>
       Bag_Threshold b \<subseteq> Bag_Threshold (Bag_AddCount_int b x n))"
proof -
  have t: "Bag_Threshold (Bag_SetThreshold b t) = {x \<in> set (Bag_List b). t \<le> Bag_Count b x}"
    using bag_met_SetThreshold [OF assms(1,2), of t]
    by (auto simp: bag_met_def Bag_Threshold_def Bag_SetThreshold_def Bag_List_def Bag_Count_def
        split: if_splits)
  have wrap: "Bag_Count (Bag_AddCount_int b x n) x = Bag_Count b x + n - 2 ^ 64 \<and> Bag_Count (Bag_AddCount_int b x n) x < 0 \<and>
       Bag_Threshold b \<subseteq> Bag_Threshold (Bag_AddCount_int b x n)" if over: "2 ^ 63 \<le> Bag_Count b x + n"
  proof -
    have c: "Bag_Count b x < 2 ^ 63" using Bag_Count_le_Len [OF assms(1), of x] assms(3) by linarith
    have "0 < n" using over c by linarith
    moreover have "int_wrap (Bag_Count b x + n) = Bag_Count b x + n - 2 ^ 64" using over c assms(4) by (intro int_wrap_over) simp_all
    ultimately show ?thesis using c assms(4)
      by (auto simp: Bag_AddCount_int_def Let_def Bag_Count_def [of "_\<lparr>bag_counts := _, bag_size := _, bag_metThreshold := _\<rparr>"]
          update_conv' Bag_Threshold_def)
  qed
  have r: "Bag_Threshold (Bag_Remove_int b x) = Bag_Threshold b \<and> Bag_Count (Bag_Remove_int b x) x = 0"
    by (simp add: Bag_Remove_int_def Bag_Threshold_def Bag_Count_def delete_conv')
  have m: "bag_met (Bag_AddCount_int b x n)" if "Bag_Len b + n < 2 ^ 63"
    using that assms by (simp add: Bag_AddCount_int_eq bag_met_AddCount)
  have ms: "bag_met (Bag_Add_int b xs)" if "Bag_Len b + int (length xs) < 2 ^ 63"
    using that assms by (simp add: Bag_Add_int_eq bag_met_Add)
  have "bag_met (Bag_SetThreshold b t)" "bag_met (Bag_Filter_int f b)" "bag_met (Bag_Clone_int b)"
    using assms by (simp_all add: Bag_int_eqs bag_met_SetThreshold bag_met_Filter Bag_Clone_Filter)
  with t wrap r m ms show ?thesis by blast
qed

theorem Bag_Threshold_exact_but_for_Remove_witness:
  "2 \<in> Bag_Threshold (Bag_Remove_int (Bag_SetThreshold (Bag_Of [1, 2, 2 :: nat]) 2) 2) \<and>
   Bag_Count (Bag_Remove_int (Bag_SetThreshold (Bag_Of [1, 2, 2 :: nat]) 2) 2) 2 = 0 \<and>
   Bag_Count (Bag_AddCount_int (Bag_SetThreshold (Bag_Of [1, 2, 2 :: nat]) 2) 2 (2 ^ 63 - 1)) 2 < 0 \<and>
   2 \<in> Bag_Threshold (Bag_AddCount_int (Bag_SetThreshold (Bag_Of [1, 2, 2 :: nat]) 2) 2 (2 ^ 63 - 1))"
proof -
  let ?b = "Bag_SetThreshold (Bag_Of [1, 2, 2 :: nat]) 2"
  have "bag_wf ?b \<and> bag_met ?b \<and> Bag_Threshold ?b = {2} \<and> Bag_Len ?b = 3 \<and> Bag_Count ?b 2 = 2"
    by (simp add: bag_wf_def bag_met_def Bag_SetThreshold_def Bag_Of_def Bag_Add_def
        Bag_AddCount_def Bag_empty_def Bag_Count_def Bag_List_def Bag_Threshold_def Bag_Len_def Let_def)
  then show ?thesis using Bag_Threshold_exact_but_for_Remove [of ?b "2 ^ 63 - 1" 2 "[]" 0 "\<lambda>_. True"] by auto
qed

end
