(* ===== verification/Snow_Params.thy ===== *)
theory Snow_Params
  imports Prelude "HOL-Library.Signed_Division"
begin

text \<open>
  \<open>snow/consensus/snowball/parameters.go\<close>: the parameters of a snow instance, their
  validation, and the termination conditions of an instance.  Go's \<open>int\<close> division
  truncates towards zero, which is \<open>sdiv\<close>; a duration is its number of nanoseconds.
  The floating point helper \<open>MinPercentConnectedHealthy\<close> is not modelled.
\<close>

record Parameters =
  K :: int
  Alpha :: "int option"
  AlphaPreference :: int
  AlphaConfidence :: int
  Beta :: int
  ConcurrentRepolls :: int
  OptimalProcessing :: int
  MaxOutstandingItems :: int
  MaxItemProcessingTime :: int

definition DefaultParameters :: Parameters where
  "DefaultParameters = \<lparr>K = 20, Alpha = None, AlphaPreference = 15, AlphaConfidence = 15,
     Beta = 20, ConcurrentRepolls = 4, OptimalProcessing = 10, MaxOutstandingItems = 256,
     MaxItemProcessingTime = 30 * 1000000000\<rparr>"

text \<open>Every error of \<open>Verify\<close> wraps \<open>ErrParametersInvalid\<close>; the argument is the
  condition its message says is violated.\<close>

datatype failed_condition =
    HalfK_less_AlphaPreference
  | AlphaPreference_le_AlphaConfidence
  | AlphaConfidence_le_K
  | AlphaConfidence_3_AlphaPreference_28
  | ConcurrentRepolls_positive
  | ConcurrentRepolls_le_Beta
  | OptimalProcessing_positive
  | MaxOutstandingItems_positive
  | MaxItemProcessingTime_positive

datatype params_error = ErrParametersInvalid failed_condition

definition Parameters_Verify :: "Parameters \<Rightarrow> params_error option" where
  "Parameters_Verify p =
     (if AlphaPreference p \<le> K p sdiv 2 then Some (ErrParametersInvalid HalfK_less_AlphaPreference)
      else if AlphaConfidence p < AlphaPreference p
      then Some (ErrParametersInvalid AlphaPreference_le_AlphaConfidence)
      else if K p < AlphaConfidence p then Some (ErrParametersInvalid AlphaConfidence_le_K)
      else if AlphaConfidence p = 3 \<and> AlphaPreference p = 28
      then Some (ErrParametersInvalid AlphaConfidence_3_AlphaPreference_28)
      else if ConcurrentRepolls p \<le> 0 then Some (ErrParametersInvalid ConcurrentRepolls_positive)
      else if ConcurrentRepolls p > Beta p then Some (ErrParametersInvalid ConcurrentRepolls_le_Beta)
      else if OptimalProcessing p \<le> 0 then Some (ErrParametersInvalid OptimalProcessing_positive)
      else if MaxOutstandingItems p \<le> 0 then Some (ErrParametersInvalid MaxOutstandingItems_positive)
      else if MaxItemProcessingTime p \<le> 0
      then Some (ErrParametersInvalid MaxItemProcessingTime_positive)
      else None)"

record terminationCondition =
  tc_alphaConfidence :: int
  tc_beta :: int

definition newSingleTerminationCondition :: "int \<Rightarrow> int \<Rightarrow> terminationCondition list" where
  "newSingleTerminationCondition alphaConfidence beta =
     [\<lparr>tc_alphaConfidence = alphaConfidence, tc_beta = beta\<rparr>]"

section \<open>Valid parameters\<close>

definition params_valid :: "Parameters \<Rightarrow> bool" where
  "params_valid p \<longleftrightarrow> K p sdiv 2 < AlphaPreference p \<and> AlphaPreference p \<le> AlphaConfidence p \<and>
     AlphaConfidence p \<le> K p \<and> 0 < ConcurrentRepolls p \<and> ConcurrentRepolls p \<le> Beta p \<and>
     0 < OptimalProcessing p \<and> 0 < MaxOutstandingItems p \<and> 0 < MaxItemProcessingTime p"

lemma Parameters_Verify_iff: "Parameters_Verify p = None \<longleftrightarrow> params_valid p"
  by (auto simp: Parameters_Verify_def params_valid_def)

lemma sdiv_2_bound: "(k::int) \<le> 2 * (k sdiv 2) + 1"
proof (cases "0 \<le> k")
  case True
  then have "k sdiv 2 = k div 2" by (simp add: signed_divide_int_def sgn_if)
  then show ?thesis by simp
next
  case False
  then have "k sdiv 2 = - ((- k) div 2)" by (simp add: signed_divide_int_def sgn_if)
  moreover have "2 * ((- k) div 2) \<le> - k" by simp
  ultimately show ?thesis by linarith
qed

lemma params_valid_majority:
  assumes "params_valid p"
  shows "K p < 2 * AlphaPreference p" "0 < AlphaPreference p" "0 < Beta p" "0 < K p"
proof -
  from assms have v: "K p sdiv 2 < AlphaPreference p" "AlphaPreference p \<le> K p" "0 < Beta p"
    by (auto simp: params_valid_def)
  show "K p < 2 * AlphaPreference p" using v(1) sdiv_2_bound [of "K p"] by linarith
  with v show "0 < AlphaPreference p" "0 < K p" "0 < Beta p" by linarith+
qed

text \<open>
  C39. \<open>Verify\<close> accepts exactly the documented parameters: \<open>K/2 < AlphaPreference \<le>
  AlphaConfidence \<le> K\<close>, \<open>0 < ConcurrentRepolls \<le> Beta\<close> and positive limits.
  Accepted parameters require more than half of the sample for a preference, so that two
  disjoint sets of at least \<open>AlphaPreference\<close> responses never fit into one poll of \<open>K\<close>;
  \<open>Beta\<close> is positive, and the branch for \<open>AlphaConfidence = 3\<close>, \<open>AlphaPreference =
  28\<close> is never taken.
\<close>

theorem Parameters_Verify_exact:
  "(Parameters_Verify p = None \<longleftrightarrow>
      K p sdiv 2 < AlphaPreference p \<and> AlphaPreference p \<le> AlphaConfidence p \<and>
      AlphaConfidence p \<le> K p \<and> 0 < ConcurrentRepolls p \<and> ConcurrentRepolls p \<le> Beta p \<and>
      0 < OptimalProcessing p \<and> 0 < MaxOutstandingItems p \<and> 0 < MaxItemProcessingTime p) \<and>
   (Parameters_Verify p = None \<longrightarrow>
      K p < AlphaPreference p + AlphaPreference p \<and> 0 < AlphaPreference p \<and> 0 < Beta p) \<and>
   Parameters_Verify p \<noteq> Some (ErrParametersInvalid AlphaConfidence_3_AlphaPreference_28)"
proof (intro conjI)
  show "Parameters_Verify p \<noteq> Some (ErrParametersInvalid AlphaConfidence_3_AlphaPreference_28)"
    by (simp add: Parameters_Verify_def)
  show "Parameters_Verify p = None \<longrightarrow>
      K p < AlphaPreference p + AlphaPreference p \<and> 0 < AlphaPreference p \<and> 0 < Beta p"
    using params_valid_majority by (auto simp: Parameters_Verify_iff)
qed (simp add: Parameters_Verify_iff params_valid_def)

theorem Parameters_Verify_exact_witness:
  "Parameters_Verify DefaultParameters = None \<and> (20::int) < 15 + 15"
proof -
  have "Parameters_Verify DefaultParameters = None" by code_simp
  with Parameters_Verify_exact [of DefaultParameters] show ?thesis
    by (simp add: DefaultParameters_def)
qed

end
