(* ===== verification/Ids.thy ===== *)
theory Ids
  imports Prelude
begin

unbundle bit_operations_syntax

text \<open>
  \<open>ids/id.go\<close> and \<open>ids/bits.go\<close>: identifiers and their bit ranges.

  An \<open>ids.ID\<close> is an array of 32 bytes.  It is modelled by the 256-bit word whose
  byte \<open>k\<close> (bits \<open>8 * k\<close> to \<open>8 * k + 7\<close>) is the array's element \<open>k\<close>, so that
  the bit numbering of \<open>bits.go\<close> (index 7 is the most significant bit of byte 0, index 8
  the least significant bit of byte 1) is the numbering of the word's bits.  \<open>ID_byte\<close>
  is the array access; the functions below read the identifier through it only, with the
  byte masks of the source.  Go's \<open>int\<close> values that hold masks are 64-bit words; bit
  indices are never negative and are natural numbers.
\<close>

type_synonym ID = "256 word"
type_synonym NodeID = "160 word"

definition ids_Empty :: ID where
  "ids_Empty = 0"

definition NumBits :: nat where
  "NumBits = 256"

definition BitsPerByte :: nat where
  "BitsPerByte = 8"

definition ID_byte :: "ID \<Rightarrow> nat \<Rightarrow> 8 word" where
  "ID_byte x k = ucast (drop_bit (8 * k) x)"

text \<open>\<open>Bit\<close>: shift the byte right and mask the lowest bit.\<close>

definition ID_Bit :: "ID \<Rightarrow> nat \<Rightarrow> nat" where
  "ID_Bit x i =
     (let byteIndex = i div BitsPerByte;
          bitIndex = i mod BitsPerByte;
          b = ID_byte x byteIndex;
          b = drop_bit bitIndex b;
          b = b AND 1
      in unat b)"

text \<open>\<open>math/bits.TrailingZeros8\<close> of the standard library: the number of trailing zero bits,
  8 for 0.\<close>

definition TrailingZeros8 :: "8 word \<Rightarrow> nat" where
  "TrailingZeros8 x = length (takeWhile (\<lambda>i. \<not> bit x i) [0..<8])"

text \<open>The two masks of \<open>bits.go\<close>, as Go computes them on \<open>int\<close>.\<close>

definition startMask :: "nat \<Rightarrow> 64 word" where
  "startMask startBit = push_bit startBit (- 1)"

definition stopMask :: "nat \<Rightarrow> 64 word" where
  "stopMask stopBit = push_bit (stopBit + 1) 1 - 1"

definition byte_int :: "ID \<Rightarrow> nat \<Rightarrow> 64 word" where
  "byte_int x k = ucast (ID_byte x k)"

text \<open>\<open>EqualSubset start stop\<close>: the source first decrements \<open>stop\<close>, so that it is the
  last index of the range; with \<open>stop = 0\<close> it becomes negative and the answer is true.\<close>

definition EqualSubset :: "nat \<Rightarrow> nat \<Rightarrow> ID \<Rightarrow> ID \<Rightarrow> bool" where
  "EqualSubset start stop0 id1 id2 =
     (if stop0 = 0 then True
      else let stop = stop0 - 1 in
      if start > stop then True
      else if stop \<ge> NumBits then False
      else
        let startIndex = start div BitsPerByte;
            stopIndex = stop div BitsPerByte
        in
        if startIndex + 1 < stopIndex \<and>
           \<not> (\<forall>k \<in> set [startIndex + 1..<stopIndex]. ID_byte id1 k = ID_byte id2 k)
        then False
        else
          let startBit = start mod BitsPerByte;
              stopBit = stop mod BitsPerByte
          in
          if startIndex = stopIndex then
            let mask = startMask startBit AND stopMask stopBit;
                b1 = mask AND byte_int id1 startIndex;
                b2 = mask AND byte_int id2 startIndex
            in b1 = b2
          else
            let start1 = startMask startBit AND byte_int id1 startIndex;
                start2 = startMask startBit AND byte_int id2 startIndex;
                stop1 = stopMask stopBit AND byte_int id1 stopIndex;
                stop2 = stopMask stopBit AND byte_int id2 stopIndex
            in start1 = start2 \<and> stop1 = stop2)"

text \<open>The loop of \<open>FirstDifferenceSubset\<close> over the bytes strictly between the first and
  the last byte of the range: the first byte index at which the identifiers differ.\<close>

fun first_byte_diff :: "nat list \<Rightarrow> ID \<Rightarrow> ID \<Rightarrow> nat option" where
  "first_byte_diff [] id1 id2 = None"
| "first_byte_diff (i # is) id1 id2 =
     (if byte_int id1 i \<noteq> byte_int id2 i then Some i else first_byte_diff is id1 id2)"

text \<open>\<open>FirstDifferenceSubset\<close>: Go returns \<open>(index, found)\<close>; not found is \<open>None\<close>.\<close>

definition FirstDifferenceSubset :: "nat \<Rightarrow> nat \<Rightarrow> ID \<Rightarrow> ID \<Rightarrow> nat option" where
  "FirstDifferenceSubset start stop0 id1 id2 =
     (if stop0 = 0 then None
      else let stop = stop0 - 1 in
      if start > stop \<or> stop \<ge> NumBits then None
      else
        let startIndex = start div BitsPerByte;
            stopIndex = stop div BitsPerByte;
            startBit = start mod BitsPerByte;
            stopBit = stop mod BitsPerByte
        in
        if startIndex = stopIndex then
          let mask = startMask startBit AND stopMask stopBit;
              b1 = mask AND byte_int id1 startIndex;
              b2 = mask AND byte_int id2 startIndex
          in if b1 = b2 then None
             else Some (TrailingZeros8 (ucast (b1 XOR b2)) + startIndex * BitsPerByte)
        else
          let start1 = startMask startBit AND byte_int id1 startIndex;
              start2 = startMask startBit AND byte_int id2 startIndex
          in if start1 \<noteq> start2
             then Some (TrailingZeros8 (ucast (start1 XOR start2)) + startIndex * BitsPerByte)
             else
               case first_byte_diff [startIndex + 1..<stopIndex] id1 id2 of
                 Some i \<Rightarrow>
                   Some (TrailingZeros8 (ucast (byte_int id1 i XOR byte_int id2 i))
                         + i * BitsPerByte)
               | None \<Rightarrow>
                   let stop1 = stopMask stopBit AND byte_int id1 stopIndex;
                       stop2 = stopMask stopBit AND byte_int id2 stopIndex
                   in if stop1 \<noteq> stop2
                      then Some (TrailingZeros8 (ucast (stop1 XOR stop2))
                                 + stopIndex * BitsPerByte)
                      else None)"

text \<open>\<open>XOR\<close> of two identifiers works byte by byte, so it is the word's.\<close>

definition ID_XOR :: "ID \<Rightarrow> ID \<Rightarrow> ID" where
  "ID_XOR x y = x XOR y"

section \<open>Bits of bytes and masks\<close>

lemma bit_ID_byte: "bit (ID_byte x k) n \<longleftrightarrow> n < 8 \<and> bit x (8 * k + n)"
  by (auto simp: ID_byte_def bit_ucast_iff bit_drop_bit_eq)

lemma bit_byte_int: "bit (byte_int x k) n \<longleftrightarrow> n < 8 \<and> bit x (8 * k + n)"
  by (auto simp: byte_int_def bit_ucast_iff bit_ID_byte)

lemma bit_startMask: "bit (startMask s) n \<longleftrightarrow> n < 64 \<and> s \<le> n"
  by (auto simp: startMask_def bit_not_iff bit_mask_iff)

lemma bit_stopMask:
  assumes "s < 8" shows "bit (stopMask s) n \<longleftrightarrow> n \<le> s"
proof -
  have "stopMask s = mask (Suc s)"
    by (simp add: stopMask_def mask_eq_exp_minus_1 push_bit_eq_mult)
  with assms show ?thesis by (auto simp: bit_mask_iff)
qed

lemma masked_eq_iff:
  fixes m x y :: "64 word"
  shows "m AND x = m AND y \<longleftrightarrow> (\<forall>n. bit m n \<longrightarrow> bit x n = bit y n)"
proof -
  have "n < 64" if "bit m n" for n using bit_imp_le_length [OF that] by simp
  then show ?thesis by (auto simp: bit_eq_iff bit_and_iff)
qed

lemma ID_Bit_eq: "ID_Bit x i = of_bool (bit x i)"
proof -
  have "drop_bit (i mod 8) (ID_byte x (i div 8)) AND 1 = of_bool (bit x i)"
    by (simp add: and_one_eq odd_iff_mod_2_eq_one [symmetric] mod_2_eq_odd bit_iff_odd_drop_bit [symmetric]
        bit_ID_byte)
  then show ?thesis
    by (simp add: ID_Bit_def BitsPerByte_def Let_def)
qed

lemma ID_Bit_cases: "ID_Bit x i = 0 \<or> ID_Bit x i = 1"
  by (simp add: ID_Bit_eq)

lemma ID_Bit_le_1 [simp]: "ID_Bit x i \<le> Suc 0"
  by (simp add: ID_Bit_eq)

lemma ID_Bit_eq_iff: "ID_Bit a i = ID_Bit b i \<longleftrightarrow> bit a i = bit b i"
  by (simp add: ID_Bit_eq)

section \<open>The trailing zeros of a difference\<close>

lemma TrailingZeros8_least:
  assumes "x \<noteq> 0"
  shows "TrailingZeros8 x < 8 \<and> bit x (TrailingZeros8 x) \<and> (\<forall>j < TrailingZeros8 x. \<not> bit x j)"
proof -
  from assms obtain n where n: "bit x n" by (auto simp: bit_eq_iff)
  then have "n < 8" using bit_imp_le_length [OF n] by simp
  from takeWhile_upt_least [where P = "bit x", OF this n] show ?thesis
    by (simp add: TrailingZeros8_def)
qed

section \<open>Comparing bit ranges\<close>

abbreviation differ :: "ID \<Rightarrow> ID \<Rightarrow> nat \<Rightarrow> bool" where
  "differ a b i \<equiv> ID_Bit a i \<noteq> ID_Bit b i"

text \<open>A masked comparison of one byte compares the bits of the mask's range.\<close>

lemma masked_byte_eq_iff:
  assumes m: "\<And>n. n < 8 \<Longrightarrow> bit m n \<longleftrightarrow> lo \<le> n \<and> n \<le> hi" and hi: "hi < 8"
  shows "m AND byte_int a k = m AND byte_int b k \<longleftrightarrow>
    List.find (differ a b) [8 * k + lo..<8 * k + hi + 1] = None"
proof -
  have "m AND byte_int a k = m AND byte_int b k \<longleftrightarrow>
      (\<forall>n. n < 8 \<longrightarrow> lo \<le> n \<longrightarrow> n \<le> hi \<longrightarrow> bit a (8 * k + n) = bit b (8 * k + n))"
    unfolding masked_eq_iff bit_byte_int using m by auto
  also have "\<dots> \<longleftrightarrow> (\<forall>i. 8 * k + lo \<le> i \<longrightarrow> i < 8 * k + hi + 1 \<longrightarrow> bit a i = bit b i)"
  proof
    assume H: "\<forall>n. n < 8 \<longrightarrow> lo \<le> n \<longrightarrow> n \<le> hi \<longrightarrow> bit a (8 * k + n) = bit b (8 * k + n)"
    have "bit a i = bit b i" if "8 * k + lo \<le> i" "i < 8 * k + hi + 1" for i
      using H [rule_format, of "i - 8 * k"] hi that by auto
    then show "\<forall>i. 8 * k + lo \<le> i \<longrightarrow> i < 8 * k + hi + 1 \<longrightarrow> bit a i = bit b i" by blast
  qed auto
  finally show ?thesis unfolding find_upt_None_iff ID_Bit_eq_iff by simp
qed

lemma masked_byte_first_diff:
  assumes m: "\<And>n. n < 8 \<Longrightarrow> bit m n \<longleftrightarrow> lo \<le> n \<and> n \<le> hi" and hi: "hi < 8"
    and ne: "m AND byte_int a k \<noteq> m AND byte_int b k"
  shows "List.find (differ a b) [8 * k + lo..<8 * k + hi + 1] =
    Some (TrailingZeros8 (ucast ((m AND byte_int a k) XOR (m AND byte_int b k))) + k * BitsPerByte)"
proof -
  define d :: "8 word" where "d = ucast ((m AND byte_int a k) XOR (m AND byte_int b k))"
  have d: "bit d n \<longleftrightarrow> n < 8 \<and> lo \<le> n \<and> n \<le> hi \<and> bit a (8 * k + n) \<noteq> bit b (8 * k + n)" for n
    by (auto simp: d_def bit_ucast_iff bit_xor_iff bit_and_iff bit_byte_int m)
  have "d \<noteq> 0"
  proof
    assume "d = 0"
    then have "\<not> bit d n" for n by simp
    then have "m AND byte_int a k = m AND byte_int b k"
      unfolding masked_eq_iff bit_byte_int d using m by auto
    with ne show False ..
  qed
  note tz = TrailingZeros8_least [OF this]
  let ?t = "TrailingZeros8 d"
  have t: "lo \<le> ?t" "?t \<le> hi" "bit a (8 * k + ?t) \<noteq> bit b (8 * k + ?t)"
    using tz d [of ?t] by auto
  have "bit a j = bit b j" if "8 * k + lo \<le> j" "j < ?t + k * 8" for j
    using tz d [of "j - 8 * k"] that t(2) by auto
  with t show ?thesis
    unfolding find_upt_Some_iff d_def [symmetric] BitsPerByte_def ID_Bit_eq_iff
    by (auto simp: add.commute mult.commute)
qed

text \<open>Whole bytes: the mask is implicit.\<close>

lemma byte_eq_iff:
  "byte_int a k = byte_int b k \<longleftrightarrow> List.find (differ a b) [8 * k..<8 * k + 8] = None"
  using masked_byte_eq_iff [of "-1" 0 7 a k b] by (simp add: add.commute)

lemma byte_first_diff:
  "byte_int a k \<noteq> byte_int b k \<Longrightarrow> List.find (differ a b) [8 * k..<8 * k + 8] =
    Some (TrailingZeros8 (ucast (byte_int a k XOR byte_int b k)) + k * BitsPerByte)"
  using masked_byte_first_diff [of "-1" 0 7 a k b] by (simp add: add.commute)

lemma ID_byte_eq_iff: "ID_byte a k = ID_byte b k \<longleftrightarrow> byte_int a k = byte_int b k"
proof
  assume eq: "byte_int a k = byte_int b k"
  have "bit (ID_byte a k) n = bit (ID_byte b k) n" for n
    using bit_byte_int [of a k n] bit_byte_int [of b k n] by (simp add: bit_ID_byte eq)
  then show "ID_byte a k = ID_byte b k" by (auto intro: bit_eqI)
qed (simp add: byte_int_def)

lemma upt_bytes: "m \<le> n \<Longrightarrow> [8 * m..<8 * n] = concat (map (\<lambda>k. [8 * k..<8 * k + 8]) [m..<n])"
proof (induction n)
  case (Suc n)
  show ?case
  proof (cases "m \<le> n")
    case True
    then have "[8 * m..<8 * Suc n] = [8 * m..<8 * n] @ [8 * n..<8 * n + 8]"
      using upt_append [of "8 * m" "8 * n" "8 * n + 8"] by (simp add: add.commute)
    with Suc True show ?thesis by simp
  next
    case False
    with Suc.prems have "m = Suc n" by simp
    then show ?thesis by simp
  qed
qed simp

lemma first_byte_diff_find:
  "List.find (differ a b) (concat (map (\<lambda>k. [8 * k..<8 * k + 8]) ks)) =
    (case first_byte_diff ks a b of
       Some i \<Rightarrow> Some (TrailingZeros8 (ucast (byte_int a i XOR byte_int b i)) + i * BitsPerByte)
     | None \<Rightarrow> None)"
proof (induction ks)
  case (Cons k ks)
  then show ?case
    by (cases "byte_int a k = byte_int b k")
      (simp_all only: concat.simps list.map find_append byte_eq_iff [THEN iffD1] byte_first_diff
        first_byte_diff.simps option.case simp_thms if_True if_False)
qed simp

lemma find_split_range:
  assumes start: "start = 8 * q + r" "r < 8" and stop: "stop = 8 * q' + r'" and "q < q'"
  shows "[start..<stop + 1] =
    [8 * q + r..<8 * q + 7 + 1] @ [8 * (q + 1)..<8 * q'] @ [8 * q' + 0..<8 * q' + r' + 1]"
proof -
  have "start \<le> 8 * (q + 1)" "8 * (q + 1) \<le> 8 * q'" "8 * q' \<le> stop + 1" "8 * q + 7 + 1 = 8 * (q + 1)"
    using assms by auto
  then have "[start..<stop + 1] = [start..<8 * q + 7 + 1] @ [8 * (q + 1)..<8 * q'] @ [8 * q'..<stop + 1]"
    by (simp only: upt_append le_trans)
  then show ?thesis using start stop by (simp only: add_0_right)
qed

lemma startMask_range: "n < 8 \<Longrightarrow> bit (startMask r) n \<longleftrightarrow> r \<le> n \<and> n \<le> 7"
  by (auto simp: bit_startMask)

lemma stopMask_range: "r < 8 \<Longrightarrow> n < 8 \<Longrightarrow> bit (stopMask r) n \<longleftrightarrow> 0 \<le> n \<and> n \<le> r"
  by (simp add: bit_stopMask)

lemma bothMask_range:
  "r' < 8 \<Longrightarrow> n < 8 \<Longrightarrow> bit (startMask r AND stopMask r') n \<longleftrightarrow> r \<le> n \<and> n \<le> r'"
  by (auto simp: bit_and_iff bit_startMask bit_stopMask)

text \<open>
  The byte-wise search with masks is the search of the range bit by bit.
\<close>

lemma FirstDifferenceSubset_find:
  "FirstDifferenceSubset start stop a b =
    (if NumBits < stop then None else List.find (differ a b) [start..<stop])"
proof (cases "start < stop \<and> stop \<le> NumBits")
  case False
  then show ?thesis by (auto simp: FirstDifferenceSubset_def Let_def)
next
  case True
  define e q r q' r' where defs: "e = stop - 1" "q = start div 8" "r = start mod 8"
    "q' = e div 8" "r' = e mod 8"
  have start: "start = 8 * q + r" "r < 8" and e: "e = 8 * q' + r'" "r' < 8"
    by (auto simp: defs)
  have stop: "stop = e + 1" "start \<le> e" "e < NumBits" using True by (auto simp: defs)
  have nb: "\<not> NumBits < stop" "stop \<noteq> 0" using True by auto
  note F = FirstDifferenceSubset_def Let_def BitsPerByte_def
  have unf: "FirstDifferenceSubset start stop a b =
     (if q = q' then
        (if (startMask r AND stopMask r') AND byte_int a q = (startMask r AND stopMask r') AND byte_int b q
         then None
         else Some (TrailingZeros8 (ucast (((startMask r AND stopMask r') AND byte_int a q) XOR
                ((startMask r AND stopMask r') AND byte_int b q))) + q * BitsPerByte))
      else if startMask r AND byte_int a q \<noteq> startMask r AND byte_int b q
        then Some (TrailingZeros8 (ucast ((startMask r AND byte_int a q) XOR (startMask r AND byte_int b q)))
               + q * BitsPerByte)
      else case first_byte_diff [q + 1..<q'] a b of
        Some i \<Rightarrow> Some (TrailingZeros8 (ucast (byte_int a i XOR byte_int b i)) + i * BitsPerByte)
      | None \<Rightarrow>
        (if stopMask r' AND byte_int a q' \<noteq> stopMask r' AND byte_int b q'
         then Some (TrailingZeros8 (ucast ((stopMask r' AND byte_int a q') XOR (stopMask r' AND byte_int b q')))
               + q' * BitsPerByte)
         else None))"
    using stop by (simp add: F defs cong: option.case_cong)
  show ?thesis
  proof (cases "q = q'")
    case True
    then have range: "[start..<stop] = [8 * q + r..<8 * q + r' + 1]"
      using start e stop by simp
    show ?thesis
      unfolding unf range
      using True nb
        masked_byte_eq_iff [OF bothMask_range [OF e(2)] e(2), of r a q b]
        masked_byte_first_diff [OF bothMask_range [OF e(2)] e(2), of r a q b]
      by auto
  next
    case False
    with start e stop have "q < q'" by auto
    note range = find_split_range [OF start e(1) this, folded stop(1)]
    have mid: "List.find (differ a b) [8 * (q + 1)..<8 * q'] =
      (case first_byte_diff [q + 1..<q'] a b of
         Some i \<Rightarrow> Some (TrailingZeros8 (ucast (byte_int a i XOR byte_int b i)) + i * BitsPerByte)
       | None \<Rightarrow> None)"
      using \<open>q < q'\<close> by (subst upt_bytes) (auto simp only: first_byte_diff_find)
    show ?thesis
      unfolding unf range find_append mid
      using False nb
        masked_byte_eq_iff [OF startMask_range, of r a q b]
        masked_byte_first_diff [OF startMask_range, of r a q b]
        masked_byte_eq_iff [OF stopMask_range [OF e(2)] e(2), of a q' b]
        masked_byte_first_diff [OF stopMask_range [OF e(2)] e(2), of a q' b]
      by (auto split: option.split)
  qed
qed

lemma list_all_iff_find: "list_all P xs \<longleftrightarrow> List.find (\<lambda>x. \<not> P x) xs = None"
  by (induction xs) auto

lemma bytes_eq_iff_find:
  "(\<forall>k \<in> set ks. ID_byte a k = ID_byte b k) \<longleftrightarrow>
    List.find (differ a b) (concat (map (\<lambda>k. [8 * k..<8 * k + 8]) ks)) = None"
proof (induction ks)
  case (Cons k ks)
  then show ?case
    by (cases "byte_int a k = byte_int b k")
      (simp_all only: concat.simps list.map find_append byte_eq_iff [THEN iffD1] byte_first_diff
        ID_byte_eq_iff list.set ball_simps option.case simp_thms option.distinct)
qed simp

lemma EqualSubset_find:
  "EqualSubset start stop a b \<longleftrightarrow>
    stop \<le> start \<or> stop \<le> NumBits \<and> List.find (differ a b) [start..<stop] = None"
proof (cases "start < stop \<and> stop \<le> NumBits")
  case False
  then show ?thesis by (auto simp: EqualSubset_def Let_def)
next
  case True
  define e q r q' r' where defs: "e = stop - 1" "q = start div 8" "r = start mod 8"
    "q' = e div 8" "r' = e mod 8"
  have start: "start = 8 * q + r" "r < 8" and e: "e = 8 * q' + r'" "r' < 8"
    by (auto simp: defs)
  have stop: "stop = e + 1" "start \<le> e" "e < NumBits" using True by (auto simp: defs)
  have unf: "EqualSubset start stop a b \<longleftrightarrow>
     \<not> (q + 1 < q' \<and> \<not> (\<forall>k \<in> set [q + 1..<q']. ID_byte a k = ID_byte b k)) \<and>
     (if q = q' then
        (startMask r AND stopMask r') AND byte_int a q = (startMask r AND stopMask r') AND byte_int b q
      else startMask r AND byte_int a q = startMask r AND byte_int b q \<and>
        stopMask r' AND byte_int a q' = stopMask r' AND byte_int b q')"
    using stop by (auto simp: EqualSubset_def Let_def BitsPerByte_def defs)
  show ?thesis
  proof (cases "q = q'")
    case eq: True
    then have range: "[start..<stop] = [8 * q + r..<8 * q + r' + 1]"
      using start e stop by simp
    show ?thesis
      unfolding unf range
      using eq True masked_byte_eq_iff [OF bothMask_range [OF e(2)] e(2), of r a q b]
      by auto
  next
    case False
    with start e stop have "q < q'" by auto
    note range = find_split_range [OF start e(1) this, folded stop(1)]
    have mid: "\<not> (q + 1 < q' \<and> \<not> (\<forall>k \<in> set [q + 1..<q']. ID_byte a k = ID_byte b k)) \<longleftrightarrow>
      List.find (differ a b) [8 * (q + 1)..<8 * q'] = None"
    proof -
      have "[8 * (q + 1)..<8 * q'] = concat (map (\<lambda>k. [8 * k..<8 * k + 8]) [q + 1..<q'])"
        using \<open>q < q'\<close> by (intro upt_bytes) simp
      then show ?thesis by (simp only: bytes_eq_iff_find [symmetric]) auto
    qed
    show ?thesis
      unfolding unf range find_append mid
      using False True
        masked_byte_eq_iff [OF startMask_range, of r a q b]
        masked_byte_eq_iff [OF stopMask_range [OF e(2)] e(2), of a q' b]
      by (auto split: option.split)
  qed
qed

text \<open>
  C35. The byte-wise comparisons with masks are exact on every range: \<open>EqualSubset\<close> holds
  iff the identifiers agree on every bit of the range (a range that is not empty and
  exceeds the 256 bits is never equal), and \<open>FirstDifferenceSubset\<close> returns the first index of the
  range at which the two identifiers differ, or nothing when there is none or the range
  exceeds the 256 bits.
\<close>

theorem bit_ranges_exact:
  "(EqualSubset start stop a b \<longleftrightarrow> stop \<le> start \<or>
      stop \<le> NumBits \<and> list_all (\<lambda>i. ID_Bit a i = ID_Bit b i) [start..<stop]) \<and>
   FirstDifferenceSubset start stop a b =
     (if NumBits < stop then None
      else List.find (\<lambda>i. ID_Bit a i \<noteq> ID_Bit b i) [start..<stop])"
  by (simp add: EqualSubset_find FirstDifferenceSubset_find list_all_iff_find)

section \<open>Agreement on a prefix\<close>

text \<open>The relation the snow tree works with: two identifiers share their first \<open>n\<close> bits.\<close>

definition agree :: "nat \<Rightarrow> ID \<Rightarrow> ID \<Rightarrow> bool" where
  "agree n a b \<longleftrightarrow> (\<forall>i < n. ID_Bit a i = ID_Bit b i)"

lemma agree_refl [simp]: "agree n a a"
  by (simp add: agree_def)

lemma agree_sym: "agree n a b \<Longrightarrow> agree n b a"
  by (simp add: agree_def)

lemma agree_trans: "agree n a b \<Longrightarrow> agree n b c \<Longrightarrow> agree n a c"
  by (simp add: agree_def)

lemma agree_mono: "agree n a b \<Longrightarrow> m \<le> n \<Longrightarrow> agree m a b"
  by (simp add: agree_def)

lemma agree_Suc: "agree (Suc n) a b \<longleftrightarrow> agree n a b \<and> ID_Bit a n = ID_Bit b n"
  by (auto simp: agree_def less_Suc_eq)

lemma agree_0 [simp]: "agree 0 a b"
  by (simp add: agree_def)

lemma EqualSubset_agree: "n \<le> NumBits \<Longrightarrow> EqualSubset 0 n a b \<longleftrightarrow> agree n a b"
  by (auto simp: EqualSubset_find find_upt_None_iff agree_def)

lemma agree_NumBits: "agree NumBits a b \<longleftrightarrow> a = b"
proof
  assume "agree NumBits a b"
  then have "bit a i = bit b i" if "i < 256" for i
    using that by (simp add: agree_def NumBits_def ID_Bit_eq_iff)
  then show "a = b" by (auto simp: bit_eq_iff)
qed simp

lemma FirstDifferenceSubset_Some:
  "FirstDifferenceSubset d c a b = Some i \<longleftrightarrow> c \<le> NumBits \<and> d \<le> i \<and> i < c \<and>
    ID_Bit a i \<noteq> ID_Bit b i \<and> (\<forall>j. d \<le> j \<longrightarrow> j < i \<longrightarrow> ID_Bit a j = ID_Bit b j)"
  by (auto simp: FirstDifferenceSubset_find find_upt_Some_iff)

lemma FirstDifferenceSubset_None:
  "c \<le> NumBits \<Longrightarrow>
    FirstDifferenceSubset d c a b = None \<longleftrightarrow> (\<forall>j. d \<le> j \<longrightarrow> j < c \<longrightarrow> ID_Bit a j = ID_Bit b j)"
  by (auto simp: FirstDifferenceSubset_find find_upt_None_iff)

lemma FirstDifferenceSubset_Some_agree:
  assumes "FirstDifferenceSubset d c a b = Some i" "agree d a b"
  shows "d \<le> i \<and> i < c \<and> c \<le> NumBits \<and> agree i a b \<and> ID_Bit b i = 1 - ID_Bit a i"
  using assms ID_Bit_cases [of a i] ID_Bit_cases [of b i]
  by (auto simp: FirstDifferenceSubset_Some agree_def) (metis not_le_imp_less)+

lemma FirstDifferenceSubset_None_agree:
  "FirstDifferenceSubset d c a b = None \<Longrightarrow> agree d a b \<Longrightarrow> c \<le> NumBits \<Longrightarrow> agree c a b"
  by (auto simp: FirstDifferenceSubset_None agree_def) (metis not_le_imp_less)

end
