(* ===== verification/Snow_Instances.thy ===== *)
theory Snow_Instances
  imports Snow_Params Ids Bag
begin

text \<open>
  The decision instances of \<open>snow/consensus/snowball\<close>: slush, snowflake and snowball, each
  for one choice (unary), two choices (binary) and any number of choices (n-nary), the
  factories that build them, and the \<open>Flat\<close> consensus over an n-nary instance.

  A Go struct that embeds another one is a record that extends the other's record, and the
  methods the embedding promotes are functions on the extensible record.  A value of one of
  the interfaces \<open>Unary\<close>, \<open>Binary\<close> and \<open>Nnary\<close> is a datatype with a constructor
  per implementation.  Choices of a binary instance are the bits 0 and 1.
\<close>

section \<open>The confidence loop\<close>

text \<open>
  The loop over \<open>terminationConditions\<close> that the three snowflake instances share: it
  walks the conditions and the confidence counters together, clears the counters from the
  first threshold that \<open>count\<close> misses, and stops early when a counter reaches its
  \<open>beta\<close>.  The second component says that \<open>finalized\<close> was set.  The two slices have
  the same length (the constructors and every operation keep it), so the last equation,
  where Go would index out of range, is never reached.
\<close>

fun confidence_loop :: "int \<Rightarrow> terminationCondition list \<Rightarrow> int list \<Rightarrow> int list \<times> bool" where
  "confidence_loop cnt [] confidence = (confidence, False)"
| "confidence_loop cnt (tc # tcs) (c # cs) =
     (if cnt < tc_alphaConfidence tc then (replicate (length (c # cs)) 0, False)
      else if c + 1 \<ge> tc_beta tc then ((c + 1) # cs, True)
      else let (cs', finalized) = confidence_loop cnt tcs cs in ((c + 1) # cs', finalized))"
| "confidence_loop cnt (tc # tcs) [] = ([], False)"

text \<open>\<open>clear\<close> on a slice sets every element to zero.\<close>

definition go_clear :: "int list \<Rightarrow> int list" where
  "go_clear xs = replicate (length xs) 0"

section \<open>Slush\<close>

record binarySlush =
  bsl_preference :: nat

definition newBinarySlush :: "nat \<Rightarrow> binarySlush" where
  "newBinarySlush choice = \<lparr>bsl_preference = choice\<rparr>"

definition binarySlush_Preference :: "'z binarySlush_scheme \<Rightarrow> nat" where
  "binarySlush_Preference sl = bsl_preference sl"

definition binarySlush_RecordSuccessfulPoll ::
    "'z binarySlush_scheme \<Rightarrow> nat \<Rightarrow> 'z binarySlush_scheme" where
  "binarySlush_RecordSuccessfulPoll sl choice = sl\<lparr>bsl_preference := choice\<rparr>"

record nnarySlush =
  nsl_preference :: ID

definition newNnarySlush :: "ID \<Rightarrow> nnarySlush" where
  "newNnarySlush choice = \<lparr>nsl_preference = choice\<rparr>"

definition nnarySlush_Preference :: "'z nnarySlush_scheme \<Rightarrow> ID" where
  "nnarySlush_Preference sl = nsl_preference sl"

definition nnarySlush_RecordSuccessfulPoll ::
    "'z nnarySlush_scheme \<Rightarrow> ID \<Rightarrow> 'z nnarySlush_scheme" where
  "nnarySlush_RecordSuccessfulPoll sl choice = sl\<lparr>nsl_preference := choice\<rparr>"

section \<open>Binary snowflake and snowball\<close>

record binarySnowflake = binarySlush +
  bsf_alphaPreference :: int
  bsf_terminationConditions :: "terminationCondition list"
  bsf_confidence :: "int list"
  bsf_finalized :: bool

definition newBinarySnowflake :: "int \<Rightarrow> terminationCondition list \<Rightarrow> nat \<Rightarrow> binarySnowflake" where
  "newBinarySnowflake alphaPreference terminationConditions choice =
     binarySlush.extend (newBinarySlush choice)
       (binarySnowflake.fields alphaPreference terminationConditions
          (replicate (length terminationConditions) 0) False)"

definition binarySnowflake_RecordUnsuccessfulPoll ::
    "'z binarySnowflake_scheme \<Rightarrow> 'z binarySnowflake_scheme" where
  "binarySnowflake_RecordUnsuccessfulPoll sf = sf\<lparr>bsf_confidence := go_clear (bsf_confidence sf)\<rparr>"

definition binarySnowflake_RecordPoll ::
    "'z binarySnowflake_scheme \<Rightarrow> int \<Rightarrow> nat \<Rightarrow> 'z binarySnowflake_scheme" where
  "binarySnowflake_RecordPoll sf cnt choice =
     (if bsf_finalized sf then sf
      else if cnt < bsf_alphaPreference sf then binarySnowflake_RecordUnsuccessfulPoll sf
      else
        let sf = (if choice \<noteq> binarySlush_Preference sf
                  then sf\<lparr>bsf_confidence := go_clear (bsf_confidence sf)\<rparr> else sf);
            sf = binarySlush_RecordSuccessfulPoll sf choice;
            (confidence, fin) =
              confidence_loop cnt (bsf_terminationConditions sf) (bsf_confidence sf)
        in sf\<lparr>bsf_confidence := confidence, bsf_finalized := bsf_finalized sf \<or> fin\<rparr>)"

definition binarySnowflake_Finalized :: "'z binarySnowflake_scheme \<Rightarrow> bool" where
  "binarySnowflake_Finalized sf = bsf_finalized sf"

record binarySnowball = binarySnowflake +
  bsb_preference :: nat
  bsb_preferenceStrength :: "int \<times> int"

definition newBinarySnowball :: "int \<Rightarrow> terminationCondition list \<Rightarrow> nat \<Rightarrow> binarySnowball" where
  "newBinarySnowball alphaPreference terminationConditions choice =
     binarySnowflake.extend (newBinarySnowflake alphaPreference terminationConditions choice)
       (binarySnowball.fields choice (0, 0))"

definition binarySnowball_Preference :: "'z binarySnowball_scheme \<Rightarrow> nat" where
  "binarySnowball_Preference sb =
     (if binarySnowflake_Finalized sb then binarySlush_Preference sb else bsb_preference sb)"

definition binarySnowball_RecordPoll ::
    "'z binarySnowball_scheme \<Rightarrow> int \<Rightarrow> nat \<Rightarrow> 'z binarySnowball_scheme" where
  "binarySnowball_RecordPoll sb cnt choice =
     (let sb =
        (if cnt \<ge> bsf_alphaPreference sb then
           let strength = upd2 (bsb_preferenceStrength sb) choice
                            (at2 (bsb_preferenceStrength sb) choice + 1);
               sb = sb\<lparr>bsb_preferenceStrength := strength\<rparr>
           in if at2 strength choice > at2 strength (1 - choice)
              then sb\<lparr>bsb_preference := choice\<rparr> else sb
         else sb)
      in binarySnowflake_RecordPoll sb cnt choice)"

section \<open>N-nary snowflake and snowball\<close>

record nnarySnowflake = nnarySlush +
  nsf_alphaPreference :: int
  nsf_terminationConditions :: "terminationCondition list"
  nsf_confidence :: "int list"
  nsf_finalized :: bool

definition newNnarySnowflake :: "int \<Rightarrow> terminationCondition list \<Rightarrow> ID \<Rightarrow> nnarySnowflake" where
  "newNnarySnowflake alphaPreference terminationConditions choice =
     nnarySlush.extend (newNnarySlush choice)
       (nnarySnowflake.fields alphaPreference terminationConditions
          (replicate (length terminationConditions) 0) False)"

text \<open>Adding a choice does nothing.\<close>

definition nnarySnowflake_Add :: "'z nnarySnowflake_scheme \<Rightarrow> ID \<Rightarrow> 'z nnarySnowflake_scheme" where
  "nnarySnowflake_Add sf choice = sf"

definition nnarySnowflake_RecordUnsuccessfulPoll ::
    "'z nnarySnowflake_scheme \<Rightarrow> 'z nnarySnowflake_scheme" where
  "nnarySnowflake_RecordUnsuccessfulPoll sf = sf\<lparr>nsf_confidence := go_clear (nsf_confidence sf)\<rparr>"

definition nnarySnowflake_RecordPoll ::
    "'z nnarySnowflake_scheme \<Rightarrow> int \<Rightarrow> ID \<Rightarrow> 'z nnarySnowflake_scheme" where
  "nnarySnowflake_RecordPoll sf cnt choice =
     (if nsf_finalized sf then sf
      else if cnt < nsf_alphaPreference sf then nnarySnowflake_RecordUnsuccessfulPoll sf
      else
        let sf = (if choice \<noteq> nnarySlush_Preference sf
                  then sf\<lparr>nsf_confidence := go_clear (nsf_confidence sf)\<rparr> else sf);
            sf = nnarySlush_RecordSuccessfulPoll sf choice;
            (confidence, fin) =
              confidence_loop cnt (nsf_terminationConditions sf) (nsf_confidence sf)
        in sf\<lparr>nsf_confidence := confidence, nsf_finalized := nsf_finalized sf \<or> fin\<rparr>)"

definition nnarySnowflake_Finalized :: "'z nnarySnowflake_scheme \<Rightarrow> bool" where
  "nnarySnowflake_Finalized sf = nsf_finalized sf"

text \<open>The map \<open>preferenceStrength\<close> reads 0 for a missing key.\<close>

record nnarySnowball = nnarySnowflake +
  nsb_preference :: ID
  nsb_maxPreferenceStrength :: int
  nsb_preferenceStrength :: "ID \<rightharpoonup> int"

definition newNnarySnowball :: "int \<Rightarrow> terminationCondition list \<Rightarrow> ID \<Rightarrow> nnarySnowball" where
  "newNnarySnowball alphaPreference terminationConditions choice =
     nnarySnowflake.extend (newNnarySnowflake alphaPreference terminationConditions choice)
       (nnarySnowball.fields choice 0 Map.empty)"

definition nnarySnowball_Preference :: "'z nnarySnowball_scheme \<Rightarrow> ID" where
  "nnarySnowball_Preference sb =
     (if nnarySnowflake_Finalized sb then nnarySlush_Preference sb else nsb_preference sb)"

definition strength_of :: "(ID \<rightharpoonup> int) \<Rightarrow> ID \<Rightarrow> int" where
  "strength_of m choice = (case m choice of Some n \<Rightarrow> n | None \<Rightarrow> 0)"

definition nnarySnowball_RecordPoll ::
    "'z nnarySnowball_scheme \<Rightarrow> int \<Rightarrow> ID \<Rightarrow> 'z nnarySnowball_scheme" where
  "nnarySnowball_RecordPoll sb cnt choice =
     (let sb =
        (if cnt \<ge> nsf_alphaPreference sb then
           let preferenceStrength = strength_of (nsb_preferenceStrength sb) choice + 1;
               sb = sb\<lparr>nsb_preferenceStrength :=
                      (nsb_preferenceStrength sb)(choice \<mapsto> preferenceStrength)\<rparr>
           in if preferenceStrength > nsb_maxPreferenceStrength sb
              then sb\<lparr>nsb_preference := choice, nsb_maxPreferenceStrength := preferenceStrength\<rparr>
              else sb
         else sb)
      in nnarySnowflake_RecordPoll sb cnt choice)"

section \<open>Unary snowflake and snowball\<close>

record unarySnowflake =
  usf_alphaPreference :: int
  usf_terminationConditions :: "terminationCondition list"
  usf_confidence :: "int list"
  usf_finalized :: bool

definition newUnarySnowflake :: "int \<Rightarrow> terminationCondition list \<Rightarrow> unarySnowflake" where
  "newUnarySnowflake alphaPreference terminationConditions =
     \<lparr>usf_alphaPreference = alphaPreference, usf_terminationConditions = terminationConditions,
      usf_confidence = replicate (length terminationConditions) 0, usf_finalized = False\<rparr>"

definition unarySnowflake_RecordPoll ::
    "'z unarySnowflake_scheme \<Rightarrow> int \<Rightarrow> 'z unarySnowflake_scheme" where
  "unarySnowflake_RecordPoll sf cnt =
     (let (confidence, fin) =
        confidence_loop cnt (usf_terminationConditions sf) (usf_confidence sf)
      in sf\<lparr>usf_confidence := confidence, usf_finalized := usf_finalized sf \<or> fin\<rparr>)"

definition unarySnowflake_RecordUnsuccessfulPoll ::
    "'z unarySnowflake_scheme \<Rightarrow> 'z unarySnowflake_scheme" where
  "unarySnowflake_RecordUnsuccessfulPoll sf = sf\<lparr>usf_confidence := go_clear (usf_confidence sf)\<rparr>"

definition unarySnowflake_Finalized :: "'z unarySnowflake_scheme \<Rightarrow> bool" where
  "unarySnowflake_Finalized sf = usf_finalized sf"

definition unarySnowflake_Extend :: "'z unarySnowflake_scheme \<Rightarrow> nat \<Rightarrow> binarySnowflake" where
  "unarySnowflake_Extend sf choice =
     \<lparr>bsl_preference = choice,
      bsf_alphaPreference = usf_alphaPreference sf,
      bsf_terminationConditions = usf_terminationConditions sf,
      bsf_confidence = usf_confidence sf,
      bsf_finalized = usf_finalized sf\<rparr>"

definition unarySnowflake_Clone :: "unarySnowflake \<Rightarrow> unarySnowflake" where
  "unarySnowflake_Clone sf = sf"

record unarySnowball = unarySnowflake +
  usb_preferenceStrength :: int

definition newUnarySnowball :: "int \<Rightarrow> terminationCondition list \<Rightarrow> unarySnowball" where
  "newUnarySnowball alphaPreference terminationConditions =
     unarySnowflake.extend (newUnarySnowflake alphaPreference terminationConditions)
       (unarySnowball.fields 0)"

definition unarySnowball_RecordPoll ::
    "'z unarySnowball_scheme \<Rightarrow> int \<Rightarrow> 'z unarySnowball_scheme" where
  "unarySnowball_RecordPoll sb cnt =
     (let sb = (if cnt \<ge> usf_alphaPreference sb
                then sb\<lparr>usb_preferenceStrength := usb_preferenceStrength sb + 1\<rparr> else sb)
      in unarySnowflake_RecordPoll sb cnt)"

definition unarySnowball_Extend :: "'z unarySnowball_scheme \<Rightarrow> nat \<Rightarrow> binarySnowball" where
  "unarySnowball_Extend sb choice =
     \<lparr>bsl_preference = choice,
      bsf_alphaPreference = usf_alphaPreference sb,
      bsf_terminationConditions = usf_terminationConditions sb,
      bsf_confidence = usf_confidence sb,
      bsf_finalized = unarySnowflake_Finalized sb,
      bsb_preference = choice,
      bsb_preferenceStrength = upd2 (0, 0) choice (usb_preferenceStrength sb)\<rparr>"

definition unarySnowball_Clone :: "unarySnowball \<Rightarrow> unarySnowball" where
  "unarySnowball_Clone sb = sb"

section \<open>The interfaces\<close>

datatype Unary = UnarySnowflake unarySnowflake | UnarySnowball unarySnowball

datatype Binary = BinarySnowflake binarySnowflake | BinarySnowball binarySnowball

datatype Nnary = NnarySnowflake nnarySnowflake | NnarySnowball nnarySnowball

fun Unary_RecordPoll :: "Unary \<Rightarrow> int \<Rightarrow> Unary" where
  "Unary_RecordPoll (UnarySnowflake s) cnt = UnarySnowflake (unarySnowflake_RecordPoll s cnt)"
| "Unary_RecordPoll (UnarySnowball s) cnt = UnarySnowball (unarySnowball_RecordPoll s cnt)"

fun Unary_RecordUnsuccessfulPoll :: "Unary \<Rightarrow> Unary" where
  "Unary_RecordUnsuccessfulPoll (UnarySnowflake s) =
     UnarySnowflake (unarySnowflake_RecordUnsuccessfulPoll s)"
| "Unary_RecordUnsuccessfulPoll (UnarySnowball s) =
     UnarySnowball (unarySnowflake_RecordUnsuccessfulPoll s)"

fun Unary_Finalized :: "Unary \<Rightarrow> bool" where
  "Unary_Finalized (UnarySnowflake s) = unarySnowflake_Finalized s"
| "Unary_Finalized (UnarySnowball s) = unarySnowflake_Finalized s"

fun Unary_Extend :: "Unary \<Rightarrow> nat \<Rightarrow> Binary" where
  "Unary_Extend (UnarySnowflake s) choice = BinarySnowflake (unarySnowflake_Extend s choice)"
| "Unary_Extend (UnarySnowball s) choice = BinarySnowball (unarySnowball_Extend s choice)"

fun Unary_Clone :: "Unary \<Rightarrow> Unary" where
  "Unary_Clone (UnarySnowflake s) = UnarySnowflake (unarySnowflake_Clone s)"
| "Unary_Clone (UnarySnowball s) = UnarySnowball (unarySnowball_Clone s)"

fun Binary_Preference :: "Binary \<Rightarrow> nat" where
  "Binary_Preference (BinarySnowflake s) = binarySlush_Preference s"
| "Binary_Preference (BinarySnowball s) = binarySnowball_Preference s"

fun Binary_RecordPoll :: "Binary \<Rightarrow> int \<Rightarrow> nat \<Rightarrow> Binary" where
  "Binary_RecordPoll (BinarySnowflake s) cnt choice =
     BinarySnowflake (binarySnowflake_RecordPoll s cnt choice)"
| "Binary_RecordPoll (BinarySnowball s) cnt choice =
     BinarySnowball (binarySnowball_RecordPoll s cnt choice)"

fun Binary_RecordUnsuccessfulPoll :: "Binary \<Rightarrow> Binary" where
  "Binary_RecordUnsuccessfulPoll (BinarySnowflake s) =
     BinarySnowflake (binarySnowflake_RecordUnsuccessfulPoll s)"
| "Binary_RecordUnsuccessfulPoll (BinarySnowball s) =
     BinarySnowball (binarySnowflake_RecordUnsuccessfulPoll s)"

fun Binary_Finalized :: "Binary \<Rightarrow> bool" where
  "Binary_Finalized (BinarySnowflake s) = binarySnowflake_Finalized s"
| "Binary_Finalized (BinarySnowball s) = binarySnowflake_Finalized s"

fun Nnary_Add :: "Nnary \<Rightarrow> ID \<Rightarrow> Nnary" where
  "Nnary_Add (NnarySnowflake s) choice = NnarySnowflake (nnarySnowflake_Add s choice)"
| "Nnary_Add (NnarySnowball s) choice = NnarySnowball (nnarySnowflake_Add s choice)"

fun Nnary_Preference :: "Nnary \<Rightarrow> ID" where
  "Nnary_Preference (NnarySnowflake s) = nnarySlush_Preference s"
| "Nnary_Preference (NnarySnowball s) = nnarySnowball_Preference s"

fun Nnary_RecordPoll :: "Nnary \<Rightarrow> int \<Rightarrow> ID \<Rightarrow> Nnary" where
  "Nnary_RecordPoll (NnarySnowflake s) cnt choice =
     NnarySnowflake (nnarySnowflake_RecordPoll s cnt choice)"
| "Nnary_RecordPoll (NnarySnowball s) cnt choice =
     NnarySnowball (nnarySnowball_RecordPoll s cnt choice)"

fun Nnary_RecordUnsuccessfulPoll :: "Nnary \<Rightarrow> Nnary" where
  "Nnary_RecordUnsuccessfulPoll (NnarySnowflake s) =
     NnarySnowflake (nnarySnowflake_RecordUnsuccessfulPoll s)"
| "Nnary_RecordUnsuccessfulPoll (NnarySnowball s) =
     NnarySnowball (nnarySnowflake_RecordUnsuccessfulPoll s)"

fun Nnary_Finalized :: "Nnary \<Rightarrow> bool" where
  "Nnary_Finalized (NnarySnowflake s) = nnarySnowflake_Finalized s"
| "Nnary_Finalized (NnarySnowball s) = nnarySnowflake_Finalized s"

section \<open>Factories\<close>

datatype Factory = SnowballFactory | SnowflakeFactory

fun Factory_NewNnary :: "Factory \<Rightarrow> Parameters \<Rightarrow> ID \<Rightarrow> Nnary" where
  "Factory_NewNnary SnowballFactory params choice =
     NnarySnowball (newNnarySnowball (AlphaPreference params)
       (newSingleTerminationCondition (AlphaConfidence params) (Beta params)) choice)"
| "Factory_NewNnary SnowflakeFactory params choice =
     NnarySnowflake (newNnarySnowflake (AlphaPreference params)
       (newSingleTerminationCondition (AlphaConfidence params) (Beta params)) choice)"

fun Factory_NewUnary :: "Factory \<Rightarrow> Parameters \<Rightarrow> Unary" where
  "Factory_NewUnary SnowballFactory params =
     UnarySnowball (newUnarySnowball (AlphaPreference params)
       (newSingleTerminationCondition (AlphaConfidence params) (Beta params)))"
| "Factory_NewUnary SnowflakeFactory params =
     UnarySnowflake (newUnarySnowflake (AlphaPreference params)
       (newSingleTerminationCondition (AlphaConfidence params) (Beta params)))"

section \<open>Flat consensus\<close>

record Flat =
  flat_Nnary :: Nnary
  flat_params :: Parameters

definition NewFlat :: "Factory \<Rightarrow> Parameters \<Rightarrow> ID \<Rightarrow> Flat" where
  "NewFlat factory params choice =
     \<lparr>flat_Nnary = Factory_NewNnary factory params choice, flat_params = params\<rparr>"

definition Flat_RecordPoll :: "Flat \<Rightarrow> ID Bag \<Rightarrow> Flat \<times> bool" where
  "Flat_RecordPoll f votes =
     (let (pollMode, numVotes) = Bag_Mode ids_Empty votes
      in (f\<lparr>flat_Nnary := Nnary_RecordPoll (flat_Nnary f) numVotes pollMode\<rparr>,
          numVotes \<ge> AlphaPreference (flat_params f)))"

end
