(* ===== verification/Snow_Tree.thy ===== *)
theory Snow_Tree
  imports Snow_Instances
begin

text \<open>
  \<open>snow/consensus/snowball/tree.go\<close>: the modified Patricia tree of snow instances that decides
  between many choices bit by bit.  A unary node votes on a range of bits on which all the
  choices below it agree, a binary node on one bit on which they differ.

  A value of the Go interface \<open>node\<close> is a constructor of \<open>node\<close>.  The reference of a node to its
  tree is only used for the parameters and the factory, which are arguments here.  Go
  nodes are pointers that a method updates in place: \<open>node_RecordPoll\<close> therefore returns the updated
  receiver, which the parent still references, next to the node that the method
  returns.  The printing functions are not modelled.
\<close>

datatype node =
    UnaryNode (u_preference: ID) (u_decidedPrefix: nat) (u_commonPrefix: nat) (u_snow: Unary)
      (u_shouldReset: bool) (u_child: "node option")
  | BinaryNode (b_preferences: "ID \<times> ID") (b_bit: nat) (b_snow: Binary)
      (b_shouldReset: "bool \<times> bool") (b_children: "node option \<times> node option")

lemma size_at2_child [termination_simp]:
  "at2 (a, b) i = Some c \<Longrightarrow> size c < Suc (Suc (size_option size a + size_option size b))"
  by (auto simp: at2_def split: if_splits)

fun node_Preference :: "node \<Rightarrow> ID" where
  "node_Preference (UnaryNode pref dp cp snow sr child) = pref"
| "node_Preference (BinaryNode prefs b snow sr children) = at2 prefs (Binary_Preference snow)"

fun node_DecidedPrefix :: "node \<Rightarrow> nat" where
  "node_DecidedPrefix (UnaryNode pref dp cp snow sr child) = dp"
| "node_DecidedPrefix (BinaryNode prefs b snow sr children) = b"

fun node_Finalized :: "node \<Rightarrow> bool" where
  "node_Finalized (UnaryNode pref dp cp snow sr child) = Unary_Finalized snow"
| "node_Finalized (BinaryNode prefs b snow sr children) = Binary_Finalized snow"

section \<open>Adding a choice\<close>

text \<open>The split of a unary node on bit \<open>index\<close>, by the four cases of the source.  In the cases
  where the split node has no child, the binary node decides the last bit and has none either.\<close>

definition unaryNode_split :: "Factory \<Rightarrow> Parameters \<Rightarrow> node \<Rightarrow> nat \<Rightarrow> ID \<Rightarrow> node" where
  "unaryNode_split factory params u index newChoice =
     (let bit = ID_Bit (u_preference u) index;
          preferences = upd2 (upd2 (ids_Empty, ids_Empty) bit (u_preference u)) (1 - bit) newChoice;
          b = BinaryNode preferences index (Unary_Extend (u_snow u) bit)
                (u_shouldReset u, u_shouldReset u);
          newChild = UnaryNode newChoice (index + 1) NumBits (Factory_NewUnary factory params)
                       False None
      in if u_decidedPrefix u = u_commonPrefix u - 1 then
           b (upd2 (upd2 (None, None) bit (u_child u)) (1 - bit)
                (if u_child u \<noteq> None then Some newChild else None))
         else if index = u_decidedPrefix u then
           let u = UnaryNode (u_preference u) (u_decidedPrefix u + 1) (u_commonPrefix u) (u_snow u)
                     (u_shouldReset u) (u_child u)
           in b (upd2 (upd2 (None, None) bit (Some u)) (1 - bit) (Some newChild))
         else if index = u_commonPrefix u - 1 then
           let b = b (upd2 (upd2 (None, None) bit (u_child u)) (1 - bit)
                        (if u_child u \<noteq> None then Some newChild else None))
           in UnaryNode (u_preference u) (u_decidedPrefix u) (u_commonPrefix u - 1) (u_snow u)
                (u_shouldReset u) (Some b)
         else
           let originalDecidedPrefix = u_decidedPrefix u;
               u = UnaryNode (u_preference u) (index + 1) (u_commonPrefix u) (u_snow u)
                     (u_shouldReset u) (u_child u);
               b = b (upd2 (upd2 (None, None) bit (Some u)) (1 - bit) (Some newChild))
           in UnaryNode (u_preference u) originalDecidedPrefix index (Unary_Clone (u_snow u))
                False (Some b))"

fun node_Add :: "Factory \<Rightarrow> Parameters \<Rightarrow> node \<Rightarrow> ID \<Rightarrow> node" where
  "node_Add factory params (UnaryNode pref dp cp snow sr child) newChoice =
     (if Unary_Finalized snow then UnaryNode pref dp cp snow sr child
      else case FirstDifferenceSubset dp cp pref newChoice of
        None \<Rightarrow> (case child of
            Some c \<Rightarrow> UnaryNode pref dp cp snow sr (Some (node_Add factory params c newChoice))
          | None \<Rightarrow> UnaryNode pref dp cp snow sr None)
      | Some index \<Rightarrow>
          unaryNode_split factory params (UnaryNode pref dp cp snow sr child) index newChoice)"
| "node_Add factory params (BinaryNode prefs b snow sr children) newChoice =
     (let bit = ID_Bit newChoice b
      in case at2 children bit of
           Some child \<Rightarrow> BinaryNode prefs b snow sr
                           (upd2 children bit (Some (node_Add factory params child newChoice)))
         | None \<Rightarrow> BinaryNode prefs b snow sr children)"

section \<open>Recording a poll\<close>

text \<open>The result is the updated receiver, the returned node and whether the poll was
  successful.\<close>

fun node_RecordPoll :: "Parameters \<Rightarrow> node \<Rightarrow> ID Bag \<Rightarrow> bool \<Rightarrow> node \<times> node \<times> bool" where
  "node_RecordPoll params (UnaryNode pref dp cp snow sr child) votes reset =
     (let snow = (if reset then Unary_RecordUnsuccessfulPoll snow else snow);
          sr = (if reset then True else sr);
          numVotes = Bag_Len votes
      in if numVotes < AlphaPreference params then
           let u = UnaryNode pref dp cp (Unary_RecordUnsuccessfulPoll snow) True child
           in (u, u, False)
         else
           let snow = Unary_RecordPoll snow numVotes
           in case child of
                Some c \<Rightarrow>
                  let (c', newChild, _) = node_RecordPoll params c votes sr
                  in if Unary_Finalized snow
                     then (UnaryNode pref dp cp snow sr (Some c'), newChild, True)
                     else let u = UnaryNode (node_Preference c') dp cp snow False (Some c')
                          in (u, u, True)
              | None \<Rightarrow>
                  let u = UnaryNode pref dp cp snow False None
                  in (u, u, True))"
| "node_RecordPoll params (BinaryNode prefs b snow sr children) votes reset =
     (let splitVotes = Bag_Split (\<lambda>x. ID_Bit x b = 1) votes;
          bit = (if Bag_Len (snd splitVotes) \<ge> AlphaPreference params then 1 else 0);
          snow = (if reset then Binary_RecordUnsuccessfulPoll snow else snow);
          sr = (if reset then upd2 sr bit True else sr);
          sr = upd2 sr (1 - bit) True;
          prunedVotes = at2 splitVotes bit;
          numVotes = Bag_Len prunedVotes
      in if numVotes < AlphaPreference params then
           let n = BinaryNode prefs b (Binary_RecordUnsuccessfulPoll snow) (upd2 sr bit True) children
           in (n, n, False)
         else
           let snow = Binary_RecordPoll snow numVotes bit
           in case at2 children bit of
                Some child \<Rightarrow>
                  let (child', newChild, _) = node_RecordPoll params child prunedVotes (at2 sr bit);
                      children = upd2 children bit (Some child')
                  in if Binary_Finalized snow
                     then (BinaryNode prefs b snow sr children, newChild, True)
                     else let n = BinaryNode (upd2 prefs bit (node_Preference newChild)) b snow
                                    (upd2 sr bit False) children
                          in (n, n, True)
              | None \<Rightarrow>
                  let n = BinaryNode prefs b snow (upd2 sr bit False) children
                  in (n, n, True))"

section \<open>The tree\<close>

record Tree =
  tree_node :: node
  tree_params :: Parameters
  tree_shouldReset :: bool
  tree_factory :: Factory

definition NewTree :: "Factory \<Rightarrow> Parameters \<Rightarrow> ID \<Rightarrow> Tree" where
  "NewTree factory params choice =
     \<lparr>tree_node = UnaryNode choice 0 NumBits (Factory_NewUnary factory params) False None,
      tree_params = params, tree_shouldReset = False, tree_factory = factory\<rparr>"

definition Tree_Preference :: "Tree \<Rightarrow> ID" where
  "Tree_Preference t = node_Preference (tree_node t)"

definition Tree_Finalized :: "Tree \<Rightarrow> bool" where
  "Tree_Finalized t = node_Finalized (tree_node t)"

definition Tree_Add :: "Tree \<Rightarrow> ID \<Rightarrow> Tree" where
  "Tree_Add t choice =
     (let prefix = node_DecidedPrefix (tree_node t)
      in if EqualSubset 0 prefix (Tree_Preference t) choice
         then t\<lparr>tree_node := node_Add (tree_factory t) (tree_params t) (tree_node t) choice\<rparr>
         else t)"

definition Tree_RecordPoll :: "Tree \<Rightarrow> ID Bag \<Rightarrow> Tree \<times> bool" where
  "Tree_RecordPoll t votes =
     (let decidedPrefix = node_DecidedPrefix (tree_node t);
          preference = Tree_Preference t;
          filteredVotes = Bag_Filter (\<lambda>x. EqualSubset 0 decidedPrefix preference x) votes;
          (_, n, successful) =
            node_RecordPoll (tree_params t) (tree_node t) filteredVotes (tree_shouldReset t)
      in (t\<lparr>tree_node := n, tree_shouldReset := False\<rparr>, successful))"

definition Tree_RecordUnsuccessfulPoll :: "Tree \<Rightarrow> Tree" where
  "Tree_RecordUnsuccessfulPoll t = t\<lparr>tree_shouldReset := True\<rparr>"

end
