(* ===== verification/Snow_Instance_Facts.thy ===== *)
theory Snow_Instance_Facts
  imports Snow_Instances
begin

text \<open>
  Correctness of the decision instances.  The locale \<open>snowflake\<close> states what the
  multi-choice snowflake code promises about its preference, its confidence counters and its
  finality; the four multi-choice instances interpret it, and the theorem that an instance finalizes
  exactly on a long enough streak of polls is proved once inside it.  The locales
  \<open>unary_instance\<close> and \<open>binary_instance\<close> are the contracts the snow tree relies on.
\<close>

lemmas snow_record_defs =
  binarySlush.defs binarySnowflake.defs binarySnowball.defs
  nnarySlush.defs nnarySnowflake.defs nnarySnowball.defs
  unarySnowflake.defs unarySnowball.defs

lemmas snow_new_defs =
  newBinarySlush_def newBinarySnowflake_def newBinarySnowball_def
  newNnarySlush_def newNnarySnowflake_def newNnarySnowball_def
  newUnarySnowflake_def newUnarySnowball_def newSingleTerminationCondition_def

section \<open>The confidence loop\<close>

text \<open>The invariant the struct comments state of the termination conditions, together with
  the relation to \<open>alphaPreference\<close> that \<open>Verify\<close> enforces.\<close>

definition tcs_ok :: "int \<Rightarrow> terminationCondition list \<Rightarrow> bool" where
  "tcs_ok alphaPreference tcs \<longleftrightarrow>
     sorted_wrt (\<lambda>a b. tc_alphaConfidence a < tc_alphaConfidence b \<and> tc_beta a \<ge> tc_beta b) tcs \<and>
     (\<forall>tc \<in> set tcs. alphaPreference \<le> tc_alphaConfidence tc \<and> 0 < tc_beta tc)"

lemma tcs_ok_Cons: "tcs_ok a (tc # tcs) \<Longrightarrow> tcs_ok a tcs"
  by (simp add: tcs_ok_def)

lemma length_confidence_loop:
  "length cs = length tcs \<Longrightarrow> length (fst (confidence_loop n tcs cs)) = length tcs"
  by (induction n tcs cs rule: confidence_loop.induct) (auto split: prod.splits)

lemma length_confidence_loop_eq:
  "confidence_loop n tcs cs = (cs', f) \<Longrightarrow> length cs = length tcs \<Longrightarrow> length cs' = length tcs"
  using length_confidence_loop [of cs tcs n] by simp

text \<open>Without finalizing, the loop increments the counters whose threshold is reached and
  clears the others; it finalizes iff a reached counter is incremented to its \<open>beta\<close>.\<close>

lemma confidence_loop_cleared:
  assumes "tcs_ok a (tc # tcs)" "n < tc_alphaConfidence tc" "i < Suc (length tcs)"
  shows "n < tc_alphaConfidence ((tc # tcs) ! i)"
  using assms by (cases i) (auto simp: tcs_ok_def intro: less_trans)

lemma confidence_loop_spec:
  assumes "tcs_ok a tcs" "length cs = length tcs" "confidence_loop n tcs cs = (cs', f)"
  shows "(f \<longleftrightarrow> (\<exists>i < length tcs. tc_alphaConfidence (tcs ! i) \<le> n \<and> tc_beta (tcs ! i) \<le> cs ! i + 1)) \<and>
    (\<not> f \<longrightarrow> (\<forall>i < length tcs. cs' ! i = (if tc_alphaConfidence (tcs ! i) \<le> n then cs ! i + 1 else 0)))"
  using assms
proof (induction n tcs cs arbitrary: cs' f rule: confidence_loop.induct)
  case (2 n tc tcs c cs)
  show ?case
  proof (cases "n < tc_alphaConfidence tc")
    case True
    with 2 have res: "cs' = replicate (length (c # cs)) 0" "\<not> f" by auto
    from confidence_loop_cleared [OF "2.prems"(1) True]
    have low: "\<not> tc_alphaConfidence ((tc # tcs) ! i) \<le> n" if "i < length (tc # tcs)" for i
      using that by (simp add: not_le)
    have zero: "cs' ! i = 0" if "i < length (tc # tcs)" for i
      using that "2.prems"(2) by (simp only: res nth_replicate)
    show ?thesis using res(2) low zero by metis
  next
    case ge: False
    show ?thesis
    proof (cases "c + 1 \<ge> tc_beta tc")
      case True
      with ge 2 have "f" by auto
      moreover have "\<exists>i < length (tc # tcs). tc_alphaConfidence ((tc # tcs) ! i) \<le> n \<and>
          tc_beta ((tc # tcs) ! i) \<le> (c # cs) ! i + 1"
        using ge True by (intro exI [of _ 0]) auto
      ultimately show ?thesis by blast
    next
      case False
      obtain cs1 where l: "confidence_loop n tcs cs = (cs1, f)" and cs': "cs' = (c + 1) # cs1"
        using ge False "2.prems"(3) by (auto split: prod.splits)
      have IH: "(f \<longleftrightarrow> (\<exists>i < length tcs. tc_alphaConfidence (tcs ! i) \<le> n \<and> tc_beta (tcs ! i) \<le> cs ! i + 1)) \<and>
        (\<not> f \<longrightarrow> (\<forall>i < length tcs. cs1 ! i = (if tc_alphaConfidence (tcs ! i) \<le> n then cs ! i + 1 else 0)))"
        using "2.IH" [OF ge False tcs_ok_Cons [OF "2.prems"(1)] _ l] "2.prems"(2) by simp
      have ex: "(\<exists>i < Suc m. P i) \<longleftrightarrow> P 0 \<or> (\<exists>i < m. P (Suc i))" for m P
        by (metis Suc_less_eq gr0_conv_Suc less_Suc_eq_0_disj zero_less_Suc)
      have all: "(\<forall>i < Suc m. P i) \<longleftrightarrow> P 0 \<and> (\<forall>i < m. P (Suc i))" for m P
        by (metis Suc_less_eq gr0_conv_Suc less_Suc_eq_0_disj zero_less_Suc)
      show ?thesis using IH ge False cs' by (simp add: ex all)
    qed
  qed
qed auto

section \<open>Streaks of polls\<close>

text \<open>
  A history lists the calls made on an instance, most recent first.  A call supports a choice
  for a termination condition if it is a poll for that choice that reaches the condition's
  threshold; a streak is the number of most recent calls that support the choice.
\<close>

datatype 'c poll_event = Poll int 'c | Failed

fun history_run :: "('s \<Rightarrow> int \<Rightarrow> 'c \<Rightarrow> 's) \<Rightarrow> ('s \<Rightarrow> 's) \<Rightarrow> 'c poll_event list \<Rightarrow> 's \<Rightarrow> 's" where
  "history_run poll fail [] s = s"
| "history_run poll fail (Poll n c # h) s = poll (history_run poll fail h s) n c"
| "history_run poll fail (Failed # h) s = fail (history_run poll fail h s)"

fun supports :: "terminationCondition \<Rightarrow> 'c \<Rightarrow> 'c poll_event \<Rightarrow> bool" where
  "supports tc c (Poll n c') \<longleftrightarrow> tc_alphaConfidence tc \<le> n \<and> c' = c"
| "supports tc c Failed \<longleftrightarrow> False"

definition streak :: "terminationCondition \<Rightarrow> 'c \<Rightarrow> 'c poll_event list \<Rightarrow> int" where
  "streak tc c h = int (length (takeWhile (supports tc c) h))"

lemma streak_simps [simp]:
  "streak tc c [] = 0"
  "streak tc c (e # h) = (if supports tc c e then streak tc c h + 1 else 0)"
  by (simp_all add: streak_def)

lemma streak_nonneg [simp]: "0 \<le> streak tc c h"
  by (simp add: streak_def)

text \<open>Some recent suffix of the history (an earlier moment) was a full streak for \<open>c\<close>.\<close>

definition full_streak :: "terminationCondition list \<Rightarrow> 'c \<Rightarrow> 'c poll_event list \<Rightarrow> bool" where
  "full_streak tcs c h \<longleftrightarrow> (\<exists>recent old tc. h = recent @ old \<and> tc \<in> set tcs \<and> tc_beta tc \<le> streak tc c old)"

lemma full_streak_Cons:
  "full_streak tcs c (e # h) \<longleftrightarrow>
    (\<exists>tc \<in> set tcs. tc_beta tc \<le> streak tc c (e # h)) \<or> full_streak tcs c h"
  unfolding full_streak_def by (auto simp: Cons_eq_append_conv simp del: streak_simps)

lemma full_streak_Nil: "tcs_ok a tcs \<Longrightarrow> \<not> full_streak tcs c []"
  by (auto simp: full_streak_def tcs_ok_def)

lemma tcs_ok_beta: "tcs_ok a tcs \<Longrightarrow> tc \<in> set tcs \<Longrightarrow> 0 < tc_beta tc"
  by (simp add: tcs_ok_def)

lemma tcs_ok_alpha: "tcs_ok a tcs \<Longrightarrow> tc \<in> set tcs \<Longrightarrow> a \<le> tc_alphaConfidence tc"
  by (simp add: tcs_ok_def)

lemma full_streak_unsupported:
  assumes "tcs_ok a tcs" "\<And>tc. tc \<in> set tcs \<Longrightarrow> \<not> supports tc c e"
  shows "full_streak tcs c (e # h) \<longleftrightarrow> full_streak tcs c h"
proof -
  have "\<not> tc_beta tc \<le> streak tc c (e # h)" if "tc \<in> set tcs" for tc
    using assms(2) [OF that] tcs_ok_beta [OF assms(1) that] by simp
  then show ?thesis unfolding full_streak_Cons by blast
qed

section \<open>The contract of a multi-choice snowflake\<close>

locale snowflake =
  fixes alphaP :: "'s \<Rightarrow> int"
    and conds :: "'s \<Rightarrow> terminationCondition list"
    and pref :: "'s \<Rightarrow> 'c"
    and conf :: "'s \<Rightarrow> int list"
    and fin :: "'s \<Rightarrow> bool"
    and poll :: "'s \<Rightarrow> int \<Rightarrow> 'c \<Rightarrow> 's"
    and fail :: "'s \<Rightarrow> 's"
  assumes alphaP_poll: "alphaP (poll s n c) = alphaP s"
    and conds_poll: "conds (poll s n c) = conds s"
    and alphaP_fail: "alphaP (fail s) = alphaP s"
    and conds_fail: "conds (fail s) = conds s"
    and pref_fail: "pref (fail s) = pref s"
    and fin_fail: "fin (fail s) = fin s"
    and conf_fail: "conf (fail s) = replicate (length (conf s)) 0"
    and poll_fin: "fin s \<Longrightarrow> length (conf s) = length (conds s) \<Longrightarrow> pref (poll s n c) = pref s \<and>
      length (conf (poll s n c)) = length (conf s) \<and> fin (poll s n c)"
    and poll_low: "\<not> fin s \<Longrightarrow> length (conf s) = length (conds s) \<Longrightarrow>
      tcs_ok (alphaP s) (conds s) \<Longrightarrow> n < alphaP s \<Longrightarrow> pref (poll s n c) = pref s \<and>
      conf (poll s n c) = replicate (length (conf s)) 0 \<and> \<not> fin (poll s n c)"
    and poll_ok: "\<not> fin s \<Longrightarrow> alphaP s \<le> n \<Longrightarrow> pref (poll s n c) = c \<and>
      (conf (poll s n c), fin (poll s n c)) =
        confidence_loop n (conds s) (if c \<noteq> pref s then replicate (length (conf s)) 0 else conf s)"
begin

abbreviation run :: "'c poll_event list \<Rightarrow> 's \<Rightarrow> 's" where
  "run \<equiv> history_run poll fail"

lemma run_const: "alphaP (run h s) = alphaP s" "conds (run h s) = conds s"
proof (induction h)
  case (Cons e h)
  { case 1 from Cons show ?case by (cases e) (simp_all add: alphaP_poll alphaP_fail) }
  { case 2 from Cons show ?case by (cases e) (simp_all add: conds_poll conds_fail) }
qed simp_all

text \<open>Finality is irrevocable, and so is the finalized preference.\<close>

lemma final_stable:
  assumes "fin s" "length (conf s) = length (conds s)"
  shows "fin (run h s) \<and> pref (run h s) = pref s \<and> length (conf (run h s)) = length (conds s)"
proof (induction h)
  case (Cons e h)
  then show ?case by (cases e) (auto simp: fin_fail pref_fail conf_fail poll_fin run_const)
qed (use assms in simp)

text \<open>Before finality a counter is the current streak for the preference, and no other choice
  has a streak.\<close>

definition tracks :: "'s \<Rightarrow> 'c poll_event list \<Rightarrow> bool" where
  "tracks s h \<longleftrightarrow> length (conf s) = length (conds s) \<and>
     (\<not> fin s \<longrightarrow>
        (\<forall>i < length (conds s). conf s ! i = streak (conds s ! i) (pref s) h) \<and>
        (\<forall>c tc. c \<noteq> pref s \<longrightarrow> tc \<in> set (conds s) \<longrightarrow> streak tc c h = 0) \<and>
        (\<forall>c. \<not> full_streak (conds s) c h)) \<and>
     (fin s \<longrightarrow> full_streak (conds s) (pref s) h)"

lemma tracks_not_supported:
  assumes T: "tracks s h" and F: "\<not> fin s" and ok: "tcs_ok (alphaP s) (conds s)"
    and none: "\<And>tc c. tc \<in> set (conds s) \<Longrightarrow> \<not> supports tc c e"
    and s': "pref s' = pref s" "conf s' = replicate (length (conf s)) 0" "\<not> fin s'" "conds s' = conds s"
  shows "tracks s' (e # h)"
  unfolding tracks_def s'
proof (intro conjI impI allI)
  show "\<not> full_streak (conds s) c (e # h)" for c
    using T F full_streak_unsupported [OF ok none] by (simp add: tracks_def)
  show "replicate (length (conf s)) 0 ! i = streak (conds s ! i) (pref s) (e # h)"
    if "i < length (conds s)" for i
    using T none [OF nth_mem [OF that]] that by (simp add: tracks_def)
qed (use T none s' in \<open>simp_all add: tracks_def\<close>)

lemma tracks_poll_ok:
  assumes T: "tracks s h" and F: "\<not> fin s" and ok: "tcs_ok (alphaP s) (conds s)" and n: "alphaP s \<le> n"
  shows "tracks (poll s n c) (Poll n c # h)"
proof -
  let ?cs = "if c \<noteq> pref s then replicate (length (conf s)) 0 else conf s"
  note p = poll_ok [OF F n, of c]
  have len: "length ?cs = length (conds s)" using T by (simp add: tracks_def)
  have cs: "?cs ! i = streak (conds s ! i) c h" if "i < length (conds s)" for i
    using T F that nth_mem [OF that] by (simp add: tracks_def)
  from p have pref': "pref (poll s n c) = c"
    and loop: "confidence_loop n (conds s) ?cs = (conf (poll s n c), fin (poll s n c))" by simp_all
  note spec = confidence_loop_spec [OF ok len loop]
  have len': "length (conf (poll s n c)) = length (conds s)"
    using length_confidence_loop [OF len, of n] loop by simp
  have full: "(\<exists>tc \<in> set (conds s). tc_beta tc \<le> streak tc c (Poll n c # h)) \<longleftrightarrow> fin (poll s n c)"
  proof
    assume "\<exists>tc \<in> set (conds s). tc_beta tc \<le> streak tc c (Poll n c # h)"
    then obtain i where i: "i < length (conds s)"
      "tc_beta (conds s ! i) \<le> streak (conds s ! i) c (Poll n c # h)"
      by (metis in_set_conv_nth)
    moreover have "0 < tc_beta (conds s ! i)" using tcs_ok_beta [OF ok] i by simp
    ultimately have "tc_alphaConfidence (conds s ! i) \<le> n \<and> tc_beta (conds s ! i) \<le> ?cs ! i + 1"
      unfolding cs [OF i(1)] by (simp split: if_splits)
    with spec i(1) show "fin (poll s n c)" by blast
  next
    assume "fin (poll s n c)"
    with spec obtain i where i: "i < length (conds s)" "tc_alphaConfidence (conds s ! i) \<le> n"
      "tc_beta (conds s ! i) \<le> ?cs ! i + 1" by blast
    then have "tc_beta (conds s ! i) \<le> streak (conds s ! i) c (Poll n c # h)"
      unfolding cs [OF i(1)] by simp
    with i(1) show "\<exists>tc \<in> set (conds s). tc_beta tc \<le> streak tc c (Poll n c # h)"
      using nth_mem by blast
  qed
  have other: "\<not> full_streak (conds s) c' (Poll n c # h)" if "c' \<noteq> c" for c'
    using T F that full_streak_unsupported [OF ok, of c' "Poll n c" h] by (simp add: tracks_def)
  have "\<not> full_streak (conds s) c h" using T F by (simp add: tracks_def)
  with full have fs: "full_streak (conds s) c (Poll n c # h) \<longleftrightarrow> fin (poll s n c)"
    by (simp add: full_streak_Cons del: streak_simps)
  show ?thesis
    unfolding tracks_def conds_poll pref'
  proof (intro conjI impI allI)
    show "conf (poll s n c) ! i = streak (conds s ! i) c (Poll n c # h)"
      if "\<not> fin (poll s n c)" "i < length (conds s)" for i
      using spec that cs [OF that(2)] by simp
    show "\<not> full_streak (conds s) c' (Poll n c # h)" if "\<not> fin (poll s n c)" for c'
      using other [of c'] fs that by (cases "c' = c") simp_all
    show "length (conf (poll s n c)) = length (conds s)" by (rule len')
    show "streak tc c' (Poll n c # h) = 0" if "c' \<noteq> c" for c' tc using that by simp
    show "full_streak (conds s) c (Poll n c # h)" if "fin (poll s n c)" using fs that by simp
  qed
qed

lemma tracks_run:
  assumes "tracks s []" "\<not> fin s" "tcs_ok (alphaP s) (conds s)"
  shows "tracks (run h s) h"
proof (induction h)
  case (Cons e h)
  let ?s = "run h s"
  have ok: "tcs_ok (alphaP ?s) (conds ?s)" using assms(3) by (simp add: run_const)
  have low: "\<not> supports tc c (Poll n c')" if "n < alphaP ?s" "tc \<in> set (conds ?s)" for n tc and c c' :: 'c
    using that tcs_ok_alpha [OF ok that(2)] by simp
  show ?case
  proof (cases "fin ?s")
    case True
    moreover have "length (conf ?s) = length (conds ?s)" using Cons by (simp add: tracks_def)
    ultimately have "fin (run (e # h) s) \<and> pref (run (e # h) s) = pref ?s \<and>
        length (conf (run (e # h) s)) = length (conf ?s) \<and> conds (run (e # h) s) = conds ?s"
      by (cases e) (auto simp: fin_fail pref_fail conf_fail poll_fin conds_poll conds_fail)
    with True Cons show ?thesis by (simp add: tracks_def full_streak_Cons del: streak_simps)
  next
    case False
    show ?thesis
    proof (cases e)
      case Failed
      with tracks_not_supported [OF Cons False ok, of Failed "fail ?s"] False show ?thesis
        by (simp add: pref_fail conf_fail fin_fail conds_fail)
    next
      case (Poll n c)
      show ?thesis
      proof (cases "n < alphaP ?s")
        case True
        with tracks_not_supported [OF Cons False ok, of "Poll n c" "poll ?s n c"] poll_low [OF False _ ok True, of c] low
          Cons
        show ?thesis using Poll by (simp add: conds_poll tracks_def)
      next
        case ge: False
        then show ?thesis using tracks_poll_ok [OF Cons False ok, of n c] Poll by simp
      qed
    qed
  qed
qed (use assms in simp)

text \<open>Started fresh, an instance finalizes exactly on a full streak, and on its choice.\<close>

lemma finalizes_iff_streak:
  assumes "conf s = replicate (length (conds s)) 0" "\<not> fin s" "tcs_ok (alphaP s) (conds s)"
  shows "fin (run h s) \<longleftrightarrow> (\<exists>c. full_streak (conds s) c h)"
    and "fin (run h s) \<Longrightarrow> full_streak (conds s) (pref (run h s)) h"
proof -
  have "\<not> full_streak (conds s) c []" for c :: 'c by (rule full_streak_Nil [OF assms(3)])
  then have "tracks s []" using assms by (auto simp: tracks_def)
  from tracks_run [OF this assms(2,3), of h]
  show "fin (run h s) \<longleftrightarrow> (\<exists>c. full_streak (conds s) c h)"
    and "fin (run h s) \<Longrightarrow> full_streak (conds s) (pref (run h s)) h"
    by (auto simp: tracks_def run_const)
qed

end

text \<open>The six instances satisfy the contract.\<close>

lemmas binary_poll_defs =
  binarySnowball_RecordPoll_def binarySnowflake_RecordPoll_def
  binarySnowflake_RecordUnsuccessfulPoll_def binarySlush_Preference_def
  binarySlush_RecordSuccessfulPoll_def go_clear_def Let_def

lemmas nnary_poll_defs =
  nnarySnowball_RecordPoll_def nnarySnowflake_RecordPoll_def
  nnarySnowflake_RecordUnsuccessfulPoll_def nnarySlush_Preference_def
  nnarySlush_RecordSuccessfulPoll_def go_clear_def Let_def

lemmas unary_poll_defs =
  unarySnowball_RecordPoll_def unarySnowflake_RecordPoll_def
  unarySnowflake_RecordUnsuccessfulPoll_def go_clear_def

interpretation bsf: snowflake bsf_alphaPreference bsf_terminationConditions binarySlush_Preference
  bsf_confidence binarySnowflake_Finalized binarySnowflake_RecordPoll
  "binarySnowflake_RecordUnsuccessfulPoll :: binarySnowflake \<Rightarrow> binarySnowflake"
  by unfold_locales (auto simp: binary_poll_defs binarySnowflake_Finalized_def split: prod.splits)

interpretation bsb: snowflake bsf_alphaPreference bsf_terminationConditions binarySlush_Preference
  bsf_confidence binarySnowflake_Finalized binarySnowball_RecordPoll
  "binarySnowflake_RecordUnsuccessfulPoll :: binarySnowball \<Rightarrow> binarySnowball"
  by unfold_locales (auto simp: binary_poll_defs binarySnowflake_Finalized_def split: prod.splits)

interpretation nsf: snowflake nsf_alphaPreference nsf_terminationConditions nnarySlush_Preference
  nsf_confidence nnarySnowflake_Finalized nnarySnowflake_RecordPoll
  "nnarySnowflake_RecordUnsuccessfulPoll :: nnarySnowflake \<Rightarrow> nnarySnowflake"
  by unfold_locales (auto simp: nnary_poll_defs nnarySnowflake_Finalized_def split: prod.splits)

interpretation nsb: snowflake nsf_alphaPreference nsf_terminationConditions nnarySlush_Preference
  nsf_confidence nnarySnowflake_Finalized nnarySnowball_RecordPoll
  "nnarySnowflake_RecordUnsuccessfulPoll :: nnarySnowball \<Rightarrow> nnarySnowball"
  by unfold_locales (auto simp: nnary_poll_defs nnarySnowflake_Finalized_def split: prod.splits)

lemma confidence_loop_low:
  "tcs_ok a tcs \<Longrightarrow> length cs = length tcs \<Longrightarrow> n < a \<Longrightarrow>
    confidence_loop n tcs cs = (replicate (length cs) 0, False)"
  by (cases tcs; cases cs) (auto simp: tcs_ok_def)

interpretation usf: snowflake usf_alphaPreference usf_terminationConditions "\<lambda>_. ()"
  usf_confidence unarySnowflake_Finalized "\<lambda>s n _. unarySnowflake_RecordPoll s n"
  "unarySnowflake_RecordUnsuccessfulPoll :: unarySnowflake \<Rightarrow> unarySnowflake"
  by unfold_locales
    (auto simp: unary_poll_defs unarySnowflake_Finalized_def confidence_loop_low
      split: prod.splits dest: length_confidence_loop_eq)

interpretation usb: snowflake usf_alphaPreference usf_terminationConditions "\<lambda>_. ()"
  usf_confidence unarySnowflake_Finalized "\<lambda>s n _. unarySnowball_RecordPoll s n"
  "unarySnowflake_RecordUnsuccessfulPoll :: unarySnowball \<Rightarrow> unarySnowball"
  by unfold_locales
    (auto simp: unary_poll_defs unarySnowflake_Finalized_def confidence_loop_low Let_def
      split: prod.splits dest: length_confidence_loop_eq)

section \<open>Finality of the instances\<close>

definition binary_history :: "nat poll_event list \<Rightarrow> bool" where
  "binary_history h \<longleftrightarrow> list_all (\<lambda>e. case e of Poll n c \<Rightarrow> c < 2 | Failed \<Rightarrow> True) h"

lemma snowball_finalized_Preference:
  "binarySnowflake_Finalized b \<Longrightarrow> binarySnowball_Preference b = binarySlush_Preference b"
  "nnarySnowflake_Finalized s \<Longrightarrow> nnarySnowball_Preference s = nnarySlush_Preference s"
  by (simp_all add: binarySnowball_Preference_def nnarySnowball_Preference_def)

text \<open>
  C20. A multi-choice instance finalizes exactly on a full streak: after any history of
  polls and failed polls on a new instance, the instance is finalized iff at some moment the
  \<open>beta\<close> most recent calls were all polls for the same choice with at least
  \<open>alphaConfidence\<close> votes, for one of the termination conditions; and the finalized
  preference is a choice with such a streak.  This holds for snowflake and for snowball, whose
  reported preference switches to the snowflake choice on finality.
\<close>

theorem nnary_finalizes_iff_streak:
  fixes h :: "ID poll_event list" and h2 :: "nat poll_event list"
  assumes "tcs_ok alphaPreference tcs" "binary_history h2"
  shows "(let s = history_run nnarySnowflake_RecordPoll nnarySnowflake_RecordUnsuccessfulPoll h
            (newNnarySnowflake alphaPreference tcs c)
      in (nnarySnowflake_Finalized s \<longleftrightarrow> (\<exists>c. full_streak tcs c h)) \<and>
         (nnarySnowflake_Finalized s \<longrightarrow> full_streak tcs (nnarySlush_Preference s) h)) \<and>
    (let s = history_run nnarySnowball_RecordPoll nnarySnowflake_RecordUnsuccessfulPoll h
            (newNnarySnowball alphaPreference tcs c)
      in (nnarySnowflake_Finalized s \<longleftrightarrow> (\<exists>c. full_streak tcs c h)) \<and>
         (nnarySnowflake_Finalized s \<longrightarrow> full_streak tcs (nnarySnowball_Preference s) h)) \<and>
    (let s = history_run binarySnowflake_RecordPoll binarySnowflake_RecordUnsuccessfulPoll h2
            (newBinarySnowflake alphaPreference tcs c2)
      in (binarySnowflake_Finalized s \<longleftrightarrow> (\<exists>c. full_streak tcs c h2)) \<and>
         (binarySnowflake_Finalized s \<longrightarrow> full_streak tcs (binarySlush_Preference s) h2)) \<and>
    (let s = history_run binarySnowball_RecordPoll binarySnowflake_RecordUnsuccessfulPoll h2
            (newBinarySnowball alphaPreference tcs c2)
      in (binarySnowflake_Finalized s \<longleftrightarrow> (\<exists>c. full_streak tcs c h2)) \<and>
         (binarySnowflake_Finalized s \<longrightarrow> full_streak tcs (binarySnowball_Preference s) h2))"
proof -
  let ?a = "newNnarySnowflake alphaPreference tcs c"
  let ?b = "newNnarySnowball alphaPreference tcs c"
  let ?c = "newBinarySnowflake alphaPreference tcs c2"
  let ?d = "newBinarySnowball alphaPreference tcs c2"
  note defs = snow_new_defs snow_record_defs nnarySnowflake_Finalized_def binarySnowflake_Finalized_def
  have a: "nsf_confidence ?a = replicate (length (nsf_terminationConditions ?a)) 0"
    "\<not> nnarySnowflake_Finalized ?a" "tcs_ok (nsf_alphaPreference ?a) (nsf_terminationConditions ?a)"
    "nsf_terminationConditions ?a = tcs" using assms by (simp_all add: defs)
  have b: "nsf_confidence ?b = replicate (length (nsf_terminationConditions ?b)) 0"
    "\<not> nnarySnowflake_Finalized ?b" "tcs_ok (nsf_alphaPreference ?b) (nsf_terminationConditions ?b)"
    "nsf_terminationConditions ?b = tcs" using assms by (simp_all add: defs)
  have c: "bsf_confidence ?c = replicate (length (bsf_terminationConditions ?c)) 0"
    "\<not> binarySnowflake_Finalized ?c" "tcs_ok (bsf_alphaPreference ?c) (bsf_terminationConditions ?c)"
    "bsf_terminationConditions ?c = tcs" using assms by (simp_all add: defs)
  have d: "bsf_confidence ?d = replicate (length (bsf_terminationConditions ?d)) 0"
    "\<not> binarySnowflake_Finalized ?d" "tcs_ok (bsf_alphaPreference ?d) (bsf_terminationConditions ?d)"
    "bsf_terminationConditions ?d = tcs" using assms by (simp_all add: defs)
  show ?thesis
    using nsf.finalizes_iff_streak [OF a(1-3), of h] nsb.finalizes_iff_streak [OF b(1-3), of h]
      bsf.finalizes_iff_streak [OF c(1-3), of h2] bsb.finalizes_iff_streak [OF d(1-3), of h2]
    by (simp add: Let_def snowball_finalized_Preference a(4) b(4) c(4) d(4))
qed

theorem nnary_finalizes_iff_streak_witness:
  "let tcs = newSingleTerminationCondition 4 2;
       s = history_run nnarySnowball_RecordPoll nnarySnowflake_RecordUnsuccessfulPoll
             [Failed, Poll 4 7, Poll 5 7, Poll 3 9] (newNnarySnowball 3 tcs 9)
   in nnarySnowflake_Finalized s \<and> full_streak tcs (nnarySnowball_Preference s)
         [Failed, Poll 4 7, Poll 5 7, Poll 3 9]"
proof -
  let ?tcs = "newSingleTerminationCondition 4 2"
  let ?h = "[Failed, Poll 4 7, Poll 5 7, Poll 3 9] :: ID poll_event list"
  have ok: "tcs_ok 3 ?tcs" by (simp add: tcs_ok_def newSingleTerminationCondition_def)
  have "binary_history [Poll 4 1]" by (simp add: binary_history_def)
  moreover have "\<exists>c. full_streak ?tcs c ?h"
    by (rule exI [of _ 7]) (simp add: full_streak_Cons newSingleTerminationCondition_def)
  ultimately show ?thesis using nnary_finalizes_iff_streak [OF ok, of "[Poll 4 1]" ?h 9 0]
    by (simp only: Let_def)
qed

section \<open>The snowball preference is a plurality\<close>

text \<open>The polls of a history that preferred a choice: those with at least
  \<open>alphaPreference\<close> votes for it.\<close>

fun polls_for :: "int \<Rightarrow> 'c \<Rightarrow> 'c poll_event list \<Rightarrow> int" where
  "polls_for a c [] = 0"
| "polls_for a c (Poll n c' # h) = polls_for a c h + (if a \<le> n \<and> c' = c then 1 else 0)"
| "polls_for a c (Failed # h) = polls_for a c h"

lemma polls_for_nonneg [simp]: "0 \<le> polls_for a c h"
  by (induction a c h rule: polls_for.induct) auto

definition nnary_plurality :: "int \<Rightarrow> nnarySnowball \<Rightarrow> ID poll_event list \<Rightarrow> bool" where
  "nnary_plurality a s h \<longleftrightarrow> nsf_alphaPreference s = a \<and>
     (\<forall>c. strength_of (nsb_preferenceStrength s) c = polls_for a c h) \<and>
     nsb_maxPreferenceStrength s = polls_for a (nsb_preference s) h \<and>
     (\<forall>c. polls_for a c h \<le> polls_for a (nsb_preference s) h)"

lemma nnarySnowflake_RecordPoll_frame [simp]:
  fixes s :: nnarySnowball
  shows "nsb_preference (nnarySnowflake_RecordPoll s n c) = nsb_preference s"
    "nsb_maxPreferenceStrength (nnarySnowflake_RecordPoll s n c) = nsb_maxPreferenceStrength s"
    "nsb_preferenceStrength (nnarySnowflake_RecordPoll s n c) = nsb_preferenceStrength s"
    "nsf_alphaPreference (nnarySnowflake_RecordPoll s n c) = nsf_alphaPreference s"
  by (simp_all add: nnary_poll_defs split: prod.splits)

lemma nnary_plurality_poll:
  assumes "nnary_plurality a s h"
  shows "nnary_plurality a (nnarySnowball_RecordPoll s n c) (Poll n c # h)"
proof -
  let ?s = "nnarySnowball_RecordPoll s n c"
  have st: "strength_of (nsb_preferenceStrength s) c' = polls_for a c' h"
    and mx: "nsb_maxPreferenceStrength s = polls_for a (nsb_preference s) h"
    and le: "polls_for a c' h \<le> polls_for a (nsb_preference s) h"
    and al: "nsf_alphaPreference s = a" for c'
    using assms by (simp_all add: nnary_plurality_def)
  show ?thesis
  proof (cases "a \<le> n")
    case True
    have upd: "strength_of ((nsb_preferenceStrength s)(c \<mapsto> v)) c' = (if c' = c then v else polls_for a c' h)" for v c'
      using st [of c'] by (simp add: strength_of_def)
    show ?thesis
    proof (cases "polls_for a (nsb_preference s) h < polls_for a c h + 1")
      case gt: True
      have "polls_for a c' h \<le> polls_for a c h + 1" for c' using le [of c'] gt by simp
      with True gt show ?thesis
        by (simp add: nnary_plurality_def nnarySnowball_RecordPoll_def Let_def al mx st upd)
    next
      case False
      then have ne: "nsb_preference s \<noteq> c" by auto
      with True False le show ?thesis
        by (simp add: nnary_plurality_def nnarySnowball_RecordPoll_def Let_def al mx st upd)
    qed
  next
    case False
    with assms show ?thesis
      by (simp add: nnary_plurality_def nnarySnowball_RecordPoll_def al)
  qed
qed

lemma nnary_plurality_fail:
  "nnary_plurality a s h \<Longrightarrow> nnary_plurality a (nnarySnowflake_RecordUnsuccessfulPoll s) (Failed # h)"
  by (simp add: nnary_plurality_def nnarySnowflake_RecordUnsuccessfulPoll_def)

lemma nnary_plurality_run:
  "nnary_plurality a (history_run nnarySnowball_RecordPoll nnarySnowflake_RecordUnsuccessfulPoll h
     (newNnarySnowball a tcs c)) h"
proof (induction h)
  case Nil
  show ?case by (simp add: nnary_plurality_def snow_new_defs snow_record_defs strength_of_def)
next
  case (Cons e h)
  then show ?case
    by (cases e) (simp_all add: nnary_plurality_poll nnary_plurality_fail)
qed

definition binary_plurality :: "int \<Rightarrow> binarySnowball \<Rightarrow> nat poll_event list \<Rightarrow> bool" where
  "binary_plurality a s h \<longleftrightarrow> bsf_alphaPreference s = a \<and> bsb_preference s < 2 \<and>
     (\<forall>c < 2. at2 (bsb_preferenceStrength s) c = polls_for a c h) \<and>
     polls_for a (1 - bsb_preference s) h \<le> polls_for a (bsb_preference s) h"

lemma binarySnowflake_RecordPoll_frame [simp]:
  fixes s :: binarySnowball
  shows "bsb_preference (binarySnowflake_RecordPoll s n c) = bsb_preference s"
    "bsb_preferenceStrength (binarySnowflake_RecordPoll s n c) = bsb_preferenceStrength s"
    "bsf_alphaPreference (binarySnowflake_RecordPoll s n c) = bsf_alphaPreference s"
  by (simp_all add: binary_poll_defs split: prod.splits)

lemma binary_plurality_poll:
  assumes P: "binary_plurality a s h" and c: "c < 2"
  shows "binary_plurality a (binarySnowball_RecordPoll s n c) (Poll n c # h)"
proof -
  have st: "at2 (bsb_preferenceStrength s) c' = polls_for a c' h" if "c' < 2" for c'
    using P that by (simp add: binary_plurality_def)
  have le: "polls_for a (1 - bsb_preference s) h \<le> polls_for a (bsb_preference s) h"
    and al: "bsf_alphaPreference s = a" and p: "bsb_preference s < 2"
    using P by (simp_all add: binary_plurality_def)
  note flip = bit_flip [OF c]
  show ?thesis
  proof (cases "a \<le> n")
    case True
    have upd: "at2 (upd2 (bsb_preferenceStrength s) c (polls_for a c h + 1)) c' =
        polls_for a c' (Poll n c # h)" if "c' < 2" for c'
      using that c True st [OF that] by (cases "c' = c") simp_all
    show ?thesis
    proof (cases "polls_for a (1 - c) h < polls_for a c h + 1")
      case gt: True
      with True c flip show ?thesis
        by (simp add: binary_plurality_def binarySnowball_RecordPoll_def Let_def al st upd del: polls_for.simps(2))
          (simp split: if_splits)
    next
      case False
      have ne: "bsb_preference s \<noteq> c" using False le by auto
      have other: "1 - c = bsb_preference s" "1 - bsb_preference s = c"
        using bit_flip(3) [OF c p] bit_flip(3) [OF p c] ne by simp_all
      have "polls_for a c (Poll n c # h) \<le> polls_for a (bsb_preference s) (Poll n c # h)"
        using False other(1) ne True by simp
      with False ne show ?thesis
        by (simp add: binary_plurality_def binarySnowball_RecordPoll_def Let_def al st [OF c] st [OF p]
            upd other p c True del: polls_for.simps(2) One_nat_def)
    qed
  next
    case False
    with P show ?thesis by (simp add: binary_plurality_def binarySnowball_RecordPoll_def)
  qed
qed

lemma binary_plurality_fail:
  "binary_plurality a s h \<Longrightarrow> binary_plurality a (binarySnowflake_RecordUnsuccessfulPoll s) (Failed # h)"
  by (simp add: binary_plurality_def binarySnowflake_RecordUnsuccessfulPoll_def)

lemma binary_plurality_run:
  assumes "c < 2" "binary_history h"
  shows "binary_plurality a (history_run binarySnowball_RecordPoll binarySnowflake_RecordUnsuccessfulPoll h
     (newBinarySnowball a tcs c)) h"
  using assms(2)
proof (induction h)
  case Nil
  show ?case using assms(1) by (simp add: binary_plurality_def snow_new_defs snow_record_defs at2_def)
next
  case (Cons e h)
  then have IH: "binary_plurality a (history_run binarySnowball_RecordPoll
      binarySnowflake_RecordUnsuccessfulPoll h (newBinarySnowball a tcs c)) h"
    by (simp add: binary_history_def)
  show ?case
  proof (cases e)
    case (Poll n c')
    then show ?thesis using binary_plurality_poll [OF IH] Cons.prems by (simp add: binary_history_def)
  next
    case Failed
    then show ?thesis using binary_plurality_fail [OF IH] by simp
  qed
qed

text \<open>
  C21. The snowball preference is a plurality of the polls: after any history on a new
  snowball instance the strength of a choice is the number of polls that preferred it, the
  preference of an instance that is not finalized is a choice of maximal strength, and
  \<open>maxPreferenceStrength\<close> of the n-nary instance is that maximum.
\<close>

theorem snowball_prefers_plurality:
  assumes "c2 < 2" "binary_history h2"
  shows "(let s = history_run nnarySnowball_RecordPoll nnarySnowflake_RecordUnsuccessfulPoll h
            (newNnarySnowball a tcs c)
      in (\<forall>x. strength_of (nsb_preferenceStrength s) x = polls_for a x h) \<and>
         (\<not> nnarySnowflake_Finalized s \<longrightarrow>
            nsb_maxPreferenceStrength s = polls_for a (nnarySnowball_Preference s) h \<and>
            (\<forall>x. polls_for a x h \<le> polls_for a (nnarySnowball_Preference s) h))) \<and>
    (let s = history_run binarySnowball_RecordPoll binarySnowflake_RecordUnsuccessfulPoll h2
            (newBinarySnowball a tcs c2)
      in (\<forall>x < 2. at2 (bsb_preferenceStrength s) x = polls_for a x h2) \<and>
         (\<not> binarySnowflake_Finalized s \<longrightarrow>
            (\<forall>x < 2. polls_for a x h2 \<le> polls_for a (binarySnowball_Preference s) h2)))"
proof -
  have bin: "polls_for a x h2 \<le> polls_for a p h2"
    if "x < 2" "p < 2" "polls_for a (1 - p) h2 \<le> polls_for a p h2" for x p
    using that bit_flip(3) [OF that(2,1)] by (cases "x = p") simp_all
  show ?thesis
    using nnary_plurality_run [of a h tcs c] binary_plurality_run [OF assms, of a tcs]
    by (auto simp: Let_def nnary_plurality_def binary_plurality_def nnarySnowball_Preference_def
        binarySnowball_Preference_def intro: bin)
qed

theorem snowball_prefers_plurality_witness:
  "let h = [Poll 3 1, Failed, Poll 3 0, Poll 4 1];
       s = history_run binarySnowball_RecordPoll binarySnowflake_RecordUnsuccessfulPoll h
             (newBinarySnowball 3 (newSingleTerminationCondition 5 9) 0)
   in at2 (bsb_preferenceStrength s) 1 = 2 \<and> polls_for 3 0 h \<le> polls_for 3 (binarySnowball_Preference s) h"
proof -
  let ?h = "[Poll 3 1, Failed, Poll 3 0, Poll 4 1] :: nat poll_event list"
  let ?s = "history_run binarySnowball_RecordPoll binarySnowflake_RecordUnsuccessfulPoll ?h
             (newBinarySnowball 3 (newSingleTerminationCondition 5 9) 0)"
  have h: "binary_history ?h" by (simp add: binary_history_def)
  have fin: "\<not> binarySnowflake_Finalized ?s"
    by (simp add: binary_poll_defs snow_new_defs snow_record_defs binarySnowflake_Finalized_def upd2_def at2_def)
  have "at2 (bsb_preferenceStrength ?s) 1 = polls_for 3 1 ?h" "polls_for 3 0 ?h \<le> polls_for 3 (binarySnowball_Preference ?s) ?h"
    using snowball_prefers_plurality [OF _ h, of 0 "[]" 3 "newSingleTerminationCondition 5 9" 0] fin
    unfolding Let_def by (metis one_less_numeral_iff semiring_norm(76) zero_less_numeral)+
  moreover have "polls_for 3 1 ?h = 2" by simp
  ultimately show ?thesis by (simp only: Let_def simp_thms)
qed

end
