(* ===== verification/Snow_Contracts.thy ===== *)
theory Snow_Contracts
  imports Snow_Instance_Facts
begin

text \<open>
  The contracts of the interfaces \<open>Unary\<close> and \<open>Binary\<close> as the snow tree uses them: instances with
  the single termination condition of the factories.  The observable state is the confidence
  counter, whether the instance is finalized and, for a binary instance, the bit its counter is
  for (the snowflake preference) and the reported preference.
\<close>

section \<open>The observable state\<close>

fun Unary_confidence :: "Unary \<Rightarrow> int" where
  "Unary_confidence (UnarySnowflake s) = hd (usf_confidence s)"
| "Unary_confidence (UnarySnowball s) = hd (usf_confidence s)"

fun Binary_confidence :: "Binary \<Rightarrow> int" where
  "Binary_confidence (BinarySnowflake s) = hd (bsf_confidence s)"
| "Binary_confidence (BinarySnowball s) = hd (bsf_confidence s)"

fun Binary_slush :: "Binary \<Rightarrow> nat" where
  "Binary_slush (BinarySnowflake s) = binarySlush_Preference s"
| "Binary_slush (BinarySnowball s) = binarySlush_Preference s"

definition single_condition :: "Parameters \<Rightarrow> int \<Rightarrow> terminationCondition list \<Rightarrow> int list \<Rightarrow> bool" where
  "single_condition p a tcs cs \<longleftrightarrow> a = AlphaPreference p \<and>
     tcs = newSingleTerminationCondition (AlphaConfidence p) (Beta p) \<and> (\<exists>c \<ge> 0. cs = [c])"

fun Unary_ok :: "Parameters \<Rightarrow> Unary \<Rightarrow> bool" where
  "Unary_ok p (UnarySnowflake s) \<longleftrightarrow>
     single_condition p (usf_alphaPreference s) (usf_terminationConditions s) (usf_confidence s)"
| "Unary_ok p (UnarySnowball s) \<longleftrightarrow>
     single_condition p (usf_alphaPreference s) (usf_terminationConditions s) (usf_confidence s)"

fun Binary_ok :: "Parameters \<Rightarrow> Binary \<Rightarrow> bool" where
  "Binary_ok p (BinarySnowflake s) \<longleftrightarrow>
     single_condition p (bsf_alphaPreference s) (bsf_terminationConditions s) (bsf_confidence s) \<and>
     binarySlush_Preference s < 2"
| "Binary_ok p (BinarySnowball s) \<longleftrightarrow>
     single_condition p (bsf_alphaPreference s) (bsf_terminationConditions s) (bsf_confidence s) \<and>
     binarySlush_Preference s < 2 \<and> bsb_preference s < 2"

lemma confidence_loop_single [simp]:
  "confidence_loop n (newSingleTerminationCondition a b) [c] =
     ([if a \<le> n then c + 1 else 0], a \<le> n \<and> b \<le> c + 1)"
  by (simp add: newSingleTerminationCondition_def)

section \<open>The contract of a unary instance\<close>

locale unary_instance =
  fixes ok :: "Parameters \<Rightarrow> 'u \<Rightarrow> bool"
    and conf :: "'u \<Rightarrow> int"
    and fin :: "'u \<Rightarrow> bool"
    and poll :: "'u \<Rightarrow> int \<Rightarrow> 'u"
    and fail :: "'u \<Rightarrow> 'u"
  assumes ok_poll: "ok p u \<Longrightarrow> ok p (poll u n)"
    and ok_fail: "ok p u \<Longrightarrow> ok p (fail u)"
    and conf_nonneg: "ok p u \<Longrightarrow> 0 \<le> conf u"
    and conf_fail: "ok p u \<Longrightarrow> conf (fail u) = 0"
    and fin_fail: "fin (fail u) = fin u"
    and fail_fail: "fail (fail u) = fail u"
    and fail_zero: "ok p u \<Longrightarrow> conf u = 0 \<Longrightarrow> fail u = u"
    and conf_poll: "ok p u \<Longrightarrow> conf (poll u n) = (if AlphaConfidence p \<le> n then conf u + 1 else 0)"
    and fin_poll: "ok p u \<Longrightarrow> fin (poll u n) \<longleftrightarrow> fin u \<or> AlphaConfidence p \<le> n \<and> Beta p \<le> conf u + 1"
begin

lemma ok_reset: "ok p u \<Longrightarrow> ok p (if r then fail u else u)"
  by (simp add: ok_fail)

lemma conf_reset: "ok p u \<Longrightarrow> conf (if r then fail u else u) = (if r then 0 else conf u)"
  by (simp add: conf_fail)

lemma fin_reset: "fin (if r then fail u else u) = fin u"
  by (simp add: fin_fail)

end

interpretation unary: unary_instance Unary_ok Unary_confidence Unary_Finalized Unary_RecordPoll
  Unary_RecordUnsuccessfulPoll
proof
  fix p u n
  show "Unary_RecordUnsuccessfulPoll (Unary_RecordUnsuccessfulPoll u) = Unary_RecordUnsuccessfulPoll u"
    by (cases u) (auto simp: unary_poll_defs)
  show "Unary_Finalized (Unary_RecordUnsuccessfulPoll u) = Unary_Finalized u"
    by (cases u) (auto simp: unary_poll_defs unarySnowflake_Finalized_def)
  assume ok: "Unary_ok p u"
  show "Unary_ok p (Unary_RecordPoll u n)"
    using ok by (cases u) (auto simp: unary_poll_defs single_condition_def Let_def)
  show "Unary_ok p (Unary_RecordUnsuccessfulPoll u)"
    using ok by (cases u) (auto simp: unary_poll_defs single_condition_def)
  show "0 \<le> Unary_confidence u"
    using ok by (cases u) (auto simp: single_condition_def)
  show "Unary_confidence (Unary_RecordUnsuccessfulPoll u) = 0"
    using ok by (cases u) (auto simp: unary_poll_defs single_condition_def)
  show "Unary_RecordUnsuccessfulPoll u = u" if "Unary_confidence u = 0"
    using ok that by (cases u) (auto simp: unary_poll_defs single_condition_def)
  show "Unary_confidence (Unary_RecordPoll u n) = (if AlphaConfidence p \<le> n then Unary_confidence u + 1 else 0)"
    using ok by (cases u) (auto simp: unary_poll_defs single_condition_def Let_def)
  show "Unary_Finalized (Unary_RecordPoll u n) \<longleftrightarrow>
      Unary_Finalized u \<or> AlphaConfidence p \<le> n \<and> Beta p \<le> Unary_confidence u + 1"
    using ok by (cases u) (auto simp: unary_poll_defs single_condition_def unarySnowflake_Finalized_def Let_def)
qed

section \<open>The contract of a binary instance\<close>

text \<open>A poll reaching \<open>AlphaPreference\<close> moves the counter to the polled bit.\<close>

locale binary_instance =
  fixes ok :: "Parameters \<Rightarrow> 'b \<Rightarrow> bool"
    and conf :: "'b \<Rightarrow> int"
    and slush :: "'b \<Rightarrow> nat"
    and pref :: "'b \<Rightarrow> nat"
    and fin :: "'b \<Rightarrow> bool"
    and poll :: "'b \<Rightarrow> int \<Rightarrow> nat \<Rightarrow> 'b"
    and fail :: "'b \<Rightarrow> 'b"
  assumes ok_poll: "ok p b \<Longrightarrow> c < 2 \<Longrightarrow> ok p (poll b n c)"
    and ok_fail: "ok p b \<Longrightarrow> ok p (fail b)"
    and conf_nonneg: "ok p b \<Longrightarrow> 0 \<le> conf b"
    and slush_bit: "ok p b \<Longrightarrow> slush b < 2"
    and pref_bit: "ok p b \<Longrightarrow> pref b < 2"
    and pref_fin: "fin b \<Longrightarrow> pref b = slush b"
    and conf_fail: "ok p b \<Longrightarrow> conf (fail b) = 0"
    and fin_fail: "fin (fail b) = fin b"
    and slush_fail: "slush (fail b) = slush b"
    and pref_fail: "pref (fail b) = pref b"
    and fail_fail: "fail (fail b) = fail b"
    and fail_zero: "ok p b \<Longrightarrow> conf b = 0 \<Longrightarrow> fail b = b"
    and slush_poll: "ok p b \<Longrightarrow> \<not> fin b \<Longrightarrow> AlphaPreference p \<le> n \<Longrightarrow> slush (poll b n c) = c"
    and conf_poll: "ok p b \<Longrightarrow> \<not> fin b \<Longrightarrow> AlphaPreference p \<le> n \<Longrightarrow> conf (poll b n c) =
      (if AlphaConfidence p \<le> n then (if c = slush b then conf b else 0) + 1 else 0)"
    and fin_poll: "ok p b \<Longrightarrow> \<not> fin b \<Longrightarrow> AlphaPreference p \<le> n \<Longrightarrow> fin (poll b n c) \<longleftrightarrow>
      AlphaConfidence p \<le> n \<and> Beta p \<le> (if c = slush b then conf b else 0) + 1"
    and fin_stays: "fin b \<Longrightarrow> fin (poll b n c) \<and> slush (poll b n c) = slush b"
begin

lemma ok_reset: "ok p b \<Longrightarrow> ok p (if r then fail b else b)"
  by (simp add: ok_fail)

lemma conf_reset: "ok p b \<Longrightarrow> conf (if r then fail b else b) = (if r then 0 else conf b)"
  by (simp add: conf_fail)

lemma fin_reset: "fin (if r then fail b else b) = fin b"
  by (simp add: fin_fail)

lemma slush_reset: "slush (if r then fail b else b) = slush b"
  by (simp add: slush_fail)

lemma pref_reset: "pref (if r then fail b else b) = pref b"
  by (simp add: pref_fail)

end

lemmas single_defs = single_condition_def binarySnowflake_Finalized_def
  binarySnowball_Preference_def

interpretation binary: binary_instance Binary_ok Binary_confidence Binary_slush Binary_Preference
  Binary_Finalized Binary_RecordPoll Binary_RecordUnsuccessfulPoll
proof
  fix p b n c
  show "Binary_RecordUnsuccessfulPoll (Binary_RecordUnsuccessfulPoll b) = Binary_RecordUnsuccessfulPoll b"
    and "Binary_Finalized (Binary_RecordUnsuccessfulPoll b) = Binary_Finalized b"
    and "Binary_slush (Binary_RecordUnsuccessfulPoll b) = Binary_slush b"
    and "Binary_Preference (Binary_RecordUnsuccessfulPoll b) = Binary_Preference b"
    by (cases b; simp add: binary_poll_defs single_defs)+
  show "Binary_Preference b = Binary_slush b" if "Binary_Finalized b"
    using that by (cases b) (auto simp: single_defs binarySlush_Preference_def)
  show "Binary_Finalized (Binary_RecordPoll b n c) \<and> Binary_slush (Binary_RecordPoll b n c) = Binary_slush b"
    if "Binary_Finalized b"
    using that by (cases b) (auto simp: binary_poll_defs single_defs)
  assume ok: "Binary_ok p b"
  show "Binary_ok p (Binary_RecordPoll b n c)" if "c < 2"
    using ok that by (cases b) (auto simp: binary_poll_defs single_defs)
  show "Binary_ok p (Binary_RecordUnsuccessfulPoll b)"
    using ok by (cases b) (auto simp: binary_poll_defs single_defs)
  show "0 \<le> Binary_confidence b" and "Binary_slush b < 2" and "Binary_Preference b < 2"
    using ok by (cases b; auto simp: single_defs)+
  show "Binary_confidence (Binary_RecordUnsuccessfulPoll b) = 0"
    using ok by (cases b) (auto simp: binary_poll_defs single_defs)
  show "Binary_RecordUnsuccessfulPoll b = b" if "Binary_confidence b = 0"
    using ok that by (cases b) (auto simp: binary_poll_defs single_defs)
  assume nf: "\<not> Binary_Finalized b" and n: "AlphaPreference p \<le> n"
  show "Binary_slush (Binary_RecordPoll b n c) = c"
    using ok nf n by (cases b) (auto simp: binary_poll_defs single_defs)
  show "Binary_confidence (Binary_RecordPoll b n c) =
      (if AlphaConfidence p \<le> n then (if c = Binary_slush b then Binary_confidence b else 0) + 1 else 0)"
    using ok nf n by (cases b) (auto simp: binary_poll_defs single_defs)
  show "Binary_Finalized (Binary_RecordPoll b n c) \<longleftrightarrow>
      AlphaConfidence p \<le> n \<and> Beta p \<le> (if c = Binary_slush b then Binary_confidence b else 0) + 1"
    using ok nf n by (cases b) (auto simp: binary_poll_defs single_defs)
qed

section \<open>Creating and extending instances\<close>

lemma Factory_NewUnary_facts [simp]:
  "Unary_ok p (Factory_NewUnary f p)"
  "Unary_confidence (Factory_NewUnary f p) = 0"
  "\<not> Unary_Finalized (Factory_NewUnary f p)"
  by (cases f; simp add: snow_new_defs snow_record_defs single_condition_def unarySnowflake_Finalized_def)+

lemma Unary_Clone_eq [simp]: "Unary_Clone u = u"
  by (cases u) (simp_all add: unarySnowflake_Clone_def unarySnowball_Clone_def)

lemma Unary_Extend_facts [simp]:
  "Unary_ok p u \<Longrightarrow> c < 2 \<Longrightarrow> Binary_ok p (Unary_Extend u c)"
  "Binary_confidence (Unary_Extend u c) = Unary_confidence u"
  "Binary_slush (Unary_Extend u c) = c"
  "Binary_Preference (Unary_Extend u c) = c"
  "Binary_Finalized (Unary_Extend u c) = Unary_Finalized u"
  by (cases u; simp add: unarySnowflake_Extend_def unarySnowball_Extend_def binarySlush_Preference_def
      single_defs unarySnowflake_Finalized_def)+

lemma Extend_fail: "Unary_Extend (Unary_RecordUnsuccessfulPoll u) c = Binary_RecordUnsuccessfulPoll (Unary_Extend u c)"
  by (cases u) (simp_all add: unarySnowflake_Extend_def unarySnowball_Extend_def unary_poll_defs
      binary_poll_defs unarySnowflake_Finalized_def)

lemma params_valid_facts:
  "params_valid p \<Longrightarrow> AlphaPreference p \<le> AlphaConfidence p"
  "params_valid p \<Longrightarrow> 0 < Beta p"
  by (simp_all add: params_valid_def)

end
