(* ===== verification/Snow_Tree_Inv.thy ===== *)
theory Snow_Tree_Inv
  imports Snow_Tree Snow_Contracts
begin

text \<open>
  The invariant of the snow tree and its preservation.  The invariant has a structural part (a
  Patricia tree over the bits of the choices, with the preferences of inner nodes consistent with
  their subtrees) and a dynamic part (below a node that is not finalized no node is
  finalized, because a child never has more confidence than its parent on that branch).
\<close>

section \<open>Induction over nodes, choices and confidence\<close>

lemma node_induct [case_names Unary Binary]:
  assumes "\<And>pref dp cp snow sr ch. (\<And>c. ch = Some c \<Longrightarrow> P c) \<Longrightarrow> P (UnaryNode pref dp cp snow sr ch)"
    and "\<And>prefs b snow sr ch. (\<And>i c. at2 ch i = Some c \<Longrightarrow> P c) \<Longrightarrow> P (BinaryNode prefs b snow sr ch)"
  shows "P n"
proof (induction n rule: measure_induct_rule [of size])
  case (less n)
  show ?case
  proof (cases n)
    case (UnaryNode pref dp cp snow sr ch)
    then show ?thesis using less by (auto intro!: assms(1))
  next
    case (BinaryNode prefs b snow sr ch)
    have "size c < size n" if "at2 ch i = Some c" for i c
      using that BinaryNode by (cases ch) (auto simp: at2_def split: if_splits)
    then show ?thesis unfolding BinaryNode using less BinaryNode by (auto intro!: assms(2))
  qed
qed

text \<open>The choices a subtree decides between.\<close>

fun node_leaves :: "node \<Rightarrow> ID set" where
  "node_leaves (UnaryNode pref dp cp snow sr ch) = (case ch of None \<Rightarrow> {pref} | Some c \<Rightarrow> node_leaves c)"
| "node_leaves (BinaryNode prefs b snow sr ch) =
     (\<Union>i \<in> {0, 1}. case at2 ch i of None \<Rightarrow> {at2 prefs i} | Some c \<Rightarrow> node_leaves c)"

fun node_conf :: "node \<Rightarrow> int" where
  "node_conf (UnaryNode pref dp cp snow sr ch) = Unary_confidence snow"
| "node_conf (BinaryNode prefs b snow sr ch) = Binary_confidence snow"

definition branch_conf :: "Binary \<Rightarrow> nat \<Rightarrow> int" where
  "branch_conf snow i = (if Binary_slush snow = i then Binary_confidence snow else 0)"

fun node_childless :: "node \<Rightarrow> bool" where
  "node_childless (UnaryNode pref dp cp snow sr ch) \<longleftrightarrow> ch = None"
| "node_childless (BinaryNode prefs b snow sr ch) \<longleftrightarrow> ch = (None, None)"

fun node_is_binary :: "node \<Rightarrow> bool" where
  "node_is_binary (UnaryNode pref dp cp snow sr ch) \<longleftrightarrow> False"
| "node_is_binary (BinaryNode prefs b snow sr ch) \<longleftrightarrow> True"

section \<open>The invariant\<close>

fun node_inv :: "Parameters \<Rightarrow> node \<Rightarrow> bool" where
  "node_inv p (UnaryNode pref dp cp snow sr ch) \<longleftrightarrow>
     dp < cp \<and> cp \<le> NumBits \<and> Unary_ok p snow \<and> (sr \<longrightarrow> Unary_confidence snow = 0) \<and>
     (case ch of
        None \<Rightarrow> cp = NumBits
      | Some c \<Rightarrow> node_is_binary c \<and> node_DecidedPrefix c = cp \<and> node_Preference c = pref \<and>
          \<not> Unary_Finalized snow \<and> \<not> node_Finalized c \<and> (sr \<or> node_conf c \<le> Unary_confidence snow) \<and>
          node_inv p c)"
| "node_inv p (BinaryNode prefs b snow sr ch) \<longleftrightarrow>
     b < NumBits \<and> Binary_ok p snow \<and> agree b (at2 prefs 0) (at2 prefs 1) \<and>
     (\<forall>i \<in> {0, 1}. ID_Bit (at2 prefs i) b = i \<and>
        (case at2 ch i of
           None \<Rightarrow> Suc b = NumBits
         | Some c \<Rightarrow> node_DecidedPrefix c = Suc b \<and> node_Preference c = at2 prefs i \<and>
             \<not> Binary_Finalized snow \<and> \<not> node_Finalized c \<and>
             (at2 sr i \<or> node_conf c \<le> branch_conf snow i) \<and> node_inv p c))"

text \<open>The part of the invariant about one branch of a binary node.\<close>

definition branch_inv :: "Parameters \<Rightarrow> ID \<Rightarrow> nat \<Rightarrow> Binary \<Rightarrow> bool \<Rightarrow> node option \<Rightarrow> nat \<Rightarrow> bool" where
  "branch_inv p pref b snow r ch i \<longleftrightarrow> ID_Bit pref b = i \<and>
     (case ch of
        None \<Rightarrow> Suc b = NumBits
      | Some c \<Rightarrow> node_DecidedPrefix c = Suc b \<and> node_Preference c = pref \<and>
          \<not> Binary_Finalized snow \<and> \<not> node_Finalized c \<and>
          (r \<or> node_conf c \<le> branch_conf snow i) \<and> node_inv p c)"

lemma bits_iff: "i \<in> {0, 1} \<longleftrightarrow> i < (2::nat)"
  by auto

lemma node_inv_Binary:
  "node_inv p (BinaryNode prefs b snow sr ch) \<longleftrightarrow>
     b < NumBits \<and> Binary_ok p snow \<and> agree b (at2 prefs 0) (at2 prefs 1) \<and>
     (\<forall>i < 2. branch_inv p (at2 prefs i) b snow (at2 sr i) (at2 ch i) i)"
  by (simp only: node_inv.simps branch_inv_def bits_iff [symmetric] Ball_def)

declare node_inv.simps(2) [simp del]

lemma node_leaves_Binary:
  "x \<in> node_leaves (BinaryNode prefs b snow sr ch) \<longleftrightarrow>
     (\<exists>i < 2. x \<in> (case at2 ch i of None \<Rightarrow> {at2 prefs i} | Some c \<Rightarrow> node_leaves c))"
  by (simp only: node_leaves.simps UN_iff bits_iff Bex_def)

declare node_leaves.simps(2) [simp del]

lemma node_inv_bounds: "node_inv p n \<Longrightarrow> node_DecidedPrefix n < NumBits"
  by (cases n) (auto simp: node_inv_Binary)

text \<open>All the choices below a node agree with its preference on the decided prefix, and the
  preference is one of them.\<close>

lemma node_leaves_agree:
  "node_inv p n \<Longrightarrow> x \<in> node_leaves n \<Longrightarrow> agree (node_DecidedPrefix n) x (node_Preference n)"
proof (induction n arbitrary: x rule: node_induct)
  case (Unary pref dp cp snow sr ch)
  show ?case
  proof (cases ch)
    case (Some c)
    with Unary.prems have "agree cp x pref" using Unary.IH [OF Some, of x] by auto
    with Unary.prems show ?thesis by (auto elim!: agree_mono)
  qed (use Unary.prems in auto)
next
  case (Binary prefs b snow sr ch)
  then obtain i where i: "i < 2" "x \<in> (case at2 ch i of None \<Rightarrow> {at2 prefs i} | Some c \<Rightarrow> node_leaves c)"
    by (auto simp: node_leaves_Binary)
  have inv: "branch_inv p (at2 prefs i) b snow (at2 sr i) (at2 ch i) i"
    and prefs: "agree b (at2 prefs 0) (at2 prefs 1)" and ok: "Binary_ok p snow"
    using Binary.prems i(1) by (auto simp: node_inv_Binary)
  have x: "agree b x (at2 prefs i)"
  proof (cases "at2 ch i")
    case (Some c)
    then have "agree (Suc b) x (at2 prefs i)" using Binary.IH [OF Some, of x] inv i by (auto simp: branch_inv_def)
    then show ?thesis by (rule agree_mono) simp
  qed (use i in auto)
  have "agree b (at2 prefs i) (at2 prefs j)" if "j < 2" for j
    using prefs i(1) that by (auto simp: less_2_cases_iff agree_sym)
  with x ok show ?case using binary.pref_bit [of p snow] by (auto intro: agree_trans)
qed

lemma branch_leaves_bit:
  assumes "branch_inv p pref b snow r ch i" "x \<in> (case ch of None \<Rightarrow> {pref} | Some c \<Rightarrow> node_leaves c)"
  shows "ID_Bit x b = i" "agree (Suc b) x pref"
proof -
  have "agree (Suc b) x pref"
  proof (cases ch)
    case (Some c)
    with assms node_leaves_agree [of p c x] show ?thesis by (simp add: branch_inv_def)
  qed (use assms in simp)
  with assms show "agree (Suc b) x pref" "ID_Bit x b = i" by (auto simp: agree_Suc branch_inv_def)
qed

lemma node_Preference_in_leaves: "node_inv p n \<Longrightarrow> node_Preference n \<in> node_leaves n"
proof (induction n rule: node_induct)
  case (Unary pref dp cp snow sr ch)
  then show ?case by (cases ch) auto
next
  case (Binary prefs b snow sr ch)
  let ?i = "Binary_Preference snow"
  have i: "?i < 2" using Binary.prems binary.pref_bit by (auto simp: node_inv_Binary)
  with Binary.prems have "branch_inv p (at2 prefs ?i) b snow (at2 sr ?i) (at2 ch ?i) ?i"
    by (auto simp: node_inv_Binary)
  with Binary.IH [of ?i] have "at2 prefs ?i \<in> (case at2 ch ?i of None \<Rightarrow> {at2 prefs ?i} | Some c \<Rightarrow> node_leaves c)"
    by (cases "at2 ch ?i") (force simp: branch_inv_def)+
  with i show ?case by (auto simp: node_leaves_Binary)
qed

section \<open>The poll, case by case\<close>

definition branch_votes :: "nat \<Rightarrow> nat \<Rightarrow> ID Bag \<Rightarrow> ID Bag" where
  "branch_votes b i votes = Bag_Filter (\<lambda>x. ID_Bit x b = i) votes"

definition poll_bit :: "Parameters \<Rightarrow> nat \<Rightarrow> ID Bag \<Rightarrow> nat" where
  "poll_bit p b votes = (if AlphaPreference p \<le> Bag_Len (branch_votes b 1 votes) then 1 else 0)"

lemma poll_bit_less [simp]: "poll_bit p b votes < 2"
  by (simp add: poll_bit_def)

lemma bag_wf_branch_votes [simp]: "bag_wf (branch_votes b i votes)"
  by (simp add: branch_votes_def)

lemma Bag_Len_branch_votes: "bag_wf votes \<Longrightarrow> Bag_Len (branch_votes b i votes) \<le> Bag_Len votes"
  by (simp add: branch_votes_def bag.len_restrict_le)

lemma at2_Bag_Split: "i < 2 \<Longrightarrow> at2 (Bag_Split (\<lambda>x. ID_Bit x b = 1) votes) i = branch_votes b i votes"
proof -
  have "(\<lambda>x. ID_Bit x b \<noteq> 1) = (\<lambda>x. ID_Bit x b = 0)" using ID_Bit_cases by fastforce
  then show "i < 2 \<Longrightarrow> ?thesis" by (auto simp: less_2_cases_iff Bag_Split_Filter branch_votes_def)
qed

lemma snd_Bag_Split: "snd (Bag_Split (\<lambda>x. ID_Bit x b = 1) votes) = branch_votes b 1 votes"
  by (simp add: Bag_Split_Filter branch_votes_def)

definition unary_reset :: "bool \<Rightarrow> Unary \<Rightarrow> Unary" where
  "unary_reset r snow = (if r then Unary_RecordUnsuccessfulPoll snow else snow)"

definition binary_reset :: "bool \<Rightarrow> Binary \<Rightarrow> Binary" where
  "binary_reset r snow = (if r then Binary_RecordUnsuccessfulPoll snow else snow)"

lemma RecordPoll_Unary_low:
  "Bag_Len votes < AlphaPreference p \<Longrightarrow> node_RecordPoll p (UnaryNode pref dp cp snow sr ch) votes r =
    (UnaryNode pref dp cp (Unary_RecordUnsuccessfulPoll snow) True ch,
     UnaryNode pref dp cp (Unary_RecordUnsuccessfulPoll snow) True ch, False)"
  by (simp add: unary.fail_fail Let_def)

lemma RecordPoll_Unary_leaf:
  "AlphaPreference p \<le> Bag_Len votes \<Longrightarrow> node_RecordPoll p (UnaryNode pref dp cp snow sr None) votes r =
    (let u = UnaryNode pref dp cp (Unary_RecordPoll (unary_reset r snow) (Bag_Len votes)) False None
     in (u, u, True))"
  by (simp add: unary_reset_def Let_def)

lemma RecordPoll_Unary_child:
  "AlphaPreference p \<le> Bag_Len votes \<Longrightarrow> node_RecordPoll p c votes (r \<or> sr) = (c', m, ok) \<Longrightarrow>
   node_RecordPoll p (UnaryNode pref dp cp snow sr (Some c)) votes r =
    (let snow = Unary_RecordPoll (unary_reset r snow) (Bag_Len votes);
         u = UnaryNode (node_Preference c') dp cp snow False (Some c')
     in if Unary_Finalized snow then (UnaryNode pref dp cp snow (r \<or> sr) (Some c'), m, True) else (u, u, True))"
  by (cases r; cases sr) (simp_all add: unary_reset_def Let_def)

lemma upd2_TT:
  "i < 2 \<Longrightarrow> upd2 (upd2 (if r then upd2 sr i True else sr) (1 - i) True) i v = upd2 (True, True) i v"
  by (cases sr) (auto simp: less_2_cases_iff upd2_def)

lemma at2_pending: "i < 2 \<Longrightarrow> at2 (upd2 (if r then upd2 sr i True else sr) (1 - i) True) i \<longleftrightarrow> r \<or> at2 sr i"
  by (cases sr) (auto simp: less_2_cases_iff upd2_def at2_def)

lemma upd2_True: "i < 2 \<Longrightarrow> upd2 (True, True) i True = (True, True)"
  by (auto simp: less_2_cases_iff)

lemma RecordPoll_Binary_unfold:
  fixes p b votes
  defines "i \<equiv> poll_bit p b votes"
  shows "node_RecordPoll p (BinaryNode prefs b snow sr ch) votes r =
    (let snow0 = binary_reset r snow; V = branch_votes b i votes
     in if Bag_Len V < AlphaPreference p then
          let n = BinaryNode prefs b (Binary_RecordUnsuccessfulPoll snow0) (True, True) ch in (n, n, False)
        else
          let snow1 = Binary_RecordPoll snow0 (Bag_Len V) i
          in case at2 ch i of
               Some c \<Rightarrow>
                 let (c', m, _) = node_RecordPoll p c V (r \<or> at2 sr i); ch' = upd2 ch i (Some c')
                 in if Binary_Finalized snow1
                    then (BinaryNode prefs b snow1 (upd2 (if r then upd2 sr i True else sr) (1 - i) True) ch', m, True)
                    else let n = BinaryNode (upd2 prefs i (node_Preference m)) b snow1 (upd2 (True, True) i False) ch'
                         in (n, n, True)
             | None \<Rightarrow> let n = BinaryNode prefs b snow1 (upd2 (True, True) i False) ch in (n, n, True))"
proof -
  have i: "i < 2" by (simp add: i_def)
  have bit: "(if AlphaPreference p \<le> Bag_Len (snd (Bag_Split (\<lambda>x. ID_Bit x b = 1) votes)) then 1 else 0) = i"
    by (simp only: i_def poll_bit_def snd_Bag_Split)
  show ?thesis
    by (subst node_RecordPoll.simps(2))
      (simp only: Let_def bit at2_Bag_Split [OF i] upd2_TT [OF i] at2_pending [OF i] upd2_True [OF i]
        binary_reset_def [symmetric])
qed

declare node_RecordPoll.simps [simp del]

lemma RecordPoll_Binary_low:
  assumes "Bag_Len (branch_votes b (poll_bit p b votes) votes) < AlphaPreference p"
  shows "node_RecordPoll p (BinaryNode prefs b snow sr ch) votes r =
    (let n = BinaryNode prefs b (Binary_RecordUnsuccessfulPoll snow) (True, True) ch in (n, n, False))"
  using assms by (simp add: RecordPoll_Binary_unfold binary_reset_def binary.fail_fail Let_def)

lemma RecordPoll_Binary_leaf:
  assumes "AlphaPreference p \<le> Bag_Len (branch_votes b i votes)" "i = poll_bit p b votes" "at2 ch i = None"
  shows "node_RecordPoll p (BinaryNode prefs b snow sr ch) votes r =
    (let n = BinaryNode prefs b (Binary_RecordPoll (binary_reset r snow) (Bag_Len (branch_votes b i votes)) i)
        (upd2 (True, True) i False) ch in (n, n, True))"
  using assms by (simp add: RecordPoll_Binary_unfold Let_def)

lemma RecordPoll_Binary_child:
  assumes "AlphaPreference p \<le> Bag_Len (branch_votes b i votes)" "i = poll_bit p b votes" "at2 ch i = Some c"
    "node_RecordPoll p c (branch_votes b i votes) (r \<or> at2 sr i) = (c', m, ok)"
  shows "node_RecordPoll p (BinaryNode prefs b snow sr ch) votes r =
    (let snow1 = Binary_RecordPoll (binary_reset r snow) (Bag_Len (branch_votes b i votes)) i;
         n = BinaryNode (upd2 prefs i (node_Preference m)) b snow1 (upd2 (True, True) i False) (upd2 ch i (Some c'))
     in if Binary_Finalized snow1
        then (BinaryNode prefs b snow1 (upd2 (if r then upd2 sr i True else sr) (1 - i) True) (upd2 ch i (Some c')), m, True)
        else (n, n, True))"
  using assms by (simp add: RecordPoll_Binary_unfold Let_def)

section \<open>A poll keeps the invariant\<close>

definition reset_conf :: "bool \<Rightarrow> int \<Rightarrow> int" where
  "reset_conf r c = (if r then 0 else c)"

text \<open>What the poll of a node that is not finalized guarantees to the parent of the node: the
  updated receiver keeps its place in the tree, its confidence and finality are bounded by the
  confidence it had, and the returned node satisfies the invariant.\<close>

definition poll_result :: "Parameters \<Rightarrow> node \<Rightarrow> ID Bag \<Rightarrow> bool \<Rightarrow> node \<Rightarrow> node \<Rightarrow> bool" where
  "poll_result p n votes r n' m \<longleftrightarrow>
     node_DecidedPrefix n' = node_DecidedPrefix n \<and> node_is_binary n' = node_is_binary n \<and>
     node_leaves n' = node_leaves n \<and>
     node_conf n' \<le> (if AlphaConfidence p \<le> Bag_Len votes then reset_conf r (node_conf n) + 1 else 0) \<and>
     (node_Finalized n' \<longrightarrow> AlphaConfidence p \<le> Bag_Len votes \<and> Beta p \<le> reset_conf r (node_conf n) + 1) \<and>
     (\<not> node_Finalized n' \<longrightarrow> m = n') \<and> node_inv p m"

lemma unary_reset_facts:
  assumes "Unary_ok p snow"
  shows "Unary_ok p (unary_reset r snow)"
    "Unary_confidence (unary_reset r snow) = reset_conf r (Unary_confidence snow)"
    "Unary_Finalized (unary_reset r snow) = Unary_Finalized snow"
  using unary.ok_reset [OF assms] unary.conf_reset [OF assms] unary.fin_reset
  by (simp_all add: unary_reset_def reset_conf_def)

lemma binary_reset_facts:
  assumes "Binary_ok p snow"
  shows "Binary_ok p (binary_reset r snow)"
    "Binary_confidence (binary_reset r snow) = reset_conf r (Binary_confidence snow)"
    "Binary_Finalized (binary_reset r snow) = Binary_Finalized snow"
    "Binary_slush (binary_reset r snow) = Binary_slush snow"
    "Binary_Preference (binary_reset r snow) = Binary_Preference snow"
  using binary.ok_reset [OF assms] binary.conf_reset [OF assms] binary.fin_reset binary.slush_reset binary.pref_reset
  by (simp_all add: binary_reset_def reset_conf_def)

lemma branch_conf_reset: "Binary_ok p snow \<Longrightarrow> branch_conf (binary_reset r snow) i = reset_conf r (branch_conf snow i)"
  by (simp add: branch_conf_def binary_reset_facts reset_conf_def)

lemma branch_conf_bounds:
  assumes "Binary_ok p snow"
  shows "0 \<le> branch_conf snow i" "branch_conf snow i \<le> Binary_confidence snow"
  using binary.conf_nonneg [OF assms] by (simp_all add: branch_conf_def)

text \<open>The effect of a successful poll on the confidence, for a branch.\<close>

lemma binary_poll_facts:
  fixes r
  assumes "Binary_ok p snow" "\<not> Binary_Finalized snow" "AlphaPreference p \<le> n" "i < 2"
  defines "snow' \<equiv> Binary_RecordPoll (binary_reset r snow) n i"
  shows "Binary_ok p snow'"
    "branch_conf snow' i = (if AlphaConfidence p \<le> n then reset_conf r (branch_conf snow i) + 1 else 0)"
    "Binary_confidence snow' = branch_conf snow' i"
    "Binary_Finalized snow' \<longleftrightarrow> AlphaConfidence p \<le> n \<and> Beta p \<le> reset_conf r (branch_conf snow i) + 1"
proof -
  note f = binary_reset_facts [OF assms(1), of r]
  have nf: "\<not> Binary_Finalized (binary_reset r snow)" using f(3) assms(2) by simp
  note c = binary.conf_poll [OF f(1) nf assms(3), of i] and s = binary.slush_poll [OF f(1) nf assms(3), of i]
    and fin = binary.fin_poll [OF f(1) nf assms(3), of i]
  show "Binary_ok p snow'" using binary.ok_poll [OF f(1) assms(4)] by (simp add: snow'_def)
  show "branch_conf snow' i = (if AlphaConfidence p \<le> n then reset_conf r (branch_conf snow i) + 1 else 0)"
    using c s f by (auto simp: snow'_def branch_conf_def reset_conf_def)
  show "Binary_confidence snow' = branch_conf snow' i" using s by (simp add: snow'_def branch_conf_def)
  show "Binary_Finalized snow' \<longleftrightarrow> AlphaConfidence p \<le> n \<and> Beta p \<le> reset_conf r (branch_conf snow i) + 1"
    using fin f by (auto simp: snow'_def branch_conf_def reset_conf_def)
qed

lemma unary_poll_facts:
  fixes r n
  assumes "Unary_ok p snow"
  defines "snow' \<equiv> Unary_RecordPoll (unary_reset r snow) n"
  shows "Unary_ok p snow'"
    "Unary_confidence snow' = (if AlphaConfidence p \<le> n then reset_conf r (Unary_confidence snow) + 1 else 0)"
    "Unary_Finalized snow' \<longleftrightarrow> Unary_Finalized snow \<or> AlphaConfidence p \<le> n \<and> Beta p \<le> reset_conf r (Unary_confidence snow) + 1"
  using unary.ok_poll unary.conf_poll unary.fin_poll unary_reset_facts [OF assms(1), of r]
  by (simp_all add: snow'_def)

lemma poll_result_unary_leaf:
  assumes inv: "node_inv p (UnaryNode pref dp cp snow sr None)" and nf: "\<not> Unary_Finalized snow"
    and n: "AlphaPreference p \<le> Bag_Len votes"
    and res: "node_RecordPoll p (UnaryNode pref dp cp snow sr None) votes r = (n', m, ok)"
  shows "poll_result p (UnaryNode pref dp cp snow sr None) votes r n' m"
proof -
  have ok: "Unary_ok p snow" using inv by simp
  show ?thesis
    using res inv nf n unary_poll_facts [OF ok, of r "Bag_Len votes"]
    by (auto simp: RecordPoll_Unary_leaf poll_result_def Let_def)
qed

lemma poll_result_unary_child:
  assumes inv: "node_inv p (UnaryNode pref dp cp snow sr (Some c))" 
    and n: "AlphaPreference p \<le> Bag_Len votes"
    and c: "node_RecordPoll p c votes (r \<or> sr) = (c', mc, okc)" and IH: "poll_result p c votes (r \<or> sr) c' mc"
    and res: "node_RecordPoll p (UnaryNode pref dp cp snow sr (Some c)) votes r = (n', m, ok)"
  shows "poll_result p (UnaryNode pref dp cp snow sr (Some c)) votes r n' m"
proof -
  let ?snow = "Unary_RecordPoll (unary_reset r snow) (Bag_Len votes)"
  have ok: "Unary_ok p snow" and nf: "\<not> Unary_Finalized snow" using inv by simp_all
  note f = unary_poll_facts [OF ok, of r "Bag_Len votes"]
  have dom: "reset_conf (r \<or> sr) (node_conf c) \<le> reset_conf r (Unary_confidence snow)"
    using inv unary.conf_nonneg [OF ok] by (auto simp: reset_conf_def)
  note res' = res [unfolded RecordPoll_Unary_child [OF n c]]
  show ?thesis
  proof (cases "Unary_Finalized ?snow")
    case True
    with res' have e: "n' = UnaryNode pref dp cp ?snow (r \<or> sr) (Some c')" "m = mc" by (simp_all add: Let_def)
    from IH have "node_leaves c' = node_leaves c" "node_inv p mc" by (simp_all add: poll_result_def)
    with True f nf show ?thesis unfolding poll_result_def e by simp
  next
    case False
    with f nf have "\<not> (AlphaConfidence p \<le> Bag_Len votes \<and> Beta p \<le> reset_conf r (Unary_confidence snow) + 1)" by simp
    with IH dom have "\<not> node_Finalized c'" by (auto simp: poll_result_def)
    moreover have "node_conf c' \<le> Unary_confidence ?snow"
      using IH dom f by (auto simp: poll_result_def split: if_splits)
    moreover have "n' = UnaryNode (node_Preference c') dp cp ?snow False (Some c')" "m = n'"
      using res' False by (auto simp: Let_def)
    moreover have "node_leaves c' = node_leaves c" "node_DecidedPrefix c' = node_DecidedPrefix c"
      "node_is_binary c' = node_is_binary c" using IH by (simp_all add: poll_result_def)
    moreover have "node_inv p c'" using IH \<open>\<not> node_Finalized c'\<close> by (auto simp: poll_result_def)
    ultimately show ?thesis using False inv f by (simp add: poll_result_def)
  qed
qed

lemma poll_result_binary_leaf:
  assumes inv: "node_inv p (BinaryNode prefs b snow sr ch)" and nf: "\<not> Binary_Finalized snow"
    and wf: "bag_wf votes" and i: "i = poll_bit p b votes"
    and n: "AlphaPreference p \<le> Bag_Len (branch_votes b i votes)" and none: "at2 ch i = None"
    and res: "node_RecordPoll p (BinaryNode prefs b snow sr ch) votes r = (n', m, ok)"
  shows "poll_result p (BinaryNode prefs b snow sr ch) votes r n' m"
proof -
  let ?V = "branch_votes b i votes"
  let ?snow = "Binary_RecordPoll (binary_reset r snow) (Bag_Len ?V) i"
  have i2: "i < 2" by (simp add: i)
  have ok: "Binary_ok p snow" using inv by (simp add: node_inv_Binary)
  note f = binary_poll_facts [OF ok nf n i2, of r] and bc = branch_conf_bounds [OF ok, of i]
  have br: "branch_inv p (at2 prefs j) b snow (at2 sr j) (at2 ch j) j" if "j < 2" for j
    using inv that by (simp add: node_inv_Binary)
  have last: "Suc b = NumBits" using br [OF i2] none by (simp add: branch_inv_def)
  have none_all: "at2 ch j = None" if "j < 2" for j
    using br [OF that] last node_inv_bounds [of p] by (cases "at2 ch j") (fastforce simp: branch_inv_def)+
  have e: "n' = BinaryNode prefs b ?snow (upd2 (True, True) i False) ch" "m = n'"
    using res by (auto simp: RecordPoll_Binary_leaf [OF n i none] Let_def)
  have "branch_inv p (at2 prefs j) b ?snow (at2 (upd2 (True, True) i False) j) (at2 ch j) j" if "j < 2" for j
    using br [OF that] none_all [OF that] by (simp add: branch_inv_def)
  with inv f(1) have "node_inv p n'" by (simp add: e node_inv_Binary)
  moreover have "Bag_Len ?V \<le> Bag_Len votes" by (rule Bag_Len_branch_votes [OF wf])
  moreover have "reset_conf r (branch_conf snow i) \<le> reset_conf r (Binary_confidence snow)" "0 \<le> reset_conf r (Binary_confidence snow)"
    using bc by (auto simp: reset_conf_def)
  moreover have "node_leaves n' = node_leaves (BinaryNode prefs b snow sr ch)"
    by (auto simp: e node_leaves_Binary)
  ultimately show ?thesis using f by (auto simp: poll_result_def e)
qed

lemma poll_result_binary_child:
  assumes inv: "node_inv p (BinaryNode prefs b snow sr ch)"
    and wf: "bag_wf votes" and i: "i = poll_bit p b votes"
    and n: "AlphaPreference p \<le> Bag_Len (branch_votes b i votes)" and some: "at2 ch i = Some c"
    and c: "node_RecordPoll p c (branch_votes b i votes) (r \<or> at2 sr i) = (c', mc, okc)"
    and IH: "poll_result p c (branch_votes b i votes) (r \<or> at2 sr i) c' mc"
    and res: "node_RecordPoll p (BinaryNode prefs b snow sr ch) votes r = (n', m, ok)"
  shows "poll_result p (BinaryNode prefs b snow sr ch) votes r n' m"
proof -
  let ?V = "branch_votes b i votes"
  let ?snow = "Binary_RecordPoll (binary_reset r snow) (Bag_Len ?V) i"
  have i2: "i < 2" by (simp add: i)
  have ok: "Binary_ok p snow" using inv by (simp add: node_inv_Binary)
  have br: "branch_inv p (at2 prefs j) b snow (at2 sr j) (at2 ch j) j" if "j < 2" for j
    using inv that by (simp add: node_inv_Binary)
  have nf: "\<not> Binary_Finalized snow" using br [OF i2] some by (simp add: branch_inv_def)
  note f = binary_poll_facts [OF ok nf n i2, of r] and bc = branch_conf_bounds [OF ok, of i]
  have dom: "reset_conf (r \<or> at2 sr i) (node_conf c) \<le> reset_conf r (branch_conf snow i)"
    using br [OF i2] some bc by (auto simp: reset_conf_def branch_inv_def)
  have leaves_c: "node_leaves c' = node_leaves c" and dp_c: "node_DecidedPrefix c' = node_DecidedPrefix c"
    and "node_inv p mc" using IH by (simp_all add: poll_result_def)
  have leaves: "node_leaves (BinaryNode prefs' b s' sr' (upd2 ch i (Some c'))) = node_leaves (BinaryNode prefs b snow sr ch)"
    if "\<And>j. j < 2 \<Longrightarrow> j \<noteq> i \<Longrightarrow> at2 prefs' j = at2 prefs j" for prefs' s' sr'
  proof -
    have "(case at2 (upd2 ch i (Some c')) j of None \<Rightarrow> {at2 prefs' j} | Some c \<Rightarrow> node_leaves c) =
        (case at2 ch j of None \<Rightarrow> {at2 prefs j} | Some c \<Rightarrow> node_leaves c)" if "j < 2" for j
      using i2 that some leaves_c \<open>j < 2 \<Longrightarrow> j \<noteq> i \<Longrightarrow> at2 prefs' j = at2 prefs j\<close>
      by (cases "j = i") (auto split: option.splits)
    then show ?thesis by (intro set_eqI) (simp add: node_leaves_Binary cong: conj_cong)
  qed
  have bounds: "Bag_Len ?V \<le> Bag_Len votes" by (rule Bag_Len_branch_votes [OF wf])
  have le: "reset_conf r (branch_conf snow i) \<le> reset_conf r (Binary_confidence snow)" "0 \<le> reset_conf r (Binary_confidence snow)"
    using bc by (auto simp: reset_conf_def)
  note res' = res [unfolded RecordPoll_Binary_child [OF n i some c]]
  show ?thesis
  proof (cases "Binary_Finalized ?snow")
    case True
    with res' have e: "n' = BinaryNode prefs b ?snow (upd2 (if r then upd2 sr i True else sr) (1 - i) True) (upd2 ch i (Some c'))" "m = mc"
      by (auto simp: Let_def)
    show ?thesis
      using True f bounds le \<open>node_inv p mc\<close> leaves [of prefs] by (auto simp: poll_result_def e)
  next
    case False
    with f(4) IH dom have nf': "\<not> node_Finalized c'" by (auto simp: poll_result_def)
    with IH have mc: "mc = c'" by (simp add: poll_result_def)
    let ?prefs = "upd2 prefs i (node_Preference c')"
    have e: "n' = BinaryNode ?prefs b ?snow (upd2 (True, True) i False) (upd2 ch i (Some c'))" "m = n'"
      using res' False by (auto simp: Let_def mc)
    have inv': "node_inv p c'" using \<open>node_inv p mc\<close> by (simp add: mc)
    have "node_Preference c' \<in> node_leaves c" using node_Preference_in_leaves [OF inv'] leaves_c by simp
    with branch_leaves_bit [OF br [OF i2], of "node_Preference c'"] some
    have bit': "ID_Bit (node_Preference c') b = i" and agr: "agree (Suc b) (node_Preference c') (at2 prefs i)" by simp_all
    have dom': "node_conf c' \<le> branch_conf ?snow i" using IH dom f(2) by (auto simp: poll_result_def split: if_splits)
    have "branch_inv p (at2 ?prefs j) b ?snow (at2 (upd2 (True, True) i False) j) (at2 (upd2 ch i (Some c')) j) j"
      if j: "j < 2" for j
    proof (cases "j = i")
      case True
      then show ?thesis using br [OF i2] some bit' dom' inv' False nf' dp_c by (simp add: branch_inv_def)
    next
      case ne: False
      then have "at2 (upd2 (True, True) i False) j" using i2 j by (auto simp: less_2_cases_iff)
      then show ?thesis using br [OF j] i2 j ne False by (auto simp: branch_inv_def split: option.splits)
    qed
    moreover have "agree b (at2 ?prefs 0) (at2 ?prefs 1)"
    proof -
      have a: "agree b (node_Preference c') (at2 prefs i)" using agr by (rule agree_mono) simp
      have b: "agree b (at2 prefs 0) (at2 prefs 1)" using inv by (simp add: node_inv_Binary)
      from i2 a b agree_trans [OF a, of "at2 prefs 1"] agree_trans [OF b agree_sym, of "node_Preference c'"]
      show ?thesis by (auto simp: less_2_cases_iff)
    qed
    ultimately have "node_inv p n'" using inv f(1) by (simp add: e node_inv_Binary)
    then show ?thesis
      using False f bounds le leaves [of ?prefs] i2 by (auto simp: poll_result_def e)
  qed
qed

lemma node_poll_result:
  assumes "node_inv p n" "\<not> node_Finalized n" "bag_wf votes" "node_RecordPoll p n votes r = (n', m, ok)"
  shows "poll_result p n votes r n' m"
  using assms
proof (induction n arbitrary: votes r n' m ok rule: node_induct)
  case (Unary pref dp cp snow sr ch)
  show ?case
  proof (cases "Bag_Len votes < AlphaPreference p")
    case True
    have "Unary_ok p snow" using Unary.prems by simp
    then have "reset_conf r (Unary_confidence snow) \<ge> 0" using unary.conf_nonneg by (auto simp: reset_conf_def)
    with Unary.prems True \<open>Unary_ok p snow\<close> show ?thesis
      by (auto simp: RecordPoll_Unary_low poll_result_def unary.conf_fail unary.fin_fail unary.ok_fail split: option.splits)
  next
    case False
    then have n: "AlphaPreference p \<le> Bag_Len votes" by simp
    show ?thesis
    proof (cases ch)
      case None
      then show ?thesis using poll_result_unary_leaf [OF _ _ n] Unary.prems by simp
    next
      case (Some c)
      obtain c' mc okc where c: "node_RecordPoll p c votes (r \<or> sr) = (c', mc, okc)" by (metis prod_cases3)
      have "poll_result p c votes (r \<or> sr) c' mc"
        using Unary.IH [OF Some _ _ _ c] Unary.prems Some by simp
      from poll_result_unary_child [OF _ n c this] Unary.prems Some show ?thesis by simp
    qed
  qed
next
  case (Binary prefs b snow sr ch)
  let ?i = "poll_bit p b votes"
  have ok: "Binary_ok p snow" using Binary.prems by (simp add: node_inv_Binary)
  show ?case
  proof (cases "Bag_Len (branch_votes b ?i votes) < AlphaPreference p")
    case True
    have "branch_inv p (at2 prefs j) b (Binary_RecordUnsuccessfulPoll snow) (at2 (True, True) j) (at2 ch j) j" if "j < 2" for j
      using Binary.prems that by (auto simp: node_inv_Binary branch_inv_def binary.fin_fail at2_def split: option.splits)
    then have "node_inv p (BinaryNode prefs b (Binary_RecordUnsuccessfulPoll snow) (True, True) ch)"
      using Binary.prems by (simp add: node_inv_Binary binary.ok_fail)
    moreover have "reset_conf r (Binary_confidence snow) \<ge> 0" using binary.conf_nonneg [OF ok] by (auto simp: reset_conf_def)
    moreover have "node_leaves (BinaryNode prefs b (Binary_RecordUnsuccessfulPoll snow) (True, True) ch) = node_leaves (BinaryNode prefs b snow sr ch)"
      by (auto simp: node_leaves_Binary)
    ultimately show ?thesis using Binary.prems(2,4) ok
      by (auto simp: RecordPoll_Binary_low [OF True] Let_def poll_result_def binary.conf_fail binary.fin_fail)
  next
    case False
    then have n: "AlphaPreference p \<le> Bag_Len (branch_votes b ?i votes)" by simp
    show ?thesis
    proof (cases "at2 ch ?i")
      case None
      then show ?thesis using poll_result_binary_leaf [OF _ _ _ refl n None] Binary.prems by simp
    next
      case (Some c)
      obtain c' mc okc where c: "node_RecordPoll p c (branch_votes b ?i votes) (r \<or> at2 sr ?i) = (c', mc, okc)"
        by (metis prod_cases3)
      have "branch_inv p (at2 prefs ?i) b snow (at2 sr ?i) (at2 ch ?i) ?i"
        using Binary.prems by (simp add: node_inv_Binary)
      then have "poll_result p c (branch_votes b ?i votes) (r \<or> at2 sr ?i) c' mc"
        using Binary.IH [OF Some _ _ _ c] Some by (simp add: branch_inv_def)
      from poll_result_binary_child [OF _ _ refl n Some c this] Binary.prems show ?thesis by simp
    qed
  qed
qed

section \<open>The choices that survive a poll\<close>

text \<open>The returned node decides between exactly the choices that agree with its preference on the
  newly decided prefix, which never gets shorter.\<close>

lemma poll_leaves_same:
  assumes "poll_result p n votes r m m"
  shows "node_DecidedPrefix n \<le> node_DecidedPrefix m \<and>
    node_leaves m = {x \<in> node_leaves n. agree (node_DecidedPrefix m) x (node_Preference m)}"
  using assms node_leaves_agree [of p m] by (auto simp: poll_result_def)

lemma node_poll_leaves:
  assumes "node_inv p n" "\<not> node_Finalized n" "bag_wf votes" "node_RecordPoll p n votes r = (n', m, ok)"
  shows "node_DecidedPrefix n \<le> node_DecidedPrefix m \<and>
    node_leaves m = {x \<in> node_leaves n. agree (node_DecidedPrefix m) x (node_Preference m)}"
  using assms
proof (induction n arbitrary: votes r n' m ok rule: node_induct)
  case (Unary pref dp cp snow sr ch)
  note R = node_poll_result [OF Unary.prems]
  show ?case
  proof (cases "m = n'")
    case True
    with R show ?thesis by (intro poll_leaves_same) simp
  next
    case False
    then have n: "AlphaPreference p \<le> Bag_Len votes"
      using Unary.prems by (cases "Bag_Len votes < AlphaPreference p") (auto simp: RecordPoll_Unary_low)
    show ?thesis
    proof (cases ch)
      case None
      with n False Unary.prems show ?thesis by (auto simp: RecordPoll_Unary_leaf Let_def)
    next
      case (Some c)
      obtain c' mc okc where c: "node_RecordPoll p c votes (r \<or> sr) = (c', mc, okc)" by (metis prod_cases3)
      with False Unary.prems Some have "m = mc"
        by (auto simp: RecordPoll_Unary_child [OF n c] Let_def split: if_splits)
      with Unary.IH [OF Some _ _ _ c] Unary.prems Some show ?thesis by auto
    qed
  qed
next
  case (Binary prefs b snow sr ch)
  let ?i = "poll_bit p b votes"
  note R = node_poll_result [OF Binary.prems]
  show ?case
  proof (cases "m = n'")
    case True
    with R show ?thesis by (intro poll_leaves_same) simp
  next
    case False
    then have n: "AlphaPreference p \<le> Bag_Len (branch_votes b ?i votes)"
      using Binary.prems by (cases "Bag_Len (branch_votes b ?i votes) < AlphaPreference p")
        (auto simp: RecordPoll_Binary_low Let_def)
    show ?thesis
    proof (cases "at2 ch ?i")
      case None
      with False Binary.prems show ?thesis by (auto simp: RecordPoll_Binary_leaf [OF n refl None] Let_def)
    next
      case (Some c)
      obtain c' mc okc where c: "node_RecordPoll p c (branch_votes b ?i votes) (r \<or> at2 sr ?i) = (c', mc, okc)"
        by (metis prod_cases3)
      have m: "m = mc" using False Binary.prems
        by (auto simp: RecordPoll_Binary_child [OF n refl Some c] Let_def split: if_splits)
      have br: "branch_inv p (at2 prefs j) b snow (at2 sr j) (at2 ch j) j" if "j < 2" for j
        using Binary.prems that by (simp add: node_inv_Binary)
      have IH: "Suc b \<le> node_DecidedPrefix m"
        "node_leaves m = {x \<in> node_leaves c. agree (node_DecidedPrefix m) x (node_Preference m)}"
        using Binary.IH [OF Some _ _ _ c] br [of ?i] Some by (simp_all add: branch_inv_def m)
      have inv: "node_inv p m" using R by (simp add: poll_result_def)
      from node_Preference_in_leaves [OF inv] IH have "node_Preference m \<in> node_leaves c" by simp
      with branch_leaves_bit [OF br, of ?i "node_Preference m"] Some
      have bit: "ID_Bit (node_Preference m) b = ?i" by simp
      have "x \<in> node_leaves (BinaryNode prefs b snow sr ch) \<and> agree (node_DecidedPrefix m) x (node_Preference m) \<longleftrightarrow>
          x \<in> node_leaves c \<and> agree (node_DecidedPrefix m) x (node_Preference m)" for x
      proof -
        have only: "j = ?i" if "j < 2" "x \<in> (case at2 ch j of None \<Rightarrow> {at2 prefs j} | Some c \<Rightarrow> node_leaves c)"
          "agree (node_DecidedPrefix m) x (node_Preference m)" for j
        proof -
          have "agree (Suc b) x (node_Preference m)" using that(3) IH(1) by (rule agree_mono)
          then show ?thesis using branch_leaves_bit(1) [OF br [OF that(1)] that(2)] bit by (simp add: agree_Suc)
        qed
        have "x \<in> node_leaves (BinaryNode prefs b snow sr ch)" if "x \<in> node_leaves c"
          unfolding node_leaves_Binary using Some that by (intro exI [of _ ?i]) simp
        moreover have "x \<in> node_leaves c" if "x \<in> node_leaves (BinaryNode prefs b snow sr ch)"
          "agree (node_DecidedPrefix m) x (node_Preference m)"
        proof -
          from that(1) obtain j where j: "j < 2" "x \<in> (case at2 ch j of None \<Rightarrow> {at2 prefs j} | Some c \<Rightarrow> node_leaves c)"
            unfolding node_leaves_Binary by blast
          with only [OF j that(2)] Some show ?thesis by simp
        qed
        ultimately show ?thesis by blast
      qed
      then show ?thesis using IH by auto
    qed
  qed
qed

section \<open>A finalized node\<close>

lemma finalized_childless: "node_inv p n \<Longrightarrow> node_Finalized n \<Longrightarrow> node_childless n"
proof (induction n rule: node.induct)
  case (BinaryNode prefs b snow sr ch)
  then have "at2 ch j = None" if "j < 2" for j
    using that by (cases "at2 ch j") (auto simp: node_inv_Binary branch_inv_def)
  from this [of 0] this [of 1] show ?case by (cases ch) auto
qed (auto split: option.splits)

text \<open>A poll of a finalized node changes neither its finality nor its preference.\<close>

lemma node_poll_finalized:
  assumes inv: "node_inv p n" and fin: "node_Finalized n" and res: "node_RecordPoll p n votes r = (n', m, ok)"
  shows "node_inv p m \<and> node_Finalized m \<and> node_Preference m = node_Preference n \<and>
    node_DecidedPrefix m = node_DecidedPrefix n \<and> node_leaves m = node_leaves n"
proof (cases n)
  case (UnaryNode pref dp cp snow sr ch)
  with finalized_childless [OF inv fin] have ch: "ch = None" by simp
  have ok: "Unary_ok p snow" using inv UnaryNode by simp
  show ?thesis
  proof (cases "Bag_Len votes < AlphaPreference p")
    case True
    with res inv fin ch UnaryNode ok show ?thesis
      by (auto simp: RecordPoll_Unary_low unary.ok_fail unary.conf_fail unary.fin_fail)
  next
    case False
    with res inv fin ch UnaryNode unary_poll_facts [OF ok, of r "Bag_Len votes"] show ?thesis
      by (auto simp: RecordPoll_Unary_leaf Let_def)
  qed
next
  case (BinaryNode prefs b snow sr ch)
  let ?i = "poll_bit p b votes"
  from BinaryNode finalized_childless [OF inv fin] have ch: "ch = (None, None)" by simp
  then have none: "at2 ch j = None" for j by (simp add: at2_def)
  have ok: "Binary_ok p snow" and fs: "Binary_Finalized snow" using inv fin BinaryNode by (simp_all add: node_inv_Binary)
  define snow' where "snow' = (if Bag_Len (branch_votes b ?i votes) < AlphaPreference p
    then Binary_RecordUnsuccessfulPoll snow
    else Binary_RecordPoll (binary_reset r snow) (Bag_Len (branch_votes b ?i votes)) ?i)"
  have "\<exists>sr'. m = BinaryNode prefs b snow' sr' ch"
    using res BinaryNode RecordPoll_Binary_low [of b p votes] RecordPoll_Binary_leaf [OF _ refl none, of p b votes]
    by (cases "Bag_Len (branch_votes b ?i votes) < AlphaPreference p") (auto simp: snow'_def Let_def)
  then obtain sr' where m: "m = BinaryNode prefs b snow' sr' ch" ..
  note rf = binary_reset_facts [OF ok, of r]
  have "Binary_ok p snow'" using ok rf(1) by (simp add: snow'_def binary.ok_fail binary.ok_poll)
  moreover have "Binary_Finalized snow' \<and> Binary_slush snow' = Binary_slush snow"
    using fs rf binary.fin_stays [of "binary_reset r snow"] by (simp add: snow'_def binary.fin_fail binary.slush_fail)
  ultimately show ?thesis
    using inv BinaryNode m fs binary.pref_fin [of snow] binary.pref_fin [of snow']
    by (simp add: node_inv_Binary branch_inv_def none node_leaves.simps)
qed

end
