(* ===== verification/Snow_Tree_Props.thy ===== *)
theory Snow_Tree_Props
  imports Snow_Tree_Inv
begin

text \<open>
  Adding choices to the snow tree, and the correctness of the tree as a consensus on one of the
  added choices: the tree invariant holds in every reachable state, the choices kept are exact,
  finality is irrevocable, and enough unanimous polls finalize an added choice.
\<close>

section \<open>Adding a choice\<close>

definition branch_leaves :: "ID \<Rightarrow> node option \<Rightarrow> ID set" where
  "branch_leaves pref ch = (case ch of None \<Rightarrow> {pref} | Some c \<Rightarrow> node_leaves c)"

lemma at2_upd2_flip [simp]: "i < 2 \<Longrightarrow> at2 (upd2 q i v) (Suc 0 - i) = at2 q (Suc 0 - i)"
  by (auto simp: less_2_cases_iff at2_def upd2_def)

lemma node_leaves_branches:
  "node_leaves (BinaryNode prefs b snow sr ch) =
     branch_leaves (at2 prefs 0) (at2 ch 0) \<union> branch_leaves (at2 prefs 1) (at2 ch 1)"
  by (simp add: node_leaves.simps branch_leaves_def)

lemma node_leaves_pair:
  "i < 2 \<Longrightarrow> j = 1 - i \<Longrightarrow> node_leaves (BinaryNode prefs b snow sr ch) =
     branch_leaves (at2 prefs i) (at2 ch i) \<union> branch_leaves (at2 prefs j) (at2 ch j)"
  by (auto simp: less_2_cases_iff node_leaves_branches)

text \<open>What adding a choice to a subtree guarantees.\<close>

definition add_result :: "Parameters \<Rightarrow> node \<Rightarrow> ID \<Rightarrow> node \<Rightarrow> bool" where
  "add_result p n x n' \<longleftrightarrow> node_inv p n' \<and> node_DecidedPrefix n' = node_DecidedPrefix n \<and>
     node_Preference n' = node_Preference n \<and> node_Finalized n' = node_Finalized n \<and>
     node_conf n' = node_conf n \<and> (node_is_binary n \<longrightarrow> node_is_binary n') \<and>
     (\<not> node_Finalized n \<longrightarrow> node_leaves n' = insert x (node_leaves n))"

text \<open>The binary node that splits a unary node on a bit.\<close>

definition split_binary :: "Factory \<Rightarrow> Parameters \<Rightarrow> ID \<Rightarrow> Unary \<Rightarrow> bool \<Rightarrow> nat \<Rightarrow> ID \<Rightarrow> node option \<Rightarrow> node" where
  "split_binary f p pref snow sr index x C =
     (let i = ID_Bit pref index
      in BinaryNode (upd2 (upd2 (ids_Empty, ids_Empty) i pref) (1 - i) x) index (Unary_Extend snow i) (sr, sr)
           (upd2 (upd2 (None, None) i C) (1 - i)
             (if C \<noteq> None then Some (UnaryNode x (index + 1) NumBits (Factory_NewUnary f p) False None) else None)))"

lemma unaryNode_split_eq:
  "unaryNode_split f p (UnaryNode pref dp cp snow sr ch) index x =
     (if dp = cp - 1 then split_binary f p pref snow sr index x ch
      else if index = dp then split_binary f p pref snow sr index x (Some (UnaryNode pref (dp + 1) cp snow sr ch))
      else if index = cp - 1
      then UnaryNode pref dp (cp - 1) snow sr (Some (split_binary f p pref snow sr index x ch))
      else UnaryNode pref dp index snow False
             (Some (split_binary f p pref snow sr index x (Some (UnaryNode pref (index + 1) cp snow sr ch)))))"
  by (simp only: unaryNode_split_def split_binary_def Let_def node.sel Unary_Clone_eq option.distinct if_True not_False_eq_True)

lemma split_node:
  assumes ok: "Unary_ok p snow" and nf: "\<not> Unary_Finalized snow" and ind: "index < NumBits"
    and agr: "agree index pref x" and i: "i = ID_Bit pref index" and j: "ID_Bit x index = 1 - i"
    and child: "branch_inv p pref index (Unary_Extend snow i) sr C i"
  shows "add_result p (UnaryNode pref index (Suc index) snow sr C) x (split_binary f p pref snow sr index x C) \<and>
    node_is_binary (split_binary f p pref snow sr index x C)"
proof -
  define new where "new = (if C \<noteq> None then Some (UnaryNode x (index + 1) NumBits (Factory_NewUnary f p) False None) else None)"
  define b where b_def_split [symmetric]: "b = split_binary f p pref snow sr index x C"
  have b_def: "b = BinaryNode (upd2 (upd2 (ids_Empty, ids_Empty) i pref) (1 - i) x) index (Unary_Extend snow i)
    (sr, sr) (upd2 (upd2 (None, None) i C) (1 - i) new)"
    by (simp add: b_def_split [symmetric] split_binary_def new_def i Let_def)
  have i2: "i < 2" using ID_Bit_cases [of pref index] by (auto simp: i)
  note flip = bit_flip(1,2) [OF i2]
  have at: "at2 (upd2 (upd2 q i u) (1 - i) v) i = u" "at2 (upd2 (upd2 q i u) (1 - i) v) (1 - i) = v" for q and u v :: 'z
    using i2 by (auto simp: less_2_cases_iff upd2_def at2_def)
  have sr: "at2 (sr, sr) k = sr" for k by (simp add: at2_def)
  have new: "branch_inv p x index (Unary_Extend snow i) sr new (1 - i)"
  proof (cases C)
    case None
    then show ?thesis using child j by (simp add: branch_inv_def new_def)
  next
    case (Some c)
    with child have "Suc index < NumBits" using node_inv_bounds [of p c] by (simp add: branch_inv_def)
    then show ?thesis using Some j flip nf by (simp add: branch_inv_def new_def branch_conf_def)
  qed
  have "branch_inv p (at2 (upd2 (upd2 (ids_Empty, ids_Empty) i pref) (1 - i) x) k) index (Unary_Extend snow i)
      (at2 (sr, sr) k) (at2 (upd2 (upd2 (None, None) i C) (1 - i) new) k) k" if "k < 2" for k
    using bit_flip(3) [OF i2 that] child new by (cases "k = i") (auto simp: at sr simp del: One_nat_def)
  moreover have "agree index (at2 (upd2 (upd2 (ids_Empty, ids_Empty) i pref) (1 - i) x) 0)
      (at2 (upd2 (upd2 (ids_Empty, ids_Empty) i pref) (1 - i) x) 1)"
    using i2 agr by (auto simp: less_2_cases_iff agree_sym)
  ultimately have "node_inv p b" using ok ind i2 by (simp add: b_def node_inv_Binary)
  moreover have "node_leaves b = insert x (branch_leaves pref C)"
    unfolding b_def node_leaves_pair [OF i2 refl] at by (auto simp: branch_leaves_def new_def)
  moreover have "node_Preference b = pref" "node_conf b = Unary_confidence snow" "\<not> node_Finalized b"
    "node_DecidedPrefix b = index" "node_is_binary b"
    using nf by (simp_all add: b_def at del: One_nat_def)
  ultimately show ?thesis unfolding b_def_split using nf by (simp add: add_result_def branch_leaves_def)
qed

lemma unaryNode_split_result:
  assumes inv: "node_inv p (UnaryNode pref dp cp snow sr ch)" and nf: "\<not> Unary_Finalized snow"
    and diff: "FirstDifferenceSubset dp cp pref x = Some index" and agr: "agree dp pref x"
  shows "add_result p (UnaryNode pref dp cp snow sr ch) x
    (unaryNode_split f p (UnaryNode pref dp cp snow sr ch) index x)"
proof -
  let ?u = "UnaryNode pref dp cp snow sr ch"
  let ?i = "ID_Bit pref index"
  let ?u' = "UnaryNode pref (index + 1) cp snow sr ch"
  have ok: "Unary_ok p snow" and sr: "sr \<longrightarrow> Unary_confidence snow = 0" using inv by simp_all
  from FirstDifferenceSubset_Some_agree [OF diff agr]
  have ind: "dp \<le> index" "index < cp" "cp \<le> NumBits" "index < NumBits" "agree index pref x" "ID_Bit x index = 1 - ?i"
    by auto
  note split = split_node [OF ok nf ind(4,5) refl ind(6), where f = f]
  have ch: "branch_inv p pref index (Unary_Extend snow ?i) sr ch ?i" if "Suc index = cp"
    using inv that by (auto simp: branch_inv_def branch_conf_def split: option.splits)
  have u': "branch_inv p pref index (Unary_Extend snow ?i) sr (Some ?u') ?i" if "Suc index < cp"
    using inv that nf by (auto simp: branch_inv_def branch_conf_def)
  consider "dp = cp - 1" | "dp \<noteq> cp - 1" "index = dp" | "dp \<noteq> cp - 1" "index \<noteq> dp" "index = cp - 1"
    | "dp \<noteq> cp - 1" "index \<noteq> dp" "index \<noteq> cp - 1" by blast
  then show ?thesis
  proof cases
    case 1
    with ind have "Suc index = cp" "index = dp" by auto
    with split [OF ch] 1 show ?thesis by (simp add: unaryNode_split_eq add_result_def)
  next
    case 2
    with ind have "Suc index < cp" by auto
    with split [OF u'] 2 nf show ?thesis by (simp add: unaryNode_split_eq add_result_def)
  next
    case 3
    with ind have "Suc index = cp" "dp < index" by auto
    with split [OF ch] 3 nf inv show ?thesis by (auto simp: unaryNode_split_eq add_result_def)
  next
    case 4
    with ind have "Suc index < cp" "dp < index" by auto
    with split [OF u'] 4 nf inv ind show ?thesis by (auto simp: unaryNode_split_eq add_result_def)
  qed
qed

lemma node_Add_result:
  assumes "node_inv p n" "agree (node_DecidedPrefix n) (node_Preference n) x"
  shows "add_result p n x (node_Add f p n x)"
  using assms
proof (induction n rule: node_induct)
  case (Unary pref dp cp snow sr ch)
  show ?case
  proof (cases "Unary_Finalized snow")
    case True
    with Unary.prems show ?thesis by (simp add: add_result_def)
  next
    case nf: False
    show ?thesis
    proof (cases "FirstDifferenceSubset dp cp pref x")
      case None
      have agr: "agree cp pref x"
        using FirstDifferenceSubset_None_agree [OF None] Unary.prems by simp
      show ?thesis
      proof (cases ch)
        case None2: None
        with Unary.prems agr have "x = pref" by (simp add: agree_NumBits)
        with Unary.prems None None2 nf show ?thesis by (simp add: add_result_def)
      next
        case (Some c)
        with Unary.IH [OF Some] Unary.prems agr have "add_result p c x (node_Add f p c x)" by simp
        with Unary.prems Some None nf show ?thesis by (auto simp: add_result_def)
      qed
    next
      case (Some index)
      with unaryNode_split_result [OF Unary.prems(1) nf Some] Unary.prems nf show ?thesis by simp
    qed
  qed
next
  case (Binary prefs b snow sr ch)
  let ?i = "ID_Bit x b"
  have i: "?i < 2" using ID_Bit_cases [of x b] by auto
  have br: "branch_inv p (at2 prefs k) b snow (at2 sr k) (at2 ch k) k" if "k < 2" for k
    using Binary.prems that by (simp add: node_inv_Binary)
  have prefs: "agree b (at2 prefs 0) (at2 prefs 1)" and ok: "Binary_ok p snow"
    using Binary.prems by (simp_all add: node_inv_Binary)
  have agr: "agree (Suc b) (at2 prefs ?i) x"
  proof -
    have "agree b (at2 prefs k) (at2 prefs l)" if "k < 2" "l < 2" for k l
      using that prefs by (auto simp: less_2_cases_iff agree_sym)
    then have "agree b (at2 prefs ?i) x"
      using Binary.prems(2) i binary.pref_bit [OF ok] by (auto intro: agree_trans)
    then show ?thesis using br [OF i] by (simp add: agree_Suc branch_inv_def)
  qed
  show ?case
  proof (cases "at2 ch ?i")
    case None
    with br [OF i] agr have "x = at2 prefs ?i" by (simp add: branch_inv_def agree_NumBits)
    then have "x \<in> node_leaves (BinaryNode prefs b snow sr ch)"
      unfolding node_leaves_Binary using i None by (intro exI [of _ ?i]) simp
    with Binary.prems None show ?thesis by (auto simp: add_result_def Let_def)
  next
    case (Some c)
    let ?c = "node_Add f p c x"
    have IH: "add_result p c x ?c" using Binary.IH [OF Some] br [OF i] Some agr by (simp add: branch_inv_def)
    have nf: "\<not> node_Finalized c" using br [OF i] Some by (simp add: branch_inv_def)
    have "branch_inv p (at2 prefs k) b snow (at2 sr k) (at2 (upd2 ch ?i (Some ?c)) k) k" if "k < 2" for k
      using br [OF that] that i IH Some by (cases "k = ?i") (auto simp: branch_inv_def add_result_def)
    moreover have "node_leaves (BinaryNode prefs b snow sr (upd2 ch ?i (Some ?c))) =
        insert x (node_leaves (BinaryNode prefs b snow sr ch))"
      using i IH nf Some
      by (simp add: node_leaves_pair [OF i refl] branch_leaves_def add_result_def)
    ultimately show ?thesis using Binary.prems Some by (simp add: add_result_def Let_def node_inv_Binary)
  qed
qed

section \<open>Reachable trees\<close>

text \<open>The choices a tree still decides between.\<close>

definition Tree_choices :: "Tree \<Rightarrow> ID set" where
  "Tree_choices t = node_leaves (tree_node t)"

definition tree_inv :: "Tree \<Rightarrow> bool" where
  "tree_inv t \<longleftrightarrow> node_inv (tree_params t) (tree_node t)"

text \<open>A tree reached from a new tree by the operations of the \<open>Consensus\<close> interface, with
  the set of choices that were offered to it.\<close>

inductive tree_reach :: "Factory \<Rightarrow> Parameters \<Rightarrow> ID set \<Rightarrow> Tree \<Rightarrow> bool" for f p where
  start: "tree_reach f p {choice} (NewTree f p choice)"
| add: "tree_reach f p A t \<Longrightarrow> tree_reach f p (insert choice A) (Tree_Add t choice)"
| poll: "tree_reach f p A t \<Longrightarrow> bag_wf votes \<Longrightarrow> tree_reach f p A (fst (Tree_RecordPoll t votes))"
| failed: "tree_reach f p A t \<Longrightarrow> tree_reach f p A (Tree_RecordUnsuccessfulPoll t)"

lemma NewTree_inv: "tree_inv (NewTree f p choice)" "Tree_choices (NewTree f p choice) = {choice}"
  by (simp_all add: tree_inv_def Tree_choices_def NewTree_def NumBits_def)

lemma NewTree_live [simp]:
  "\<not> Tree_Finalized (NewTree f p choice)" "node_DecidedPrefix (tree_node (NewTree f p choice)) = 0"
  by (simp_all add: Tree_Finalized_def NewTree_def)

lemma Tree_Add_facts:
  assumes "tree_inv t"
  shows "tree_inv (Tree_Add t x)" "Tree_Preference (Tree_Add t x) = Tree_Preference t"
    "Tree_Finalized (Tree_Add t x) = Tree_Finalized t"
    "node_DecidedPrefix (tree_node (Tree_Add t x)) = node_DecidedPrefix (tree_node t)"
    "\<not> Tree_Finalized t \<Longrightarrow> Tree_choices (Tree_Add t x) =
       (if agree (node_DecidedPrefix (tree_node t)) (Tree_Preference t) x then insert x (Tree_choices t)
        else Tree_choices t)"
    "tree_params (Tree_Add t x) = tree_params t"
proof -
  let ?n = "tree_node t"
  have inv: "node_inv (tree_params t) ?n" using assms by (simp add: tree_inv_def)
  have eq: "EqualSubset 0 (node_DecidedPrefix ?n) (Tree_Preference t) x \<longleftrightarrow>
      agree (node_DecidedPrefix ?n) (node_Preference ?n) x"
    using node_inv_bounds [OF inv] by (simp add: EqualSubset_agree Tree_Preference_def)
  note add = node_Add_result [OF inv, of x "tree_factory t"]
  show "tree_inv (Tree_Add t x)" "Tree_Preference (Tree_Add t x) = Tree_Preference t"
    "Tree_Finalized (Tree_Add t x) = Tree_Finalized t"
    "node_DecidedPrefix (tree_node (Tree_Add t x)) = node_DecidedPrefix (tree_node t)"
    "\<not> Tree_Finalized t \<Longrightarrow> Tree_choices (Tree_Add t x) =
       (if agree (node_DecidedPrefix (tree_node t)) (Tree_Preference t) x then insert x (Tree_choices t)
        else Tree_choices t)"
    "tree_params (Tree_Add t x) = tree_params t"
    using inv add by (simp_all add: Tree_Add_def eq [unfolded Tree_Preference_def] add_result_def tree_inv_def Tree_Preference_def
        Tree_Finalized_def Tree_choices_def)
qed

text \<open>The node and the success flag a tree poll computes.\<close>

lemma Tree_RecordPoll_eq:
  assumes "tree_inv t"
  shows "Tree_RecordPoll t votes =
    (case node_RecordPoll (tree_params t) (tree_node t)
        (Bag_Filter (agree (node_DecidedPrefix (tree_node t)) (Tree_Preference t)) votes) (tree_shouldReset t)
     of (_, m, ok) \<Rightarrow> (t\<lparr>tree_node := m, tree_shouldReset := False\<rparr>, ok))"
proof -
  have "(\<lambda>x. EqualSubset 0 (node_DecidedPrefix (tree_node t)) (Tree_Preference t) x) =
      agree (node_DecidedPrefix (tree_node t)) (Tree_Preference t)"
    using assms node_inv_bounds by (fastforce simp: tree_inv_def EqualSubset_agree)
  then show ?thesis by (simp add: Tree_RecordPoll_def Let_def)
qed

lemma Tree_RecordPoll_facts:
  assumes inv: "tree_inv t" and wf: "bag_wf votes"
  defines "t' \<equiv> fst (Tree_RecordPoll t votes)"
  shows "tree_inv t'" "tree_params t' = tree_params t" "\<not> tree_shouldReset t'"
    "Tree_Finalized t \<Longrightarrow> Tree_Finalized t' \<and> Tree_Preference t' = Tree_Preference t"
    "node_DecidedPrefix (tree_node t) \<le> node_DecidedPrefix (tree_node t')"
    "Tree_choices t' = {x \<in> Tree_choices t. agree (node_DecidedPrefix (tree_node t')) x (Tree_Preference t')}"
proof -
  let ?p = "tree_params t" and ?n = "tree_node t"
  let ?V = "Bag_Filter (agree (node_DecidedPrefix (tree_node t)) (Tree_Preference t)) votes"
  obtain n' m ok where res: "node_RecordPoll ?p ?n ?V (tree_shouldReset t) = (n', m, ok)" by (metis prod_cases3)
  have t': "t' = t\<lparr>tree_node := m, tree_shouldReset := False\<rparr>"
    by (simp add: t'_def Tree_RecordPoll_eq [OF inv] res)
  have ninv: "node_inv ?p ?n" and wfV: "bag_wf ?V" using inv wf by (simp_all add: tree_inv_def)
  show "tree_params t' = tree_params t" "\<not> tree_shouldReset t'" by (simp_all add: t')
  show "Tree_Finalized t \<Longrightarrow> Tree_Finalized t' \<and> Tree_Preference t' = Tree_Preference t"
    using node_poll_finalized [OF ninv _ res] by (simp add: t' Tree_Finalized_def Tree_Preference_def)
  have "node_inv ?p m \<and> node_DecidedPrefix ?n \<le> node_DecidedPrefix m \<and>
    node_leaves m = {x \<in> node_leaves ?n. agree (node_DecidedPrefix m) x (node_Preference m)}"
  proof (cases "node_Finalized ?n")
    case True
    from node_poll_finalized [OF ninv True res] node_leaves_agree [OF ninv] show ?thesis by auto
  next
    case False
    from node_poll_result [OF ninv False wfV res] node_poll_leaves [OF ninv False wfV res]
    show ?thesis by (simp add: poll_result_def)
  qed
  then show "tree_inv t'" "node_DecidedPrefix (tree_node t) \<le> node_DecidedPrefix (tree_node t')"
    "Tree_choices t' = {x \<in> Tree_choices t. agree (node_DecidedPrefix (tree_node t')) x (Tree_Preference t')}"
    by (simp_all add: t' tree_inv_def Tree_choices_def Tree_Preference_def)
qed

lemma Tree_RecordUnsuccessfulPoll_facts [simp]:
  "tree_inv (Tree_RecordUnsuccessfulPoll t) = tree_inv t"
  "Tree_choices (Tree_RecordUnsuccessfulPoll t) = Tree_choices t"
  "Tree_Preference (Tree_RecordUnsuccessfulPoll t) = Tree_Preference t"
  "Tree_Finalized (Tree_RecordUnsuccessfulPoll t) = Tree_Finalized t"
  by (simp_all add: Tree_RecordUnsuccessfulPoll_def tree_inv_def Tree_choices_def Tree_Preference_def Tree_Finalized_def)

lemma Tree_Add_finalized:
  assumes "tree_inv t" "Tree_Finalized t"
  shows "Tree_Add t x = t"
proof -
  have "node_Add f' p' n x = n" if "node_inv p' n" "node_Finalized n" for f' p' n
    using finalized_childless [OF that] that(2) by (cases n) (auto simp: at2_def Let_def)
  with assms show ?thesis by (simp add: Tree_Add_def Tree_Finalized_def tree_inv_def Let_def)
qed

lemma Tree_Add_choices:
  assumes inv: "tree_inv t"
  shows "Tree_choices (Tree_Add t x) \<subseteq> insert x (Tree_choices t)"
  using Tree_Add_finalized [OF inv, of x] Tree_Add_facts(5) [OF inv, of x] by (cases "Tree_Finalized t") auto

lemma tree_reach_inv: "tree_reach f p A t \<Longrightarrow> tree_inv t \<and> Tree_choices t \<subseteq> A"
proof (induction rule: tree_reach.induct)
  case (start choice)
  show ?case by (simp add: NewTree_inv)
next
  case (add A t choice)
  with Tree_Add_facts(1) [of t] Tree_Add_choices [of t choice] show ?case by blast
next
  case (poll A t votes)
  with Tree_RecordPoll_facts [of t votes] show ?case by auto
qed simp

section \<open>Unanimous polls\<close>

definition unanimous :: "ID \<Rightarrow> ID Bag \<Rightarrow> bool" where
  "unanimous x votes \<longleftrightarrow> bag_wf votes \<and> (\<forall>y \<in># Bag_mset votes. y = x)"

lemma unanimous_filter:
  assumes "unanimous x votes" "P x"
  shows "unanimous x (Bag_Filter P votes)" "Bag_Len (Bag_Filter P votes) = Bag_Len votes"
proof -
  have wf: "bag_wf votes" and all: "\<And>y. y \<in># Bag_mset votes \<Longrightarrow> y = x" using assms by (simp_all add: unanimous_def)
  show "unanimous x (Bag_Filter P votes)" using wf all by (auto simp: unanimous_def bag.votes_restrict)
  show "Bag_Len (Bag_Filter P votes) = Bag_Len votes" using assms(2) all by (intro bag.len_all [OF wf]) auto
qed

lemma unanimous_branch:
  assumes "unanimous x votes"
  shows "unanimous x (branch_votes b (ID_Bit x b) votes)" "Bag_Len (branch_votes b (ID_Bit x b) votes) = Bag_Len votes"
  using unanimous_filter [OF assms, of "\<lambda>y. ID_Bit y b = ID_Bit x b"] by (simp_all add: branch_votes_def)

lemma unanimous_bit:
  assumes u: "unanimous x votes" and a: "0 < AlphaPreference p" "AlphaPreference p \<le> Bag_Len votes"
  shows "poll_bit p b votes = ID_Bit x b"
proof (cases "ID_Bit x b = 1")
  case True
  then show ?thesis using unanimous_branch(2) [OF u, of b] a by (simp add: poll_bit_def)
next
  case False
  then have z: "ID_Bit x b = 0" using ID_Bit_cases [of x b] by simp
  have wf: "bag_wf votes" using u by (simp add: unanimous_def)
  have "filter_mset (\<lambda>y. ID_Bit y b = 1) (Bag_mset votes) = {#}"
    using u z by (auto simp: unanimous_def intro!: multiset_eqI)
  then have "Bag_Len (branch_votes b 1 votes) = 0"
    by (simp add: branch_votes_def Bag_Len_mset bag.votes_restrict [OF wf])
  then show ?thesis using a z by (simp add: poll_bit_def)
qed

text \<open>Every instance on the path of a choice has at least a given confidence for it, and no
  reset is pending on the path.\<close>

fun on_path :: "int \<Rightarrow> ID \<Rightarrow> node \<Rightarrow> bool" where
  "on_path j x (UnaryNode pref dp cp snow sr ch) \<longleftrightarrow> j \<le> Unary_confidence snow \<and>
     (case ch of None \<Rightarrow> True | Some c \<Rightarrow> \<not> sr \<and> on_path j x c)"
| "on_path j x (BinaryNode prefs b snow sr ch) \<longleftrightarrow> j \<le> branch_conf snow (ID_Bit x b) \<and>
     (case at2 ch (ID_Bit x b) of None \<Rightarrow> True | Some c \<Rightarrow> \<not> at2 sr (ID_Bit x b) \<and> on_path j x c)"

definition path_before :: "int \<Rightarrow> ID \<Rightarrow> node \<Rightarrow> bool \<Rightarrow> bool" where
  "path_before j x n r \<longleftrightarrow> j = 0 \<or> 0 < j \<and> \<not> r \<and> on_path j x n"

definition path_after :: "Parameters \<Rightarrow> int \<Rightarrow> ID \<Rightarrow> node \<Rightarrow> bool" where
  "path_after p j x m \<longleftrightarrow> x \<in> node_leaves m \<and>
     (if node_Finalized m then node_Preference m = x else on_path j x m \<and> j < Beta p)"

lemma unanimous_poll_unary:
  assumes inv: "node_inv p (UnaryNode pref dp cp snow sr ch)" and nf: "\<not> Unary_Finalized snow"
    and x: "x \<in> node_leaves (UnaryNode pref dp cp snow sr ch)"
    and wf: "bag_wf votes" and n: "AlphaPreference p \<le> AlphaConfidence p" "AlphaConfidence p \<le> Bag_Len votes"
    and j: "path_before j x (UnaryNode pref dp cp snow sr ch) r"
    and IH: "\<And>c c' mc okc. ch = Some c \<Longrightarrow> node_RecordPoll p c votes (r \<or> sr) = (c', mc, okc) \<Longrightarrow>
      path_before j x c (r \<or> sr) \<Longrightarrow> path_after p (j + 1) x mc"
    and res: "node_RecordPoll p (UnaryNode pref dp cp snow sr ch) votes r = (n', m, ok)"
  shows "path_after p (j + 1) x m"
proof -
  let ?snow = "Unary_RecordPoll (unary_reset r snow) (Bag_Len votes)"
  have a: "AlphaPreference p \<le> Bag_Len votes" using n by simp
  have ok: "Unary_ok p snow" using inv by simp
  note f = unary_poll_facts [OF ok, of r "Bag_Len votes"]
  have conf: "j + 1 \<le> Unary_confidence ?snow" "Unary_Finalized ?snow \<or> j + 1 < Beta p"
    using j n f unary.conf_nonneg [OF ok] by (auto simp: path_before_def reset_conf_def)
  show ?thesis
  proof (cases ch)
    case None
    then have "n' = UnaryNode pref dp cp ?snow False None" "m = n'"
      using res by (auto simp: RecordPoll_Unary_leaf [OF a] Let_def)
    then show ?thesis using conf x None by (auto simp: path_after_def)
  next
    case (Some c)
    obtain c' mc okc where c: "node_RecordPoll p c votes (r \<or> sr) = (c', mc, okc)" by (metis prod_cases3)
    have pa: "path_after p (j + 1) x mc"
      using IH [OF Some c] j Some by (auto simp: path_before_def)
    note res' = res [unfolded Some RecordPoll_Unary_child [OF a c]]
    show ?thesis
    proof (cases "Unary_Finalized ?snow")
      case True
      then have e: "n' = UnaryNode pref dp cp ?snow (r \<or> sr) (Some c')" "m = mc" using res' by (auto simp: Let_def)
      then show ?thesis using pa by simp
    next
      case False
      then have e: "n' = UnaryNode (node_Preference c') dp cp ?snow False (Some c')" "m = n'"
        using res' by (auto simp: Let_def)
      have "node_inv p m" using node_poll_result [OF inv _ wf res] nf by (simp add: poll_result_def)
      with e have "\<not> node_Finalized c'" by simp
      moreover have "poll_result p c votes (r \<or> sr) c' mc" using node_poll_result [OF _ _ wf c] inv Some by simp
      ultimately have "mc = c'" by (simp add: poll_result_def)
      then show ?thesis using False pa conf e \<open>\<not> node_Finalized c'\<close> by (auto simp: path_after_def)
    qed
  qed
qed

lemma unanimous_poll_binary:
  assumes inv: "node_inv p (BinaryNode prefs b snow sr ch)" and nf: "\<not> Binary_Finalized snow"
    and x: "x \<in> node_leaves (BinaryNode prefs b snow sr ch)"
    and u: "unanimous x votes" and n: "0 < AlphaPreference p" "AlphaPreference p \<le> AlphaConfidence p"
      "AlphaConfidence p \<le> Bag_Len votes"
    and j: "path_before j x (BinaryNode prefs b snow sr ch) r"
    and IH: "\<And>c c' mc okc. at2 ch (ID_Bit x b) = Some c \<Longrightarrow> x \<in> node_leaves c \<Longrightarrow>
      node_RecordPoll p c (branch_votes b (ID_Bit x b) votes) (r \<or> at2 sr (ID_Bit x b)) = (c', mc, okc) \<Longrightarrow>
      path_before j x c (r \<or> at2 sr (ID_Bit x b)) \<Longrightarrow> path_after p (j + 1) x mc"
    and res: "node_RecordPoll p (BinaryNode prefs b snow sr ch) votes r = (n', m, ok)"
  shows "path_after p (j + 1) x m"
proof -
  let ?i = "ID_Bit x b"
  let ?V = "branch_votes b ?i votes"
  let ?snow = "Binary_RecordPoll (binary_reset r snow) (Bag_Len ?V) ?i"
  have wf: "bag_wf votes" using u by (simp add: unanimous_def)
  have i2: "?i < 2" using ID_Bit_cases [of x b] by auto
  have len: "Bag_Len ?V = Bag_Len votes" using unanimous_branch [OF u] by simp
  have a: "AlphaPreference p \<le> Bag_Len ?V" using n len by simp
  have i: "?i = poll_bit p b votes" using unanimous_bit [OF u n(1)] n by simp
  have ok: "Binary_ok p snow" using inv by (simp add: node_inv_Binary)
  have br: "branch_inv p (at2 prefs k) b snow (at2 sr k) (at2 ch k) k" if "k < 2" for k
    using inv that by (simp add: node_inv_Binary)
  have xi: "x \<in> (case at2 ch ?i of None \<Rightarrow> {at2 prefs ?i} | Some c \<Rightarrow> node_leaves c)"
  proof -
    from x obtain k where k: "k < 2" "x \<in> (case at2 ch k of None \<Rightarrow> {at2 prefs k} | Some c \<Rightarrow> node_leaves c)"
      unfolding node_leaves_Binary by blast
    have "?i = k" by (rule branch_leaves_bit(1) [OF br [OF k(1)] k(2)])
    with k(2) show ?thesis by (simp only:)
  qed
  note f = binary_poll_facts [OF ok nf a i2, of r] and bc = branch_conf_bounds [OF ok, of ?i]
  have conf: "j + 1 \<le> branch_conf ?snow ?i" "Binary_Finalized ?snow \<or> j + 1 < Beta p"
    using j n f bc len by (auto simp: path_before_def reset_conf_def)
  show ?thesis
  proof (cases "at2 ch ?i")
    case None
    then have e: "m = BinaryNode prefs b ?snow (upd2 (True, True) ?i False) ch"
      using res by (auto simp: RecordPoll_Binary_leaf [OF a i None] Let_def)
    have "Binary_slush ?snow = ?i" if "Binary_Finalized ?snow"
      using binary.slush_poll [OF binary_reset_facts(1) [OF ok, of r] _ a] binary_reset_facts(3) [OF ok, of r] nf by simp
    then have "node_Preference m = x" if "node_Finalized m"
      using that None xi binary.pref_fin by (auto simp: e)
    moreover have "x \<in> node_leaves m" using x by (simp add: e node_leaves_Binary)
    ultimately show ?thesis using conf None by (auto simp: path_after_def e)
  next
    case (Some c)
    obtain c' mc okc where c: "node_RecordPoll p c ?V (r \<or> at2 sr ?i) = (c', mc, okc)" by (metis prod_cases3)
    have pa: "path_after p (j + 1) x mc"
      using IH [OF Some _ c] xi j Some by (auto simp: path_before_def)
    note res' = res [unfolded RecordPoll_Binary_child [OF a i Some c]]
    show ?thesis
    proof (cases "Binary_Finalized ?snow")
      case True
      then have "m = mc" using res' by (auto simp: Let_def)
      then show ?thesis using pa by simp
    next
      case False
      let ?ch = "upd2 ch ?i (Some c')"
      have e: "m = BinaryNode (upd2 prefs ?i (node_Preference mc)) b ?snow (upd2 (True, True) ?i False) ?ch" "m = n'"
        using res' False by (auto simp: Let_def)
      have R: "poll_result p (BinaryNode prefs b snow sr ch) votes r n' m" using node_poll_result [OF inv _ wf res] nf by simp
      then have "branch_inv p (at2 (upd2 prefs ?i (node_Preference mc)) ?i) b ?snow (at2 (upd2 (True, True) ?i False) ?i) (at2 ?ch ?i) ?i"
        using i2 by (simp only: poll_result_def e(1) node_inv_Binary)
      then have "\<not> node_Finalized c'" by (simp add: branch_inv_def)
      moreover have "poll_result p c ?V (r \<or> at2 sr ?i) c' mc"
        using node_poll_result [OF _ _ _ c] br [OF i2] Some by (simp add: branch_inv_def)
      ultimately have mc: "mc = c'" by (simp add: poll_result_def)
      have "x \<in> node_leaves m" using R x e(2) by (simp add: poll_result_def)
      then show ?thesis using False pa conf \<open>\<not> node_Finalized c'\<close> mc by (auto simp: path_after_def e(1))
    qed
  qed
qed

lemma unanimous_poll:
  assumes "0 < AlphaPreference p" "AlphaPreference p \<le> AlphaConfidence p"
    and "node_inv p n" "\<not> node_Finalized n" "x \<in> node_leaves n" "unanimous x votes"
      "AlphaConfidence p \<le> Bag_Len votes" "path_before j x n r" "node_RecordPoll p n votes r = (n', m, ok)"
  shows "path_after p (j + 1) x m"
  using assms(3-)
proof (induction n arbitrary: votes r n' m ok rule: node_induct)
  case (Unary pref dp cp snow sr ch)
  have wf: "bag_wf votes" using Unary.prems by (simp add: unanimous_def)
  show ?case
  proof (rule unanimous_poll_unary [OF Unary.prems(1) _ Unary.prems(3) wf assms(2) Unary.prems(5,6) _ Unary.prems(7)])
    show "\<not> Unary_Finalized snow" using Unary.prems by simp
    fix c c' mc okc
    assume c: "ch = Some c" "node_RecordPoll p c votes (r \<or> sr) = (c', mc, okc)" "path_before j x c (r \<or> sr)"
    with Unary.prems show "path_after p (j + 1) x mc" by (intro Unary.IH [OF c(1) _ _ _ Unary.prems(4) _ c(3,2)]) simp_all
  qed
next
  case (Binary prefs b snow sr ch)
  show ?case
  proof (rule unanimous_poll_binary [OF Binary.prems(1) _ Binary.prems(3,4) assms(1,2) Binary.prems(5,6) _ Binary.prems(7)])
    show "\<not> Binary_Finalized snow" using Binary.prems by simp
    let ?i = "ID_Bit x b"
    fix c c' mc okc
    assume c: "at2 ch ?i = Some c" "x \<in> node_leaves c"
      "node_RecordPoll p c (branch_votes b ?i votes) (r \<or> at2 sr ?i) = (c', mc, okc)" "path_before j x c (r \<or> at2 sr ?i)"
    have i2: "?i < 2" using ID_Bit_cases [of x b] by auto
    with Binary.prems have "branch_inv p (at2 prefs ?i) b snow (at2 sr ?i) (at2 ch ?i) ?i" by (simp add: node_inv_Binary)
    then show "path_after p (j + 1) x mc"
      using c unanimous_branch [OF Binary.prems(4), of b] Binary.prems
      by (intro Binary.IH [OF c(1) _ _ c(2) _ _ c(4,3)]) (simp_all add: branch_inv_def)
  qed
qed

section \<open>The properties of the tree\<close>

lemma Tree_Preference_in_choices: "tree_inv t \<Longrightarrow> Tree_Preference t \<in> Tree_choices t"
  by (simp add: tree_inv_def Tree_Preference_def Tree_choices_def node_Preference_in_leaves)

lemma Tree_choices_agree:
  "tree_inv t \<Longrightarrow> x \<in> Tree_choices t \<Longrightarrow> agree (node_DecidedPrefix (tree_node t)) x (Tree_Preference t)"
  by (simp add: tree_inv_def Tree_Preference_def Tree_choices_def node_leaves_agree)

inductive tree_step :: "Tree \<Rightarrow> Tree \<Rightarrow> bool" where
  step_add: "tree_step t (Tree_Add t choice)"
| step_poll: "bag_wf votes \<Longrightarrow> tree_step t (fst (Tree_RecordPoll t votes))"
| step_failed: "tree_step t (Tree_RecordUnsuccessfulPoll t)"

definition tree_extends :: "Tree \<Rightarrow> Tree \<Rightarrow> bool" where
  "tree_extends t t' \<longleftrightarrow> tree_inv t' \<and> tree_params t' = tree_params t \<and>
     node_DecidedPrefix (tree_node t) \<le> node_DecidedPrefix (tree_node t') \<and>
     agree (node_DecidedPrefix (tree_node t)) (Tree_Preference t') (Tree_Preference t) \<and>
     (Tree_Finalized t \<longrightarrow> Tree_Finalized t' \<and> Tree_Preference t' = Tree_Preference t)"

lemma tree_step_extends: "tree_step t t' \<Longrightarrow> tree_inv t \<Longrightarrow> tree_extends t t'"
proof (induction rule: tree_step.induct)
  case (step_add t choice)
  then show ?case using Tree_Add_facts [of t choice] by (simp add: tree_extends_def)
next
  case (step_poll votes t)
  let ?t = "fst (Tree_RecordPoll t votes)"
  note f = Tree_RecordPoll_facts [OF step_poll.prems step_poll.hyps]
  have "Tree_Preference ?t \<in> Tree_choices t" using Tree_Preference_in_choices [OF f(1)] f(6) by auto
  then show ?case using f Tree_choices_agree [OF step_poll.prems] by (simp add: tree_extends_def)
next
  case (step_failed t)
  then show ?case
    by (simp add: tree_extends_def) (simp add: Tree_RecordUnsuccessfulPoll_def)
qed

lemma tree_steps_extend: "tree_step\<^sup>*\<^sup>* t t' \<Longrightarrow> tree_inv t \<Longrightarrow> tree_extends t t'"
proof (induction rule: rtranclp_induct)
  case base
  then show ?case by (simp add: tree_extends_def)
next
  case (step u v)
  then have e: "tree_extends t u" "tree_extends u v" using tree_step_extends by (auto simp: tree_extends_def)
  then have "agree (node_DecidedPrefix (tree_node t)) (Tree_Preference v) (Tree_Preference u)"
    by (auto simp: tree_extends_def elim: agree_mono)
  with e show ?case by (auto simp: tree_extends_def intro: agree_trans)
qed

text \<open>
  C18. Validity of the snow tree: in every tree reached by adding choices and recording polls, the
  tree is a well-formed Patricia tree, its preference is one of the choices it decides between,
  these are choices that were added, and they all agree with the preference on the
  decided prefix.
\<close>

theorem tree_reachable_valid:
  assumes "tree_reach f p A t"
  shows "tree_inv t \<and> Tree_Preference t \<in> Tree_choices t \<and> Tree_choices t \<subseteq> A \<and>
    (\<forall>x \<in> Tree_choices t. EqualSubset 0 (node_DecidedPrefix (tree_node t)) (Tree_Preference t) x)"
proof -
  from tree_reach_inv [OF assms] have inv: "tree_inv t" and A: "Tree_choices t \<subseteq> A" by simp_all
  have "node_DecidedPrefix (tree_node t) \<le> NumBits"
    using inv node_inv_bounds by (fastforce simp: tree_inv_def)
  then show ?thesis
    using inv A Tree_Preference_in_choices [OF inv] Tree_choices_agree [OF inv]
    by (auto simp: EqualSubset_agree intro: agree_sym)
qed

theorem tree_reachable_valid_witness:
  "let t = fst (Tree_RecordPoll (Tree_Add (NewTree SnowflakeFactory DefaultParameters 0) 5) (Bag_Of [5, 5]))
   in Tree_Preference t \<in> Tree_choices t \<and> Tree_choices t \<subseteq> {5, 0}"
  using tree_reachable_valid [OF tree_reach.poll [OF tree_reach.add [OF tree_reach.start] bag_wf_Of],
      of SnowflakeFactory DefaultParameters 0 5 "[5, 5]"]
  by (simp only: Let_def simp_thms)

text \<open>
  C19. The choices are tracked exactly: adding a choice to a tree that is not finalized makes it one
  of the choices iff it agrees with the preference on the decided prefix (otherwise it was
  already rejected and the tree does not change its choices), and a poll keeps exactly the choices
  that agree with the new preference on the new decided prefix.
\<close>

theorem tree_choices_exact:
  assumes "tree_reach f p A t" "bag_wf votes"
  shows "(\<not> Tree_Finalized t \<longrightarrow> Tree_choices (Tree_Add t x) =
       (if EqualSubset 0 (node_DecidedPrefix (tree_node t)) (Tree_Preference t) x
        then insert x (Tree_choices t) else Tree_choices t)) \<and>
    (let t' = fst (Tree_RecordPoll t votes)
     in Tree_choices t' = {x \<in> Tree_choices t. agree (node_DecidedPrefix (tree_node t')) x (Tree_Preference t')})"
proof -
  have inv: "tree_inv t" using tree_reach_inv [OF assms(1)] by simp
  have "node_DecidedPrefix (tree_node t) \<le> NumBits" using inv node_inv_bounds by (fastforce simp: tree_inv_def)
  then show ?thesis
    using Tree_Add_facts(5) [OF inv, of x] Tree_RecordPoll_facts(6) [OF inv assms(2)]
    by (simp add: EqualSubset_agree Let_def)
qed

theorem tree_choices_exact_witness:
  "Tree_choices (Tree_Add (NewTree SnowballFactory DefaultParameters 0) 5) = {5, 0}"
proof -
  have "\<not> Tree_Finalized (NewTree SnowballFactory DefaultParameters 0)"
    "EqualSubset 0 (node_DecidedPrefix (tree_node (NewTree SnowballFactory DefaultParameters 0)))
       (Tree_Preference (NewTree SnowballFactory DefaultParameters 0)) 5"
    by (simp_all add: EqualSubset_agree)
  then show ?thesis
    using tree_choices_exact [OF tree_reach.start bag_wf_empty, of SnowballFactory DefaultParameters 0 5]
    by (simp add: NewTree_inv)
qed

text \<open>
  C16. Decisions are irrevocable: along any further operations the decided prefix of the tree never
  gets shorter, the preference keeps the bits that were decided, and a finalized tree
  stays finalized with the same preference.
\<close>

theorem tree_decisions_irrevocable:
  assumes "tree_reach f p A t" "tree_step\<^sup>*\<^sup>* t t'"
  shows "node_DecidedPrefix (tree_node t) \<le> node_DecidedPrefix (tree_node t') \<and>
    EqualSubset 0 (node_DecidedPrefix (tree_node t)) (Tree_Preference t) (Tree_Preference t') \<and>
    (Tree_Finalized t \<longrightarrow> Tree_Finalized t' \<and> Tree_Preference t' = Tree_Preference t)"
proof -
  have inv: "tree_inv t" using tree_reach_inv [OF assms(1)] by simp
  have "node_DecidedPrefix (tree_node t) \<le> NumBits" using inv node_inv_bounds by (fastforce simp: tree_inv_def)
  then show ?thesis
    using tree_steps_extend [OF assms(2) inv] by (auto simp: EqualSubset_agree tree_extends_def intro: agree_sym)
qed

theorem tree_decisions_irrevocable_witness:
  "let t = NewTree SnowballFactory DefaultParameters 0; t' = Tree_Add t 5
   in node_DecidedPrefix (tree_node t) \<le> node_DecidedPrefix (tree_node t')"
  using tree_decisions_irrevocable [OF tree_reach.start r_into_rtranclp [where r = tree_step, OF step_add],
      of SnowballFactory DefaultParameters 0 5]
  by (simp only: Let_def simp_thms)

text \<open>The state of the tree after unanimous polls.\<close>

definition tree_path :: "int \<Rightarrow> ID \<Rightarrow> Tree \<Rightarrow> bool" where
  "tree_path j x t \<longleftrightarrow> tree_inv t \<and> x \<in> Tree_choices t \<and>
     (if Tree_Finalized t then Tree_Preference t = x
      else path_before j x (tree_node t) (tree_shouldReset t) \<and> (0 < j \<longrightarrow> j < Beta (tree_params t)))"

lemma tree_path_poll:
  assumes path: "tree_path j x t" and j: "0 \<le> j" and p: "params_valid (tree_params t)"
    and u: "unanimous x votes" and n: "AlphaConfidence (tree_params t) \<le> Bag_Len votes"
  shows "tree_path (j + 1) x (fst (Tree_RecordPoll t votes))"
proof -
  let ?V = "Bag_Filter (agree (node_DecidedPrefix (tree_node t)) (Tree_Preference t)) votes"
  have inv: "tree_inv t" and x: "x \<in> Tree_choices t" using path by (simp_all add: tree_path_def)
  have wf: "bag_wf votes" using u by (simp add: unanimous_def)
  have agr: "agree (node_DecidedPrefix (tree_node t)) (Tree_Preference t) x"
    using Tree_choices_agree [OF inv x] by (rule agree_sym)
  note V = unanimous_filter [where P = "agree (node_DecidedPrefix (tree_node t)) (Tree_Preference t)", OF u agr]
  obtain n' m ok where res: "node_RecordPoll (tree_params t) (tree_node t) ?V (tree_shouldReset t) = (n', m, ok)"
    by (metis prod_cases3)
  have t': "fst (Tree_RecordPoll t votes) = t\<lparr>tree_node := m, tree_shouldReset := False\<rparr>"
    by (simp add: Tree_RecordPoll_eq [OF inv] res)
  note f = Tree_RecordPoll_facts [OF inv wf]
  show ?thesis
  proof (cases "Tree_Finalized t")
    case True
    with path have px: "Tree_Preference t = x" by (simp add: tree_path_def)
    with f(4) True have "Tree_Finalized (fst (Tree_RecordPoll t votes))" "Tree_Preference (fst (Tree_RecordPoll t votes)) = x" by auto
    with Tree_Preference_in_choices [OF f(1)] f(1) show ?thesis by (simp add: tree_path_def)
  next
    case False
    have "path_after (tree_params t) (j + 1) x m"
      using unanimous_poll [OF params_valid_majority(2) [OF p] params_valid_facts(1) [OF p] _ _ _ V(1) _ _ res]
        inv x path False n V(2)
      by (simp add: tree_inv_def tree_path_def Tree_choices_def Tree_Finalized_def)
    with f(1) j show ?thesis
      by (auto simp: tree_path_def path_after_def path_before_def t' Tree_choices_def Tree_Finalized_def Tree_Preference_def)
  qed
qed

lemma tree_path_polls:
  assumes "tree_path j x t" "0 \<le> j" "params_valid (tree_params t)"
    and "\<And>v. v \<in> set polls \<Longrightarrow> unanimous x v \<and> AlphaConfidence (tree_params t) \<le> Bag_Len v"
  shows "tree_path (j + int (length polls)) x (fold (\<lambda>v t. fst (Tree_RecordPoll t v)) polls t) \<and>
    tree_params (fold (\<lambda>v t. fst (Tree_RecordPoll t v)) polls t) = tree_params t"
  using assms
proof (induction polls arbitrary: j t)
  case (Cons v polls)
  let ?t = "fst (Tree_RecordPoll t v)"
  have inv: "tree_inv t" and wf: "bag_wf v" using Cons.prems by (simp_all add: tree_path_def unanimous_def)
  have params: "tree_params ?t = tree_params t" by (rule Tree_RecordPoll_facts(2) [OF inv wf])
  have "tree_path (j + 1) x ?t" using tree_path_poll [OF Cons.prems(1-3)] Cons.prems(4) by simp
  from Cons.IH [OF this] Cons.prems params show ?case by (simp add: algebra_simps)
qed simp

lemma reach_params: "tree_reach f p A t \<Longrightarrow> tree_params t = p"
proof (induction rule: tree_reach.induct)
  case (start choice)
  show ?case by (simp add: NewTree_def)
next
  case (add A t choice)
  then show ?case using tree_reach_inv [OF add.hyps] by (simp add: Tree_Add_facts)
next
  case (poll A t votes)
  then show ?case using tree_reach_inv [OF poll.hyps(1)] by (simp add: Tree_RecordPoll_facts)
qed (simp add: Tree_RecordUnsuccessfulPoll_def)

text \<open>
  C15. Liveness of the snow tree: with valid parameters, whatever happened before, at least
  \<open>Beta\<close> consecutive polls in which at least \<open>AlphaConfidence\<close> votes are all for one
  choice that is still live in the tree finalize the tree on that choice.
\<close>

theorem tree_unanimous_finalizes:
  assumes "tree_reach f p A t" "params_valid p" "x \<in> Tree_choices t" "\<not> Tree_Finalized t"
    and "\<forall>v \<in> set polls. unanimous x v \<and> AlphaConfidence p \<le> Bag_Len v"
    and "Beta p \<le> int (length polls)"
  defines "t' \<equiv> fold (\<lambda>v t. fst (Tree_RecordPoll t v)) polls t"
  shows "Tree_Finalized t' \<and> Tree_Preference t' = x"
proof -
  note params = reach_params [OF assms(1)]
  have "tree_path 0 x t" using tree_reach_inv [OF assms(1)] assms(3,4) by (simp add: tree_path_def path_before_def)
  from tree_path_polls [OF this, of polls] assms(2,5) params
  have "tree_path (int (length polls)) x t'" "tree_params t' = p" by (simp_all add: t'_def)
  then show ?thesis using assms(6) params_valid_facts(2) [OF assms(2)]
    by (auto simp: tree_path_def split: if_splits)
qed

theorem tree_unanimous_finalizes_witness:
  "let t' = fold (\<lambda>v t. fst (Tree_RecordPoll t v)) (replicate 20 (Bag_Of (replicate 15 5)))
       (Tree_Add (NewTree SnowballFactory DefaultParameters 0) 5)
   in Tree_Finalized t' \<and> Tree_Preference t' = 5"
proof -
  let ?t0 = "NewTree SnowballFactory DefaultParameters 0"
  let ?t = "Tree_Add ?t0 5"
  have "5 \<in> Tree_choices ?t" "\<not> Tree_Finalized ?t"
    by (simp_all add: Tree_Add_facts [OF NewTree_inv(1)])
  moreover have "unanimous 5 (Bag_Of (replicate 15 5)) \<and>
      AlphaConfidence DefaultParameters \<le> Bag_Len (Bag_Of (replicate 15 (5::ID)))"
  proof -
    have m: "Bag_mset (Bag_Of (replicate 15 5)) = mset (replicate 15 (5::ID))"
      by (simp only: Bag_Of_def Bag_mset_Add [OF bag_wf_empty] Bag_mset_empty add_0)
    then show ?thesis unfolding unanimous_def
      by (simp add: Bag_Len_mset [OF bag_wf_Of] DefaultParameters_def)
  qed
  moreover have "params_valid DefaultParameters" by (simp add: params_valid_def DefaultParameters_def)
  moreover have "tree_reach SnowballFactory DefaultParameters {5, 0} ?t"
    by (rule tree_reach.add [OF tree_reach.start])
  moreover have "Beta DefaultParameters \<le> int (length (replicate 20 (Bag_Of (replicate 15 (5::ID)))))"
    by (simp add: DefaultParameters_def)
  ultimately show ?thesis unfolding Let_def
    using tree_unanimous_finalizes [of SnowballFactory DefaultParameters "{5, 0}" ?t 5 "replicate 20 (Bag_Of (replicate 15 5))"]
    by (metis in_set_replicate)
qed

end
