(* ===== verification/Snow_Tree_Eager.thy ===== *)
theory Snow_Tree_Eager
  imports Snow_Tree_Props
begin

text \<open>
  The \<open>shouldReset\<close> flags of the snow tree delay the reset of a subtree that did not get enough
  votes until the subtree is visited again.  The specification here resets the whole subtree at
  once; the tree of the source refines it, with the abstraction that performs the
  pending resets.
\<close>

section \<open>Performing the pending resets\<close>

fun flush :: "bool \<Rightarrow> node \<Rightarrow> node" where
  "flush r (UnaryNode pref dp cp snow sr ch) =
     UnaryNode pref dp cp (unary_reset r snow) False
       (case ch of None \<Rightarrow> None | Some c \<Rightarrow> Some (flush (r \<or> sr) c))"
| "flush r (BinaryNode prefs b snow sr (c0, c1)) =
     BinaryNode prefs b (binary_reset r snow) (False, False)
       (case c0 of None \<Rightarrow> None | Some c \<Rightarrow> Some (flush (r \<or> fst sr) c),
        case c1 of None \<Rightarrow> None | Some c \<Rightarrow> Some (flush (r \<or> snd sr) c))"

definition flush_option :: "bool \<Rightarrow> node option \<Rightarrow> node option" where
  "flush_option r ch = map_option (flush r) ch"

lemma flush_option_simps [simp]:
  "flush_option r None = None" "flush_option r (Some c) = Some (flush r c)"
  "flush_option r ch = None \<longleftrightarrow> ch = None"
  by (simp_all add: flush_option_def)

definition flush_children :: "bool \<Rightarrow> bool \<times> bool \<Rightarrow> node option \<times> node option \<Rightarrow> node option \<times> node option" where
  "flush_children r sr ch = (flush_option (r \<or> at2 sr 0) (at2 ch 0), flush_option (r \<or> at2 sr 1) (at2 ch 1))"

lemma flush_Unary:
  "flush r (UnaryNode pref dp cp snow sr ch) =
     UnaryNode pref dp cp (unary_reset r snow) False (flush_option (r \<or> sr) ch)"
  by (cases ch) simp_all

lemma flush_Binary:
  "flush r (BinaryNode prefs b snow sr ch) =
     BinaryNode prefs b (binary_reset r snow) (False, False) (flush_children r sr ch)"
  by (cases ch; cases "fst ch"; cases "snd ch") (simp_all add: flush_children_def at2_def)

declare flush.simps [simp del]

lemma at2_flush_children [simp]: "i < 2 \<Longrightarrow> at2 (flush_children r sr ch) i = flush_option (r \<or> at2 sr i) (at2 ch i)"
  by (auto simp: less_2_cases_iff flush_children_def)

lemma pair_eqI: "(\<And>i. i < 2 \<Longrightarrow> at2 p i = at2 q i) \<Longrightarrow> p = q"
proof -
  assume eq: "\<And>i. i < 2 \<Longrightarrow> at2 p i = at2 q i"
  from eq [of 0] eq [of 1] show "p = q" by (cases p; cases q) simp
qed

lemma at2_upd2: "i < 2 \<Longrightarrow> j < 2 \<Longrightarrow> at2 (upd2 q i v) j = (if j = i then v else at2 q j)"
  by auto

text \<open>Resetting every instance of a subtree.\<close>

definition reset_all :: "node \<Rightarrow> node" where
  "reset_all n = flush True n"

lemma reset_reset [simp]:
  "unary_reset True (unary_reset r u) = unary_reset True u"
  "unary_reset False u = u"
  "binary_reset True (binary_reset r s) = binary_reset True s"
  "binary_reset False s = s"
  by (simp_all add: unary_reset_def binary_reset_def unary.fail_fail binary.fail_fail)

lemma reset_all_flush: "reset_all (flush r n) = reset_all n"
  unfolding reset_all_def
proof (induction n arbitrary: r rule: node_induct)
  case (Unary pref dp cp snow sr ch)
  then show ?case by (cases ch) (simp_all add: flush_Unary)
next
  case (Binary prefs b snow sr ch)
  have "flush_children True (False, False) (flush_children r sr ch) = flush_children True sr ch"
  proof (rule pair_eqI)
    fix i :: nat assume i: "i < 2"
    show "at2 (flush_children True (False, False) (flush_children r sr ch)) i = at2 (flush_children True sr ch) i"
      using i Binary.IH [of i] by (cases "at2 ch i") simp_all
  qed
  then show ?case by (simp add: flush_Binary)
qed

lemma flush_keeps [simp]:
  "node_Preference (flush r n) = node_Preference n"
  "node_DecidedPrefix (flush r n) = node_DecidedPrefix n"
  "node_Finalized (flush r n) = node_Finalized n"
  by (cases n; simp add: flush_Unary flush_Binary binary_reset_def unary_reset_def
      binary.pref_fail binary.fin_fail unary.fin_fail)+

section \<open>The eager poll\<close>

fun eager_poll :: "Parameters \<Rightarrow> node \<Rightarrow> ID Bag \<Rightarrow> node \<times> bool" where
  "eager_poll p (UnaryNode pref dp cp snow sr ch) votes =
     (if Bag_Len votes < AlphaPreference p then (reset_all (UnaryNode pref dp cp snow sr ch), False)
      else
        let snow' = Unary_RecordPoll snow (Bag_Len votes)
        in case ch of
             None \<Rightarrow> (UnaryNode pref dp cp snow' False None, True)
           | Some c \<Rightarrow>
               let c' = fst (eager_poll p c votes)
               in if Unary_Finalized snow' then (c', True)
                  else (UnaryNode (node_Preference c') dp cp snow' False (Some c'), True))"
| "eager_poll p (BinaryNode prefs b snow sr ch) votes =
     (let i = poll_bit p b votes; V = branch_votes b i votes
      in if Bag_Len V < AlphaPreference p then (reset_all (BinaryNode prefs b snow sr ch), False)
         else
           let snow' = Binary_RecordPoll snow (Bag_Len V) i;
               ch' = upd2 ch (1 - i) (flush_option True (at2 ch (1 - i)))
           in case at2 ch i of
                None \<Rightarrow> (BinaryNode prefs b snow' (False, False) ch', True)
              | Some c \<Rightarrow>
                  let c' = fst (eager_poll p c V)
                  in if Binary_Finalized snow' then (c', True)
                     else (BinaryNode (upd2 prefs i (node_Preference c')) b snow' (False, False)
                             (upd2 ch' i (Some c')), True))"

declare eager_poll.simps(2) [simp del]

text \<open>The flags of the source implement the eager resets.\<close>

lemma flush_children_poll:
  assumes "i < 2"
  shows "flush_children False (upd2 (True, True) i False) (upd2 ch i c) =
    upd2 (upd2 (flush_children r sr ch) (1 - i) (flush_option True (at2 ch (1 - i)))) i (flush_option False c)"
proof (rule pair_eqI)
  fix j :: nat assume j: "j < 2"
  note flip = bit_flip(1,2) [OF assms]
  show "at2 (flush_children False (upd2 (True, True) i False) (upd2 ch i c)) j =
      at2 (upd2 (upd2 (flush_children r sr ch) (1 - i) (flush_option True (at2 ch (1 - i)))) i (flush_option False c)) j"
  proof (cases "j = i")
    case False
    then have e: "1 - i = j" using bit_flip(3) [OF assms j] by simp
    have "at2 (upd2 (True, True) i False) j" using assms j False by (auto simp: less_2_cases_iff)
    then show ?thesis unfolding e using assms j False by (simp add: at2_upd2)
  qed (use assms in simp)
qed

lemma flush_option_flip:
  "i < 2 \<Longrightarrow> flush_option True (at2 (flush_children r sr ch) (1 - i)) = flush_option True (at2 ch (1 - i))"
  using bit_flip(1) [of i] reset_all_flush by (cases "at2 ch (1 - i)") (simp_all add: reset_all_def)

lemma eager_poll_refines:
  assumes "node_inv p n" "bag_wf votes" "node_RecordPoll p n votes r = (n', m, ok)"
  shows "eager_poll p (flush r n) votes = (flush False m, ok)"
  using assms
proof (induction n arbitrary: votes r n' m ok rule: node_induct)
  case (Unary pref dp cp snow sr ch)
  let ?snow = "Unary_RecordPoll (unary_reset r snow) (Bag_Len votes)"
  show ?case
  proof (cases "Bag_Len votes < AlphaPreference p")
    case True
    have "reset_all (flush r (UnaryNode pref dp cp snow sr ch)) =
        flush False (UnaryNode pref dp cp (Unary_RecordUnsuccessfulPoll snow) True ch)"
      unfolding reset_all_flush by (simp add: reset_all_def flush_Unary unary_reset_def)
    then show ?thesis using Unary.prems True by (auto simp: RecordPoll_Unary_low flush_Unary)
  next
    case False
    then have n: "AlphaPreference p \<le> Bag_Len votes" by simp
    show ?thesis
    proof (cases ch)
      case None
      with Unary.prems n show ?thesis by (auto simp: RecordPoll_Unary_leaf flush_Unary Let_def)
    next
      case (Some c)
      obtain c' mc okc where c: "node_RecordPoll p c votes (r \<or> sr) = (c', mc, okc)" by (metis prod_cases3)
      have IH: "eager_poll p (flush (r \<or> sr) c) votes = (flush False mc, okc)"
        using Unary.IH [OF Some _ _ c] Unary.prems Some by simp
      note res = Unary.prems(3) [unfolded Some RecordPoll_Unary_child [OF n c]]
      show ?thesis
      proof (cases "Unary_Finalized ?snow")
        case True
        with res n IH Some show ?thesis by (auto simp: flush_Unary Let_def)
      next
        case False
        with res have e: "m = UnaryNode (node_Preference c') dp cp ?snow False (Some c')" "m = n'" "ok" by (auto simp: Let_def)
        have "node_inv p m"
          using node_poll_result [OF Unary.prems(1) _ Unary.prems(2,3)] Unary.prems(1) Some by (simp add: poll_result_def)
        with e have "\<not> node_Finalized c'" by simp
        moreover have "poll_result p c votes (r \<or> sr) c' mc"
          using node_poll_result [OF _ _ Unary.prems(2) c] Unary.prems(1) Some by simp
        ultimately have "mc = c'" by (simp add: poll_result_def)
        with False n IH Some e show ?thesis by (simp add: flush_Unary Let_def)
      qed
    qed
  qed
next
  case (Binary prefs b snow sr ch)
  let ?i = "poll_bit p b votes"
  let ?V = "branch_votes b ?i votes"
  let ?snow = "Binary_RecordPoll (binary_reset r snow) (Bag_Len ?V) ?i"
  have i2: "?i < 2" by simp
  show ?case
  proof (cases "Bag_Len ?V < AlphaPreference p")
    case True
    have fc: "flush_children False (True, True) ch = flush_children True sr ch"
      by (simp add: flush_children_def)
    have "reset_all (flush r (BinaryNode prefs b snow sr ch)) =
        flush False (BinaryNode prefs b (Binary_RecordUnsuccessfulPoll snow) (True, True) ch)"
      unfolding reset_all_flush by (simp add: reset_all_def flush_Binary binary_reset_def fc)
    then show ?thesis using Binary.prems(3) True
      by (auto simp: RecordPoll_Binary_low [OF True] flush_Binary eager_poll.simps Let_def)
  next
    case False
    then have n: "AlphaPreference p \<le> Bag_Len ?V" by simp
    show ?thesis
    proof (cases "at2 ch ?i")
      case None
      have "ch = upd2 ch ?i None" using None i2 by (intro pair_eqI) (simp add: at2_upd2)
      then have fc: "flush_children False (upd2 (True, True) ?i False) ch =
          upd2 (upd2 (flush_children r sr ch) (1 - ?i) (flush_option True (at2 ch (1 - ?i)))) ?i None"
        using flush_children_poll [OF i2, of ch None r sr] by simp
      also have "\<dots> = upd2 (flush_children r sr ch) (1 - ?i) (flush_option True (at2 ch (1 - ?i)))"
        using None i2 bit_flip(1,2) [OF i2] by (intro pair_eqI) (simp add: at2_upd2 del: One_nat_def)
      finally show ?thesis
        using Binary.prems(3) n None flush_option_flip [OF i2, of r sr ch]
        by (auto simp: RecordPoll_Binary_leaf [OF n refl None] flush_Binary eager_poll.simps Let_def)
    next
      case (Some c)
      obtain c' mc okc where c: "node_RecordPoll p c ?V (r \<or> at2 sr ?i) = (c', mc, okc)" by (metis prod_cases3)
      have br: "branch_inv p (at2 prefs ?i) b snow (at2 sr ?i) (at2 ch ?i) ?i"
        using Binary.prems(1) i2 by (simp add: node_inv_Binary)
      have IH: "eager_poll p (flush (r \<or> at2 sr ?i) c) ?V = (flush False mc, okc)"
        using Binary.IH [OF Some _ _ c] br Some by (simp add: branch_inv_def)
      note res = Binary.prems(3) [unfolded RecordPoll_Binary_child [OF n refl Some c]]
      show ?thesis
      proof (cases "Binary_Finalized ?snow")
        case True
        with res n IH Some show ?thesis by (auto simp: flush_Binary eager_poll.simps Let_def)
      next
        case False
        have e: "m = BinaryNode (upd2 prefs ?i (node_Preference mc)) b ?snow (upd2 (True, True) ?i False) (upd2 ch ?i (Some c'))"
          "m = n'" "ok" using res False by (auto simp: Let_def)
        have "node_inv p m"
          using node_poll_result [OF Binary.prems(1) _ Binary.prems(2,3)] br Some by (simp add: poll_result_def branch_inv_def)
        then have "branch_inv p (at2 (upd2 prefs ?i (node_Preference mc)) ?i) b ?snow
            (at2 (upd2 (True, True) ?i False) ?i) (at2 (upd2 ch ?i (Some c')) ?i) ?i"
          using i2 by (simp only: e(1) node_inv_Binary)
        then have "\<not> node_Finalized c'" by (simp add: branch_inv_def)
        moreover have "poll_result p c ?V (r \<or> at2 sr ?i) c' mc"
          using node_poll_result [OF _ _ _ c] br Some by (simp add: branch_inv_def)
        ultimately have mc: "mc = c'" by (simp add: poll_result_def)
        show ?thesis
          using False n IH Some e mc flush_children_poll [OF i2, of ch "Some c'" r sr] flush_option_flip [OF i2, of r sr ch]
          by (simp add: flush_Binary eager_poll.simps Let_def)
      qed
    qed
  qed
qed

section \<open>Adding a choice commutes with the pending resets\<close>

lemma unary_reset_zero:
  "Unary_ok p snow \<Longrightarrow> (sr \<longrightarrow> Unary_confidence snow = 0) \<Longrightarrow> unary_reset (r \<or> sr) snow = unary_reset r snow"
  by (auto simp: unary_reset_def unary.fail_zero)

lemma unary_reset_new [simp]: "unary_reset r (Factory_NewUnary f p) = Factory_NewUnary f p"
  using unary.fail_zero [of p "Factory_NewUnary f p"] by (simp add: unary_reset_def)

lemma flush_split_binary:
  "flush r (split_binary f p pref snow sr index x C) =
     split_binary f p pref (unary_reset r snow) False index x (flush_option (r \<or> sr) C)"
proof -
  let ?i = "ID_Bit pref index"
  let ?new = "UnaryNode x (index + 1) NumBits (Factory_NewUnary f p) False None"
  have i2: "?i < 2" using ID_Bit_cases [of pref index] by auto
  have ext: "binary_reset r (Unary_Extend snow ?i) = Unary_Extend (unary_reset r snow) ?i"
    by (simp add: binary_reset_def unary_reset_def Extend_fail)
  have new: "flush q ?new = ?new" for q by (simp add: flush_Unary)
  have "flush_children r (sr, sr) (upd2 (upd2 (None, None) ?i C) (1 - ?i) (if C \<noteq> None then Some ?new else None)) =
      upd2 (upd2 (None, None) ?i (flush_option (r \<or> sr) C)) (1 - ?i) (if C \<noteq> None then Some ?new else None)"
    using i2 new by (auto simp: less_2_cases_iff flush_children_def)
  then show ?thesis by (simp add: split_binary_def Let_def flush_Binary ext)
qed

lemma flush_node_Add:
  assumes "node_inv p n"
  shows "flush r (node_Add f p n x) = node_Add f p (flush r n) x"
  using assms
proof (induction n arbitrary: r rule: node_induct)
  case (Unary pref dp cp snow sr ch)
  note z = unary_reset_zero [of p snow sr r]
  have fin: "Unary_Finalized (unary_reset r snow) = Unary_Finalized snow"
    by (simp add: unary_reset_def unary.fin_fail)
  show ?case
  proof (cases "FirstDifferenceSubset dp cp pref x")
    case None
    show ?thesis
    proof (cases ch)
      case (Some c)
      with Unary.IH [OF Some] Unary.prems None show ?thesis by (simp add: flush_Unary fin)
    qed (use None in \<open>simp add: flush_Unary fin\<close>)
  next
    case (Some index)
    then show ?thesis using z Unary.prems
      by (simp add: flush_Unary fin unaryNode_split_eq flush_split_binary)
  qed
next
  case (Binary prefs b snow sr ch)
  let ?i = "ID_Bit x b"
  have i2: "?i < 2" using ID_Bit_cases [of x b] by auto
  have br: "branch_inv p (at2 prefs ?i) b snow (at2 sr ?i) (at2 ch ?i) ?i"
    using Binary.prems i2 by (simp add: node_inv_Binary)
  show ?case
  proof (cases "at2 ch ?i")
    case None
    then show ?thesis using i2 by (simp add: flush_Binary Let_def)
  next
    case (Some c)
    have IH: "flush q (node_Add f p c x) = node_Add f p (flush q c) x" for q
      using Binary.IH [OF Some] br Some by (simp add: branch_inv_def)
    have "flush_children r sr (upd2 ch ?i (Some (node_Add f p c x))) =
        upd2 (flush_children r sr ch) ?i (Some (node_Add f p (flush (r \<or> at2 sr ?i) c) x))"
      using i2 IH by (intro pair_eqI) (simp add: at2_upd2)
    then show ?thesis using Some i2 by (simp add: flush_Binary Let_def)
  qed
qed

section \<open>The refinement\<close>

definition eager_abs :: "Tree \<Rightarrow> node" where
  "eager_abs t = flush (tree_shouldReset t) (tree_node t)"

text \<open>
  C17. The lazy reset flags are only an optimization: the tree of the source refines the eager
  tree that resets a whole subtree whenever it does not get \<open>AlphaPreference\<close> votes.  With
  the abstraction that performs the pending resets, adding a choice, recording a poll (with its
  result) and recording an unsuccessful poll are the eager operations, and preference, decided
  prefix and finality are observed unchanged.
\<close>

theorem lazy_reset_refines_eager:
  assumes "tree_reach f p A t" "bag_wf votes"
  defines "valid \<equiv> EqualSubset 0 (node_DecidedPrefix (eager_abs t)) (node_Preference (eager_abs t))"
  shows "eager_abs (Tree_Add t x) =
      (if valid x then node_Add (tree_factory t) (tree_params t) (eager_abs t) x else eager_abs t) \<and>
    (eager_abs (fst (Tree_RecordPoll t votes)), snd (Tree_RecordPoll t votes)) =
      eager_poll (tree_params t) (eager_abs t) (Bag_Filter valid votes) \<and>
    eager_abs (Tree_RecordUnsuccessfulPoll t) = reset_all (eager_abs t) \<and>
    node_Preference (eager_abs t) = Tree_Preference t \<and> node_Finalized (eager_abs t) = Tree_Finalized t"
proof -
  have inv: "node_inv (tree_params t) (tree_node t)" "tree_inv t"
    using tree_reach_inv [OF assms(1)] by (simp_all add: tree_inv_def)
  have valid: "valid = EqualSubset 0 (node_DecidedPrefix (tree_node t)) (Tree_Preference t)"
    by (simp add: valid_def eager_abs_def Tree_Preference_def)
  obtain n' m ok where res: "node_RecordPoll (tree_params t) (tree_node t) (Bag_Filter valid votes) (tree_shouldReset t) = (n', m, ok)"
    by (metis prod_cases3)
  from eager_poll_refines [OF inv(1) bag_wf_Filter res]
  have "(eager_abs (fst (Tree_RecordPoll t votes)), snd (Tree_RecordPoll t votes)) =
      eager_poll (tree_params t) (eager_abs t) (Bag_Filter valid votes)"
    using res by (simp add: Tree_RecordPoll_def Let_def eager_abs_def valid)
  then show ?thesis
    by (simp add: eager_abs_def Tree_Add_def Let_def valid flush_node_Add [OF inv(1)]
        Tree_RecordUnsuccessfulPoll_def reset_all_flush Tree_Preference_def Tree_Finalized_def)
      (simp add: reset_all_def)
qed

theorem lazy_reset_refines_eager_witness:
  "let t = Tree_RecordUnsuccessfulPoll (Tree_Add (NewTree SnowballFactory DefaultParameters 0) 5)
   in eager_abs (Tree_RecordUnsuccessfulPoll t) = reset_all (eager_abs t) \<and>
      node_Preference (eager_abs t) = Tree_Preference t"
  using lazy_reset_refines_eager [OF tree_reach.failed [OF tree_reach.add [OF tree_reach.start]] bag_wf_empty,
      of SnowballFactory DefaultParameters 0 5]
  by (simp only: Let_def simp_thms)

end
