(* ===== verification/Topological.thy ===== *)
theory Topological
  imports Snow_Tree_Eager "HOL-Library.Monad_Syntax"
begin

text \<open>
  \<open>snow/consensus/snowman/topological.go\<close> and \<open>snowman_block.go\<close>: the linear chain consensus.  The
  state holds the last accepted block and the tree of processing blocks above it; every block
  with children has a snow tree that decides between them.

  Pointers to \<open>snowmanBlock\<close> are the values of the map \<open>ts_blocks\<close>.  A result \<open>None\<close> is a nil dereference
  (a panic) or a loop that does not end; an error value carries the state the failed call
  leaves.  Accepting and rejecting a block are calls into the virtual machine and the block
  acceptor, which may fail: the parameter \<open>vm\<close> says which calls succeed, and \<open>ts_calls\<close> records the
  calls made, in order.  The \<open>Pop\<close> of a Go set takes an arbitrary element: the parameter \<open>pop\<close>.
  Logging and metrics are not modelled.
\<close>

section \<open>Blocks\<close>

record Block =
  block_ID :: ID
  block_Parent :: ID
  block_Height :: nat

record snowmanBlock =
  sm_blk :: "Block option"
  sm_shouldFalter :: bool
  sm_sb :: "Tree option"
  sm_children :: "(ID \<times> Block) list"

definition snowmanBlock_AddChild :: "Factory \<Rightarrow> Parameters \<Rightarrow> snowmanBlock \<Rightarrow> Block \<Rightarrow> snowmanBlock" where
  "snowmanBlock_AddChild factory params n child =
     (let childID = block_ID child;
          n = (case sm_sb n of
                 None \<Rightarrow> n\<lparr>sm_sb := Some (NewTree factory params childID), sm_children := []\<rparr>
               | Some sb \<Rightarrow> n\<lparr>sm_sb := Some (Tree_Add sb childID)\<rparr>)
      in n\<lparr>sm_children := AList.update childID child (sm_children n)\<rparr>)"

definition snowmanBlock_Decided :: "nat \<Rightarrow> snowmanBlock \<Rightarrow> bool" where
  "snowmanBlock_Decided lastAcceptedHeight n =
     (case sm_blk n of None \<Rightarrow> True | Some blk \<Rightarrow> block_Height blk \<le> lastAcceptedHeight)"

section \<open>The state\<close>

record kahnNode =
  kahn_inDegree :: int
  kahn_votes :: "ID Bag"

record votes =
  votes_parentID :: ID
  votes_votes :: "ID Bag"

datatype vm_call = AcceptorAccept ID | BlockAccept ID | BlockReject ID

record vm =
  vm_acceptor :: "ID \<Rightarrow> bool"
  vm_accept :: "ID \<Rightarrow> bool"
  vm_reject :: "ID \<Rightarrow> bool"

datatype consensus_error =
    errParams params_error
  | errMetrics
  | errDuplicateAdd
  | errUnknownParentBlock
  | errAcceptor ID
  | errAccept ID
  | errReject ID

record Topological =
  ts_Factory :: Factory
  ts_pollNumber :: "64 word"
  ts_params :: Parameters
  ts_lastAcceptedID :: ID
  ts_lastAcceptedHeight :: nat
  ts_blocks :: "ID \<rightharpoonup> snowmanBlock"
  ts_preferredIDs :: "ID set"
  ts_preferredHeights :: "nat \<rightharpoonup> ID"
  ts_preference :: ID
  ts_leaves :: "ID set"
  ts_kahnNodes :: "ID \<rightharpoonup> kahnNode"
  ts_calls :: "vm_call list"

definition new_snowmanBlock :: "Block option \<Rightarrow> snowmanBlock" where
  "new_snowmanBlock blk = \<lparr>sm_blk = blk, sm_shouldFalter = False, sm_sb = None, sm_children = []\<rparr>"

text \<open>\<open>Initialize\<close> on a zero value that only has its factory; \<open>metricsErr\<close> says that registering the
  metrics failed.\<close>

definition Topological_Initialize ::
    "Factory \<Rightarrow> bool \<Rightarrow> Parameters \<Rightarrow> ID \<Rightarrow> nat \<Rightarrow> consensus_error + Topological" where
  "Topological_Initialize factory metricsErr params lastAcceptedID lastAcceptedHeight =
     (case Parameters_Verify params of
        Some e \<Rightarrow> Inl (errParams e)
      | None \<Rightarrow>
          if metricsErr then Inl errMetrics
          else Inr \<lparr>ts_Factory = factory, ts_pollNumber = 0, ts_params = params,
                    ts_lastAcceptedID = lastAcceptedID, ts_lastAcceptedHeight = lastAcceptedHeight,
                    ts_blocks = [lastAcceptedID \<mapsto> new_snowmanBlock None],
                    ts_preferredIDs = {}, ts_preferredHeights = Map.empty,
                    ts_preference = lastAcceptedID, ts_leaves = {}, ts_kahnNodes = Map.empty,
                    ts_calls = []\<rparr>)"

definition ts_Decided :: "Topological \<Rightarrow> snowmanBlock \<Rightarrow> bool" where
  "ts_Decided ts n = snowmanBlock_Decided (ts_lastAcceptedHeight ts) n"

definition NumProcessing :: "Topological \<Rightarrow> int" where
  "NumProcessing ts = int (card (dom (ts_blocks ts))) - 1"

definition Processing :: "Topological \<Rightarrow> ID \<Rightarrow> bool" where
  "Processing ts blkID =
     (if blkID = ts_lastAcceptedID ts then False else ts_blocks ts blkID \<noteq> None)"

definition IsPreferred :: "Topological \<Rightarrow> ID \<Rightarrow> bool" where
  "IsPreferred ts blkID \<longleftrightarrow> blkID = ts_lastAcceptedID ts \<or> blkID \<in> ts_preferredIDs ts"

definition LastAccepted :: "Topological \<Rightarrow> ID \<times> nat" where
  "LastAccepted ts = (ts_lastAcceptedID ts, ts_lastAcceptedHeight ts)"

definition Topological_Preference :: "Topological \<Rightarrow> ID" where
  "Topological_Preference ts = ts_preference ts"

definition PreferenceAtHeight :: "Topological \<Rightarrow> nat \<Rightarrow> ID option" where
  "PreferenceAtHeight ts height =
     (if height = ts_lastAcceptedHeight ts then Some (ts_lastAcceptedID ts)
      else ts_preferredHeights ts height)"

definition GetParent :: "Topological \<Rightarrow> ID \<Rightarrow> ID option" where
  "GetParent ts x =
     (case ts_blocks ts x of
        None \<Rightarrow> None
      | Some n \<Rightarrow> (case sm_blk n of None \<Rightarrow> None | Some blk \<Rightarrow> Some (block_Parent blk)))"

datatype health_error =
    errTooManyProcessingBlocks int int
  | errBlockProcessingTooLong int int

definition HealthCheck :: "Topological \<Rightarrow> int \<Rightarrow> (int \<times> int \<times> ID \<times> nat) \<times> health_error list" where
  "HealthCheck ts maxTimeProcessing =
     (let numProcessingBlks = NumProcessing ts;
          errs = (if numProcessingBlks > MaxOutstandingItems (ts_params ts)
                  then [errTooManyProcessingBlocks numProcessingBlks (MaxOutstandingItems (ts_params ts))]
                  else []);
          errs = (if maxTimeProcessing > MaxItemProcessingTime (ts_params ts)
                  then errs @ [errBlockProcessingTooLong maxTimeProcessing (MaxItemProcessingTime (ts_params ts))]
                  else errs)
      in ((numProcessingBlks, maxTimeProcessing, ts_lastAcceptedID ts, ts_lastAcceptedHeight ts), errs))"

section \<open>Adding a block\<close>

definition Topological_Add :: "Topological \<Rightarrow> Block \<Rightarrow> Topological \<times> consensus_error option" where
  "Topological_Add ts blk =
     (let blkID = block_ID blk; height = block_Height blk; parentID = block_Parent blk
      in if Processing ts blkID then (ts, Some errDuplicateAdd)
         else case ts_blocks ts parentID of
           None \<Rightarrow> (ts, Some errUnknownParentBlock)
         | Some parentNode \<Rightarrow>
             let parentNode = snowmanBlock_AddChild (ts_Factory ts) (ts_params ts) parentNode blk;
                 ts = ts\<lparr>ts_blocks := (ts_blocks ts)(parentID \<mapsto> parentNode,
                                                    blkID \<mapsto> new_snowmanBlock (Some blk))\<rparr>;
                 ts = (if ts_preference ts = parentID
                       then ts\<lparr>ts_preference := blkID,
                               ts_preferredIDs := insert blkID (ts_preferredIDs ts),
                               ts_preferredHeights := (ts_preferredHeights ts)(height \<mapsto> blkID)\<rparr>
                       else ts)
             in (ts, None))"

section \<open>Collecting the votes\<close>

definition new_kahnNode :: kahnNode where
  "new_kahnNode = \<lparr>kahn_inDegree = 0, kahn_votes = Bag_empty\<rparr>"

text \<open>Reading a Go map gives the zero value for a missing key, and whether the key is present.\<close>

definition kahn_get :: "(ID \<rightharpoonup> kahnNode) \<Rightarrow> ID \<Rightarrow> kahnNode" where
  "kahn_get kahnNodes x = (case kahnNodes x of None \<Rightarrow> new_kahnNode | Some k \<Rightarrow> k)"

partial_function (option) markAncestorInDegrees :: "Topological \<Rightarrow> ID \<Rightarrow> Topological option" where
  "markAncestorInDegrees ts parentID =
     (case ts_blocks ts parentID of
        None \<Rightarrow> None
      | Some n \<Rightarrow>
          if ts_Decided ts n then Some ts
          else case sm_blk n of
            None \<Rightarrow> None
          | Some blk \<Rightarrow>
              let parentID = block_Parent blk;
                  kahn = kahn_get (ts_kahnNodes ts) parentID;
                  previouslySeen = ts_kahnNodes ts parentID \<noteq> None;
                  ts = ts\<lparr>ts_kahnNodes := (ts_kahnNodes ts)
                            (parentID \<mapsto> kahn\<lparr>kahn_inDegree := kahn_inDegree kahn + 1\<rparr>)\<rparr>
              in if previouslySeen then Some (ts\<lparr>ts_leaves := ts_leaves ts - {parentID}\<rparr>)
                 else markAncestorInDegrees ts parentID)"

definition calculateInDegree_vote :: "ID Bag \<Rightarrow> Topological \<Rightarrow> ID \<Rightarrow> Topological option" where
  "calculateInDegree_vote votes ts vote =
     (case ts_blocks ts vote of
        None \<Rightarrow> Some ts
      | Some votedBlock \<Rightarrow>
          if ts_Decided ts votedBlock then Some ts
          else case sm_blk votedBlock of
            None \<Rightarrow> None
          | Some blk \<Rightarrow>
              let parentID = block_Parent blk;
                  numVotes = Bag_Count votes vote;
                  kahn = kahn_get (ts_kahnNodes ts) parentID;
                  previouslySeen = ts_kahnNodes ts parentID \<noteq> None;
                  kahn = kahn\<lparr>kahn_votes := Bag_AddCount (kahn_votes kahn) vote numVotes\<rparr>;
                  ts = ts\<lparr>ts_kahnNodes := (ts_kahnNodes ts)(parentID \<mapsto> kahn)\<rparr>
              in if previouslySeen then Some ts
                 else markAncestorInDegrees (ts\<lparr>ts_leaves := insert parentID (ts_leaves ts)\<rparr>) parentID)"

fun calculateInDegree_loop :: "ID Bag \<Rightarrow> ID list \<Rightarrow> Topological \<Rightarrow> Topological option" where
  "calculateInDegree_loop votes [] ts = Some ts"
| "calculateInDegree_loop votes (vote # rest) ts =
     do { ts \<leftarrow> calculateInDegree_vote votes ts vote; calculateInDegree_loop votes rest ts }"

definition calculateInDegree :: "Topological \<Rightarrow> ID Bag \<Rightarrow> Topological option" where
  "calculateInDegree ts votes =
     calculateInDegree_loop votes (Bag_List votes) (ts\<lparr>ts_kahnNodes := Map.empty, ts_leaves := {}\<rparr>)"

partial_function (option) pushVotes_loop ::
    "(ID set \<Rightarrow> ID) \<Rightarrow> Topological \<Rightarrow> votes list \<Rightarrow> (Topological \<times> votes list) option" where
  "pushVotes_loop pop ts voteStack =
     (if ts_leaves ts = {} then Some (ts, voteStack)
      else
        let leafID = pop (ts_leaves ts);
            ts = ts\<lparr>ts_leaves := ts_leaves ts - {leafID}\<rparr>;
            kahnNode = kahn_get (ts_kahnNodes ts) leafID;
            voteStack = (if Bag_Len (kahn_votes kahnNode) \<ge> AlphaPreference (ts_params ts)
                         then voteStack @ [\<lparr>votes_parentID = leafID, votes_votes = kahn_votes kahnNode\<rparr>]
                         else voteStack)
        in case ts_blocks ts leafID of
             None \<Rightarrow> None
           | Some block \<Rightarrow>
               if ts_Decided ts block then pushVotes_loop pop ts voteStack
               else case sm_blk block of
                 None \<Rightarrow> None
               | Some blk \<Rightarrow>
                   let parentID = block_Parent blk;
                       parentKahnNode = kahn_get (ts_kahnNodes ts) parentID;
                       parentKahnNode = parentKahnNode
                         \<lparr>kahn_inDegree := kahn_inDegree parentKahnNode - 1,
                          kahn_votes := Bag_AddCount (kahn_votes parentKahnNode) leafID
                                          (Bag_Len (kahn_votes kahnNode))\<rparr>;
                       ts = ts\<lparr>ts_kahnNodes := (ts_kahnNodes ts)(parentID \<mapsto> parentKahnNode)\<rparr>;
                       ts = (if kahn_inDegree parentKahnNode = 0
                             then ts\<lparr>ts_leaves := insert parentID (ts_leaves ts)\<rparr> else ts)
                   in pushVotes_loop pop ts voteStack)"

definition pushVotes :: "(ID set \<Rightarrow> ID) \<Rightarrow> Topological \<Rightarrow> (Topological \<times> votes list) option" where
  "pushVotes pop ts = pushVotes_loop pop ts []"

section \<open>Accepting and rejecting\<close>

definition record_call :: "Topological \<Rightarrow> vm_call \<Rightarrow> Topological" where
  "record_call ts c = ts\<lparr>ts_calls := ts_calls ts @ [c]\<rparr>"

text \<open>Rejecting the children of a block in iteration order, without the one with ID \<open>skip\<close> if
  there is one; the IDs of the rejected children are appended to \<open>acc\<close>.\<close>

fun reject_children :: "vm \<Rightarrow> ID option \<Rightarrow> (ID \<times> Block) list \<Rightarrow> Topological \<Rightarrow> ID list
    \<Rightarrow> Topological \<times> consensus_error option \<times> ID list" where
  "reject_children vm skip [] ts acc = (ts, None, acc)"
| "reject_children vm skip ((childID, child) # rest) ts acc =
     (if Some childID = skip then reject_children vm skip rest ts acc
      else
        let ts = record_call ts (BlockReject (block_ID child))
        in if vm_reject vm (block_ID child) then reject_children vm skip rest ts (acc @ [childID])
           else (ts, Some (errReject (block_ID child)), acc))"

partial_function (option) rejectTransitively ::
    "vm \<Rightarrow> Topological \<Rightarrow> ID list \<Rightarrow> (Topological \<times> consensus_error option) option" where
  "rejectTransitively vm ts rejected =
     (if rejected = [] then Some (ts, None)
      else
        let rejectedID = last rejected; rejected = butlast rejected
        in case ts_blocks ts rejectedID of
             None \<Rightarrow> None
           | Some rejectedNode \<Rightarrow>
               let ts = ts\<lparr>ts_blocks := (ts_blocks ts)(rejectedID := None)\<rparr>;
                   (ts, err, rejected) = reject_children vm None (sm_children rejectedNode) ts rejected
               in if err \<noteq> None then Some (ts, err) else rejectTransitively vm ts rejected)"

definition acceptPreferredChild ::
    "vm \<Rightarrow> Topological \<Rightarrow> snowmanBlock \<Rightarrow> (Topological \<times> consensus_error option) option" where
  "acceptPreferredChild vm ts n =
     (case sm_sb n of
        None \<Rightarrow> None
      | Some sb \<Rightarrow>
          let pref = Tree_Preference sb
          in case map_of (sm_children n) pref of
               None \<Rightarrow> None
             | Some child \<Rightarrow>
                 let ts = record_call ts (AcceptorAccept pref)
                 in if \<not> vm_acceptor vm pref then Some (ts, Some (errAcceptor pref))
                    else
                      let height = block_Height child;
                          ts = record_call ts (BlockAccept (block_ID child))
                      in if \<not> vm_accept vm (block_ID child) then Some (ts, Some (errAccept (block_ID child)))
                         else
                           let ts = ts\<lparr>ts_lastAcceptedID := pref, ts_lastAcceptedHeight := height,
                                       ts_preferredIDs := ts_preferredIDs ts - {pref},
                                       ts_preferredHeights := (ts_preferredHeights ts)(height := None)\<rparr>;
                               (ts, err, rejects) = reject_children vm (Some pref) (sm_children n) ts []
                           in if err \<noteq> None then Some (ts, err) else rejectTransitively vm ts rejects)"

section \<open>Voting\<close>

text \<open>Marking the children whose confidence has to be reset, if they are still in the tree.\<close>

definition falter_child :: "bool \<Rightarrow> ID \<Rightarrow> ID \<Rightarrow> Topological \<Rightarrow> Topological" where
  "falter_child shouldTransitivelyFalter nextID childID ts =
     (if \<not> shouldTransitivelyFalter \<and> childID = nextID then ts
      else case ts_blocks ts childID of
        None \<Rightarrow> ts
      | Some childBlock \<Rightarrow>
          ts\<lparr>ts_blocks := (ts_blocks ts)(childID \<mapsto> childBlock\<lparr>sm_shouldFalter := True\<rparr>)\<rparr>)"

text \<open>The vote stack with its top first.\<close>

fun vote_loop :: "vm \<Rightarrow> votes list \<Rightarrow> Topological \<Rightarrow> ID \<Rightarrow> bool
    \<Rightarrow> (Topological \<times> (consensus_error + ID)) option" where
  "vote_loop vm [] ts newPreferred onPreferredBranch = Some (ts, Inr newPreferred)"
| "vote_loop vm (vote # voteStack) ts newPreferred onPreferredBranch =
     (case ts_blocks ts (votes_parentID vote) of
        None \<Rightarrow> Some (ts, Inr newPreferred)
      | Some parentBlock \<Rightarrow>
          let shouldTransitivelyFalter = sm_shouldFalter parentBlock
          in case sm_sb parentBlock of
               None \<Rightarrow> None
             | Some sb \<Rightarrow>
                 let sb = (if shouldTransitivelyFalter then Tree_RecordUnsuccessfulPoll sb else sb);
                     sb = fst (Tree_RecordPoll sb (votes_votes vote));
                     parentBlock = parentBlock\<lparr>sm_shouldFalter := False, sm_sb := Some sb\<rparr>;
                     ts = ts\<lparr>ts_blocks := (ts_blocks ts)(votes_parentID vote \<mapsto> parentBlock)\<rparr>
                 in do {
                      (ts, err) \<leftarrow>
                        (if Tree_Finalized sb \<and> ts_lastAcceptedID ts = votes_parentID vote
                         then do {
                           (ts, err) \<leftarrow> acceptPreferredChild vm ts parentBlock;
                           Some (if err = None
                                 then ts\<lparr>ts_blocks := (ts_blocks ts)(votes_parentID vote := None)\<rparr>
                                 else ts, err) }
                         else Some (ts, None));
                      (case err of
                         Some e \<Rightarrow> Some (ts, Inl e)
                       | None \<Rightarrow>
                           let parentPreference = Tree_Preference sb;
                               newPreferred = (if onPreferredBranch then parentPreference else newPreferred);
                               nextID = (case voteStack of [] \<Rightarrow> ids_Empty | v # _ \<Rightarrow> votes_parentID v);
                               onPreferredBranch = (onPreferredBranch \<and> nextID = parentPreference);
                               ts = fold (falter_child shouldTransitivelyFalter nextID)
                                      (map fst (sm_children parentBlock)) ts
                           in vote_loop vm voteStack ts newPreferred onPreferredBranch) })"

definition Topological_vote ::
    "vm \<Rightarrow> Topological \<Rightarrow> votes list \<Rightarrow> (Topological \<times> (consensus_error + ID)) option" where
  "Topological_vote vm ts voteStack =
     (if voteStack = [] then
        (case ts_blocks ts (ts_lastAcceptedID ts) of
           None \<Rightarrow> None
         | Some lastAcceptedBlock \<Rightarrow>
             Some (ts\<lparr>ts_blocks := (ts_blocks ts)
                        (ts_lastAcceptedID ts \<mapsto> lastAcceptedBlock\<lparr>sm_shouldFalter := True\<rparr>)\<rparr>,
                   Inr (ts_preference ts)))
      else vote_loop vm (rev voteStack) ts (ts_lastAcceptedID ts) True)"

section \<open>Recording a poll\<close>

partial_function (option) markPreferredAncestors :: "Topological \<Rightarrow> ID \<Rightarrow> Topological option" where
  "markPreferredAncestors ts x =
     (case ts_blocks ts x of
        None \<Rightarrow> None
      | Some block \<Rightarrow>
          if ts_Decided ts block then Some ts
          else case sm_blk block of
            None \<Rightarrow> None
          | Some blk \<Rightarrow>
              let blkID = block_ID blk;
                  ts = ts\<lparr>ts_preferredIDs := insert blkID (ts_preferredIDs ts),
                          ts_preferredHeights := (ts_preferredHeights ts)(block_Height blk \<mapsto> blkID)\<rparr>
              in markPreferredAncestors ts (block_Parent blk))"

partial_function (option) followPreferences :: "Topological \<Rightarrow> ID \<Rightarrow> Topological option" where
  "followPreferences ts x =
     (case ts_blocks ts x of
        None \<Rightarrow> None
      | Some block \<Rightarrow>
          (case sm_sb block of
             None \<Rightarrow> Some ts
           | Some sb \<Rightarrow>
               let ts = ts\<lparr>ts_preference := Tree_Preference sb,
                           ts_preferredIDs := insert (Tree_Preference sb) (ts_preferredIDs ts)\<rparr>
               in case ts_blocks ts (Tree_Preference sb) of
                    None \<Rightarrow> None
                  | Some block \<Rightarrow>
                      (case sm_blk block of
                         None \<Rightarrow> None
                       | Some blk \<Rightarrow>
                           followPreferences
                             (ts\<lparr>ts_preferredHeights :=
                                   (ts_preferredHeights ts)(block_Height blk \<mapsto> Tree_Preference sb)\<rparr>)
                             (Tree_Preference sb))))"

definition updatePreference :: "Topological \<Rightarrow> ID \<Rightarrow> Topological option" where
  "updatePreference ts preferred =
     (if preferred \<in> ts_preferredIDs ts then Some ts
      else
        let ts = ts\<lparr>ts_preferredIDs := {}, ts_preferredHeights := Map.empty, ts_preference := preferred\<rparr>
        in do {
             ts \<leftarrow> markPreferredAncestors ts preferred;
             followPreferences ts preferred })"

definition Topological_RecordPoll ::
    "(ID set \<Rightarrow> ID) \<Rightarrow> vm \<Rightarrow> Topological \<Rightarrow> ID Bag \<Rightarrow> (Topological \<times> consensus_error option) option" where
  "Topological_RecordPoll pop vm ts voteBag =
     (let ts = ts\<lparr>ts_pollNumber := ts_pollNumber ts + 1\<rparr>
      in do {
           (ts, voteStack) \<leftarrow>
             (if Bag_Len voteBag \<ge> AlphaPreference (ts_params ts)
              then do { ts \<leftarrow> calculateInDegree ts voteBag; pushVotes pop ts }
              else Some (ts, []));
           (ts, r) \<leftarrow> Topological_vote vm ts voteStack;
           (case r of
              Inl e \<Rightarrow> Some (ts, Some e)
            | Inr preferred \<Rightarrow> do { ts \<leftarrow> updatePreference ts preferred; Some (ts, None) }) })"

end
