(* ===== verification/Topological_Inv.thy ===== *)
theory Topological_Inv
  imports Topological
begin

text \<open>
  The invariant of the chain consensus and the parts of a poll that do not change the tree of
  blocks: collecting the votes (the in-degrees and the pushing of votes) ends without a panic and
  yields a stack of votes for blocks that have children.
\<close>

section \<open>The invariant\<close>

definition block_kids :: "Topological \<Rightarrow> ID \<Rightarrow> ID set" where
  "block_kids ts x = (case ts_blocks ts x of None \<Rightarrow> {} | Some n \<Rightarrow> fst ` set (sm_children n))"

definition height_of :: "Topological \<Rightarrow> ID \<Rightarrow> nat" where
  "height_of ts x = (if x = ts_lastAcceptedID ts then ts_lastAcceptedHeight ts
     else case ts_blocks ts x of None \<Rightarrow> 0
       | Some n \<Rightarrow> (case sm_blk n of None \<Rightarrow> 0 | Some b \<Rightarrow> block_Height b))"

text \<open>A block of the tree: its snow tree decides between its children, and its children are
  blocks of the tree.\<close>

definition node_ok :: "Topological \<Rightarrow> ID \<Rightarrow> snowmanBlock \<Rightarrow> bool" where
  "node_ok ts x n \<longleftrightarrow>
     distinct (map fst (sm_children n)) \<and> (sm_sb n = None \<longleftrightarrow> sm_children n = []) \<and>
     (\<forall>sb. sm_sb n = Some sb \<longrightarrow>
        tree_inv sb \<and> tree_params sb = ts_params ts \<and> Tree_choices sb \<subseteq> fst ` set (sm_children n)) \<and>
     (\<forall>c b. (c, b) \<in> set (sm_children n) \<longrightarrow>
        block_ID b = c \<and> block_Parent b = x \<and> c \<noteq> ts_lastAcceptedID ts \<and>
        (\<exists>m. ts_blocks ts c = Some m \<and> sm_blk m = Some b))"

text \<open>A block other than the last accepted one is a child of its parent, one higher.\<close>

definition linked :: "Topological \<Rightarrow> ID \<Rightarrow> snowmanBlock \<Rightarrow> bool" where
  "linked ts x n \<longleftrightarrow> (\<exists>b m. sm_blk n = Some b \<and> block_ID b = x \<and> ts_blocks ts (block_Parent b) = Some m \<and>
     (x, b) \<in> set (sm_children m) \<and> block_Height b = Suc (height_of ts (block_Parent b)))"

definition topo_inv :: "Topological \<Rightarrow> bool" where
  "topo_inv ts \<longleftrightarrow>
     (\<exists>n. ts_blocks ts (ts_lastAcceptedID ts) = Some n \<and>
        (\<forall>b. sm_blk n = Some b \<longrightarrow> block_Height b = ts_lastAcceptedHeight ts)) \<and>
     (\<forall>x n. ts_blocks ts x = Some n \<longrightarrow> node_ok ts x n) \<and>
     (\<forall>x n. ts_blocks ts x = Some n \<longrightarrow> x \<noteq> ts_lastAcceptedID ts \<longrightarrow> linked ts x n)"

lemma topo_invD:
  assumes "topo_inv ts"
  shows "\<exists>n. ts_blocks ts (ts_lastAcceptedID ts) = Some n \<and>
        (\<forall>b. sm_blk n = Some b \<longrightarrow> block_Height b = ts_lastAcceptedHeight ts)"
    "ts_blocks ts x = Some n \<Longrightarrow> node_ok ts x n"
    "ts_blocks ts x = Some n \<Longrightarrow> x \<noteq> ts_lastAcceptedID ts \<Longrightarrow> linked ts x n"
  using assms by (simp_all add: topo_inv_def)

text \<open>All the processing blocks are higher than the last accepted block.\<close>

lemma height_above:
  assumes inv: "topo_inv ts" and x: "ts_blocks ts x = Some n" "x \<noteq> ts_lastAcceptedID ts"
  shows "ts_lastAcceptedHeight ts < height_of ts x"
  using x
proof (induction "height_of ts x" arbitrary: x n rule: less_induct)
  case less
  from topo_invD(3) [OF inv less.prems] obtain b m where b: "sm_blk n = Some b"
    "ts_blocks ts (block_Parent b) = Some m" "block_Height b = Suc (height_of ts (block_Parent b))"
    by (auto simp: linked_def)
  have h: "height_of ts x = Suc (height_of ts (block_Parent b))"
    using less.prems b by (simp add: height_of_def)
  show ?case
  proof (cases "block_Parent b = ts_lastAcceptedID ts")
    case True
    then show ?thesis by (simp only: h) (simp add: height_of_def)
  next
    case False
    then show ?thesis using less.hyps [OF _ b(2)] h by simp
  qed
qed

lemma decided_iff:
  assumes inv: "topo_inv ts" and x: "ts_blocks ts x = Some n"
  shows "ts_Decided ts n \<longleftrightarrow> x = ts_lastAcceptedID ts"
proof (cases "x = ts_lastAcceptedID ts")
  case True
  with topo_invD(1) [OF inv] x show ?thesis
    by (auto simp: ts_Decided_def snowmanBlock_Decided_def split: option.splits)
next
  case False
  from topo_invD(3) [OF inv x False] obtain b where b: "sm_blk n = Some b" by (auto simp: linked_def)
  with height_above [OF inv x False] x False show ?thesis
    by (simp add: ts_Decided_def snowmanBlock_Decided_def height_of_def)
qed

lemma block_parent:
  assumes "topo_inv ts" "ts_blocks ts x = Some n" "\<not> ts_Decided ts n"
  obtains b m where "sm_blk n = Some b" "block_ID b = x" "ts_blocks ts (block_Parent b) = Some m"
    "(x, b) \<in> set (sm_children m)" "sm_sb m \<noteq> None" "height_of ts x = Suc (height_of ts (block_Parent b))"
    "x \<noteq> ts_lastAcceptedID ts"
proof -
  have ne: "x \<noteq> ts_lastAcceptedID ts" using decided_iff [OF assms(1,2)] assms(3) by simp
  from topo_invD(3) [OF assms(1,2) ne] obtain b m where b: "sm_blk n = Some b" "block_ID b = x"
    "ts_blocks ts (block_Parent b) = Some m" "(x, b) \<in> set (sm_children m)"
    "block_Height b = Suc (height_of ts (block_Parent b))" by (auto simp: linked_def)
  moreover have "sm_sb m \<noteq> None" using topo_invD(2) [OF assms(1) b(3)] b(4) by (auto simp: node_ok_def)
  moreover have "height_of ts x = Suc (height_of ts (block_Parent b))" using ne assms(2) b by (simp add: height_of_def)
  ultimately show thesis using that ne by blast
qed

section \<open>The vote collection does not touch the tree\<close>

definition kahn_update :: "Topological \<Rightarrow> (ID \<rightharpoonup> kahnNode) \<Rightarrow> ID set \<Rightarrow> Topological" where
  "kahn_update ts k l = ts\<lparr>ts_kahnNodes := k, ts_leaves := l\<rparr>"

lemma kahn_update_simps [simp]:
  "ts_blocks (kahn_update ts k l) = ts_blocks ts"
  "ts_lastAcceptedID (kahn_update ts k l) = ts_lastAcceptedID ts"
  "ts_lastAcceptedHeight (kahn_update ts k l) = ts_lastAcceptedHeight ts"
  "ts_params (kahn_update ts k l) = ts_params ts"
  "ts_kahnNodes (kahn_update ts k l) = k" "ts_leaves (kahn_update ts k l) = l"
  "(kahn_update ts k l)\<lparr>ts_kahnNodes := k'\<rparr> = kahn_update ts k' l"
  "(kahn_update ts k l)\<lparr>ts_leaves := l'\<rparr> = kahn_update ts k l'"
  "kahn_update (kahn_update ts k l) k' l' = kahn_update ts k' l'"
  "ts_Decided (kahn_update ts k l) = ts_Decided ts"
  by (simp_all add: kahn_update_def ts_Decided_def fun_eq_iff)

lemma topo_inv_kahn_update [simp]: "topo_inv (kahn_update ts k l) = topo_inv ts"
  by (simp add: topo_inv_def node_ok_def linked_def height_of_def)

text \<open>The Kahn nodes carry well-formed votes and belong to blocks with children.\<close>

definition kahn_ok :: "Topological \<Rightarrow> (ID \<rightharpoonup> kahnNode) \<Rightarrow> ID set \<Rightarrow> bool" where
  "kahn_ok ts k l \<longleftrightarrow> l \<subseteq> dom k \<and>
     (\<forall>x n. k x = Some n \<longrightarrow> bag_wf (kahn_votes n) \<and> (\<exists>m. ts_blocks ts x = Some m \<and> sm_sb m \<noteq> None))"

lemma kahn_get_wf: "kahn_ok ts k l \<Longrightarrow> bag_wf (kahn_votes (kahn_get k x))"
  by (auto simp: kahn_ok_def kahn_get_def new_kahnNode_def split: option.splits)

lemma kahn_ok_update:
  "kahn_ok ts k l \<Longrightarrow> bag_wf (kahn_votes n) \<Longrightarrow> ts_blocks ts x = Some m \<Longrightarrow> sm_sb m \<noteq> None \<Longrightarrow>
   l' \<subseteq> insert x (dom k) \<Longrightarrow> kahn_ok ts (k(x \<mapsto> n)) l'"
  by (auto simp: kahn_ok_def)

lemma markAncestorInDegrees_returns:
  assumes inv: "topo_inv ts" and ok: "kahn_ok ts k l" and x: "ts_blocks ts x = Some n"
  shows "\<exists>k' l'. markAncestorInDegrees (kahn_update ts k l) x = Some (kahn_update ts k' l') \<and> kahn_ok ts k' l'"
  using ok x
proof (induction "height_of ts x" arbitrary: x n k l rule: less_induct)
  case less
  show ?case
  proof (cases "ts_Decided ts n")
    case True
    then show ?thesis using less.prems by (subst markAncestorInDegrees.simps) auto
  next
    case False
    from block_parent [OF inv less.prems(2) False] obtain b m where b: "sm_blk n = Some b"
      "ts_blocks ts (block_Parent b) = Some m" "sm_sb m \<noteq> None" "height_of ts x = Suc (height_of ts (block_Parent b))"
      by metis
    let ?p = "block_Parent b"
    let ?k = "k(?p \<mapsto> (kahn_get k ?p)\<lparr>kahn_inDegree := kahn_inDegree (kahn_get k ?p) + 1\<rparr>)"
    have "l \<subseteq> dom k" using less.prems by (simp add: kahn_ok_def)
    then have ok1: "kahn_ok ts ?k l" and ok2: "kahn_ok ts ?k (l - {?p})"
      using kahn_get_wf [OF less.prems(1), of ?p] by (auto intro!: kahn_ok_update [OF less.prems(1) _ b(2,3)])
    show ?thesis
    proof (cases "k ?p = None")
      case True
      from less.hyps [OF _ ok1 b(2)] b(4) obtain k' l' where
        "markAncestorInDegrees (kahn_update ts ?k l) ?p = Some (kahn_update ts k' l')" "kahn_ok ts k' l'" by auto
      then show ?thesis using False True less.prems(2) b(1)
        by (subst markAncestorInDegrees.simps) (auto simp: Let_def)
    next
      case seen: False
      then show ?thesis using False less.prems(2) b(1) ok2
        by (subst markAncestorInDegrees.simps) (auto simp: Let_def)
    qed
  qed
qed

lemma calculateInDegree_vote_returns:
  assumes inv: "topo_inv ts" and ok: "kahn_ok ts k l"
  shows "\<exists>k' l'. calculateInDegree_vote votes (kahn_update ts k l) vote = Some (kahn_update ts k' l') \<and> kahn_ok ts k' l'"
proof (cases "ts_blocks ts vote")
  case None
  then show ?thesis using ok by (auto simp: calculateInDegree_vote_def)
next
  case (Some n)
  show ?thesis
  proof (cases "ts_Decided ts n")
    case True
    then show ?thesis using Some ok by (auto simp: calculateInDegree_vote_def)
  next
    case False
    from block_parent [OF inv Some False] obtain b m where b: "sm_blk n = Some b"
      "ts_blocks ts (block_Parent b) = Some m" "sm_sb m \<noteq> None" by metis
    let ?p = "block_Parent b"
    let ?v = "(kahn_get k ?p)\<lparr>kahn_votes := Bag_AddCount (kahn_votes (kahn_get k ?p)) vote (Bag_Count votes vote)\<rparr>"
    have wf: "bag_wf (kahn_votes ?v)" using kahn_get_wf [OF ok] by simp
    have "l \<subseteq> dom k" using ok by (simp add: kahn_ok_def)
    then have ok1: "kahn_ok ts (k(?p \<mapsto> ?v)) l" and ok2: "kahn_ok ts (k(?p \<mapsto> ?v)) (insert ?p l)"
      by (auto intro!: kahn_ok_update [OF ok wf b(2,3)])
    show ?thesis
    proof (cases "k ?p = None")
      case True
      from markAncestorInDegrees_returns [OF inv ok2 b(2)] show ?thesis
        using True False Some b(1) by (simp add: calculateInDegree_vote_def Let_def)
    next
      case seen: False
      then show ?thesis using False Some b(1) ok1 by (auto simp: calculateInDegree_vote_def Let_def)
    qed
  qed
qed

lemma calculateInDegree_returns:
  assumes inv: "topo_inv ts"
  shows "\<exists>k l. calculateInDegree ts votes = Some (kahn_update ts k l) \<and> kahn_ok ts k l"
proof -
  have "\<exists>k' l'. calculateInDegree_loop votes vs (kahn_update ts k l) = Some (kahn_update ts k' l') \<and> kahn_ok ts k' l'"
    if "kahn_ok ts k l" for vs k l
    using that
  proof (induction vs arbitrary: k l)
    case (Cons v vs)
    from calculateInDegree_vote_returns [OF inv Cons.prems, of votes v] obtain k' l' where
      "calculateInDegree_vote votes (kahn_update ts k l) v = Some (kahn_update ts k' l')" "kahn_ok ts k' l'" by auto
    with Cons.IH [of k' l'] show ?case by simp
  qed auto
  from this [of Map.empty "{}" "Bag_List votes"] show ?thesis
    by (simp add: calculateInDegree_def kahn_ok_def kahn_update_def)
qed

section \<open>Pushing the votes\<close>

text \<open>What the code relies on of \<open>Pop\<close>: it returns an element of a non-empty set.\<close>

definition pop_ok :: "(ID set \<Rightarrow> ID) \<Rightarrow> bool" where
  "pop_ok pop \<longleftrightarrow> (\<forall>S. S \<noteq> {} \<longrightarrow> pop S \<in> S)"

definition vote_ok :: "Topological \<Rightarrow> votes \<Rightarrow> bool" where
  "vote_ok ts v \<longleftrightarrow> bag_wf (votes_votes v) \<and> AlphaPreference (ts_params ts) \<le> Bag_Len (votes_votes v) \<and>
     (\<exists>m. ts_blocks ts (votes_parentID v) = Some m \<and> sm_sb m \<noteq> None)"

lemma sum_pow_replace:
  fixes h :: "ID \<Rightarrow> nat"
  assumes "x \<in> l" "h p < h x"
  shows "(\<Sum>y \<in> insert p (l - {x}). 2 ^ h y) < (\<Sum>y \<in> l. (2::nat) ^ h y)"
    "(\<Sum>y \<in> l - {x}. 2 ^ h y) < (\<Sum>y \<in> l. (2::nat) ^ h y)"
proof -
  have l: "(\<Sum>y \<in> l. (2::nat) ^ h y) = 2 ^ h x + (\<Sum>y \<in> l - {x}. 2 ^ h y)"
    using assms(1) by (simp add: sum.remove)
  have "(2::nat) ^ h p < 2 ^ h x" using assms(2) by simp
  moreover have "(\<Sum>y \<in> insert p (l - {x}). (2::nat) ^ h y) \<le> 2 ^ h p + (\<Sum>y \<in> l - {x}. 2 ^ h y)"
    by (cases "p \<in> l - {x}") (simp_all add: insert_absorb)
  ultimately show "(\<Sum>y \<in> insert p (l - {x}). 2 ^ h y) < (\<Sum>y \<in> l. (2::nat) ^ h y)"
    using l by linarith
  show "(\<Sum>y \<in> l - {x}. 2 ^ h y) < (\<Sum>y \<in> l. (2::nat) ^ h y)" using l by simp
qed

lemma pushVotes_loop_returns:
  assumes inv: "topo_inv ts" and pop: "pop_ok pop"
    and "kahn_ok ts k l" "\<forall>v \<in> set st. vote_ok ts v"
  shows "\<exists>k' l' st'. pushVotes_loop pop (kahn_update ts k l) st = Some (kahn_update ts k' l', st') \<and>
    (\<forall>v \<in> set st'. vote_ok ts v)"
  using assms(3,4)
proof (induction "\<Sum>y \<in> l. (2::nat) ^ height_of ts y" arbitrary: k l st rule: less_induct)
  case less
  show ?case
  proof (cases "l = {}")
    case True
    then show ?thesis using less.prems by (subst pushVotes_loop.simps) auto
  next
    case ne: False
    let ?x = "pop l"
    have x: "?x \<in> l" using pop ne by (simp add: pop_ok_def)
    with less.prems(1) obtain kn where kx: "k ?x = Some kn" by (auto simp: kahn_ok_def)
    with less.prems(1) obtain n where kn: "k ?x = Some kn" "bag_wf (kahn_votes kn)"
      "ts_blocks ts ?x = Some n" "sm_sb n \<noteq> None" unfolding kahn_ok_def by blast
    have get: "kahn_get k ?x = kn" using kn by (simp add: kahn_get_def)
    let ?st = "if AlphaPreference (ts_params ts) \<le> Bag_Len (kahn_votes kn)
      then st @ [\<lparr>votes_parentID = ?x, votes_votes = kahn_votes kn\<rparr>] else st"
    have st: "\<forall>v \<in> set ?st. vote_ok ts v" using less.prems(2) kn by (auto simp: vote_ok_def)
    have ok0: "kahn_ok ts k (l - {?x})" using less.prems(1) by (auto simp: kahn_ok_def)
    note unfold = pushVotes_loop.simps [of pop "kahn_update ts k l" st]
    show ?thesis
    proof (cases "ts_Decided ts n")
      case True
      have lt: "(\<Sum>y \<in> l - {?x}. (2::nat) ^ height_of ts y) < (\<Sum>y \<in> l. 2 ^ height_of ts y)"
        using x by (simp add: sum.remove [of l ?x])
      from less.hyps [OF lt ok0 st] show ?thesis
        using True kn ne get by (subst unfold) (simp add: Let_def split: if_splits)
    next
      case False
      from block_parent [OF inv kn(3) False] obtain b m where b: "sm_blk n = Some b"
        "ts_blocks ts (block_Parent b) = Some m" "sm_sb m \<noteq> None" "height_of ts ?x = Suc (height_of ts (block_Parent b))"
        by metis
      let ?p = "block_Parent b"
      let ?k = "(kahn_get k ?p)\<lparr>kahn_inDegree := kahn_inDegree (kahn_get k ?p) - 1,
        kahn_votes := Bag_AddCount (kahn_votes (kahn_get k ?p)) ?x (Bag_Len (kahn_votes kn))\<rparr>"
      let ?l = "if kahn_inDegree ?k = 0 then insert ?p (l - {?x}) else l - {?x}"
      have "l - {?x} \<subseteq> dom k" using less.prems(1) by (auto simp: kahn_ok_def)
      then have ok: "kahn_ok ts (k(?p \<mapsto> ?k)) ?l"
        using kahn_get_wf [OF less.prems(1), of ?p] by (auto intro!: kahn_ok_update [OF less.prems(1) _ b(2,3)])
      have lt: "(\<Sum>y \<in> ?l. (2::nat) ^ height_of ts y) < (\<Sum>y \<in> l. 2 ^ height_of ts y)"
        using sum_pow_replace [OF x, of "height_of ts" ?p] b(4) by simp
      from less.hyps [OF lt ok st] show ?thesis
        using False kn ne get b(1) by (subst unfold) (simp add: Let_def split: if_splits)
    qed
  qed
qed

lemma collectVotes_returns:
  assumes inv: "topo_inv ts" and pop: "pop_ok pop"
  shows "\<exists>k l st. (do { ts \<leftarrow> calculateInDegree ts votes; pushVotes pop ts }) = Some (kahn_update ts k l, st) \<and>
    (\<forall>v \<in> set st. vote_ok ts v)"
proof -
  from calculateInDegree_returns [OF inv] obtain k l where
    c: "calculateInDegree ts votes = Some (kahn_update ts k l)" "kahn_ok ts k l" by blast
  from pushVotes_loop_returns [OF inv pop c(2), of "[]"] obtain k' l' st where
    "pushVotes_loop pop (kahn_update ts k l) [] = Some (kahn_update ts k' l', st)" "\<forall>v \<in> set st. vote_ok ts v" by auto
  with c(1) show ?thesis by (auto simp: pushVotes_def)
qed

end
