(* ===== verification/Block_Tree.thy ===== *)
theory Block_Tree
  imports Prelude
begin

text \<open>
  The interface between the chain consensus and the tree of its blocks: a finite tree given by
  its nodes, the children of a node, the root and the height of a node.  The locale's laws are what
  the consensus keeps of its block map; the lemmas are the facts on descendants, ancestors
  and votes summed over subtrees that the vote counting and the rejection of blocks rely on.
\<close>

locale block_tree =
  fixes N :: "'a set" and K :: "'a \<Rightarrow> 'a set" and root :: 'a and ht :: "'a \<Rightarrow> nat"
  assumes finite_N: "finite N"
    and root_N: "root \<in> N"
    and kids: "c \<in> K x \<Longrightarrow> x \<in> N \<and> c \<in> N \<and> c \<noteq> root \<and> ht c = Suc (ht x)"
    and one_parent: "c \<in> K x \<Longrightarrow> c \<in> K y \<Longrightarrow> x = y"
    and parent_ex: "x \<in> N \<Longrightarrow> x \<noteq> root \<Longrightarrow> \<exists>p. x \<in> K p"
begin

definition edge :: "('a \<times> 'a) set" where
  "edge = {(x, c). c \<in> K x}"

text \<open>The strict descendants of a node.\<close>

definition below :: "'a \<Rightarrow> 'a set" where
  "below x = {y. (x, y) \<in> edge\<^sup>+}"

lemma edge_iff [simp]: "(x, c) \<in> edge \<longleftrightarrow> c \<in> K x"
  by (simp add: edge_def)

lemma ht_below: "y \<in> below x \<Longrightarrow> ht x < ht y"
proof -
  have "(x, y) \<in> edge\<^sup>+ \<Longrightarrow> ht x < ht y"
    by (induction rule: trancl_induct) (auto dest!: kids)
  then show "y \<in> below x \<Longrightarrow> ht x < ht y" by (simp add: below_def)
qed

lemma below_irrefl [simp]: "x \<notin> below x"
  using ht_below [of x x] by auto

lemma below_N: "y \<in> below x \<Longrightarrow> x \<in> N \<and> y \<in> N"
proof -
  have "(x, y) \<in> edge\<^sup>+ \<Longrightarrow> x \<in> N \<and> y \<in> N"
    by (induction rule: trancl_induct) (auto dest!: kids)
  then show "y \<in> below x \<Longrightarrow> x \<in> N \<and> y \<in> N" by (simp add: below_def)
qed

lemma finite_below [simp]: "finite (below x)"
  using finite_subset [OF _ finite_N, of "below x"] below_N by auto

lemma finite_kids [simp]: "finite (K x)"
  using finite_subset [OF _ finite_N, of "K x"] kids by auto

lemma below_trans: "y \<in> below x \<Longrightarrow> z \<in> below y \<Longrightarrow> z \<in> below x"
  by (simp add: below_def)

lemma kid_below: "c \<in> K x \<Longrightarrow> c \<in> below x"
  by (simp add: below_def trancl.r_into_trancl)

lemma below_unfold: "below x = (\<Union>c \<in> K x. insert c (below c))"
proof
  show "below x \<subseteq> (\<Union>c \<in> K x. insert c (below c))"
  proof
    fix y assume "y \<in> below x"
    then have "(x, y) \<in> edge\<^sup>+" by (simp add: below_def)
    then obtain c where "(x, c) \<in> edge" "(c, y) \<in> edge\<^sup>*" by (meson tranclD)
    then show "y \<in> (\<Union>c \<in> K x. insert c (below c))"
      by (auto simp: below_def dest: rtranclD)
  qed
  show "(\<Union>c \<in> K x. insert c (below c)) \<subseteq> below x"
    using kid_below below_trans by blast
qed

lemma below_parent: "y \<in> below x \<longleftrightarrow> (\<exists>p. y \<in> K p \<and> (p = x \<or> p \<in> below x))"
proof -
  have "(x, y) \<in> edge\<^sup>+ \<longleftrightarrow> (\<exists>p. (x, p) \<in> edge\<^sup>* \<and> (p, y) \<in> edge)"
    by (metis rtrancl_into_trancl1 tranclD2)
  then show ?thesis by (auto simp: below_def rtrancl_eq_or_trancl)
qed

lemma root_not_below [simp]: "root \<notin> below x"
  using below_parent kids by blast

text \<open>Every node but the root is below the root.\<close>

lemma below_root: "x \<in> N \<Longrightarrow> x \<noteq> root \<Longrightarrow> x \<in> below root"
proof (induction "ht x" arbitrary: x rule: less_induct)
  case less
  from parent_ex [OF less.prems] obtain p where p: "x \<in> K p" by blast
  then have "p \<in> N" "ht p < ht x" using kids [OF p] by auto
  with less.hyps [of p] p show ?case using below_parent by blast
qed

text \<open>The ancestors of a node form a chain.\<close>

lemma ancestors_chain:
  "z \<in> below x \<Longrightarrow> z \<in> below y \<Longrightarrow> x = y \<or> x \<in> below y \<or> y \<in> below x"
proof (induction "ht z" arbitrary: z rule: less_induct)
  case less
  from less.prems obtain p q where p: "z \<in> K p" "p = x \<or> p \<in> below x" and q: "z \<in> K q" "q = y \<or> q \<in> below y"
    by (meson below_parent)
  then have pq: "p = q" using one_parent by blast
  have "ht p < ht z" using kids [OF p(1)] by simp
  with less.hyps [of p] p q pq show ?case by auto
qed

lemma below_disjoint:
  "x \<noteq> y \<Longrightarrow> x \<notin> below y \<Longrightarrow> y \<notin> below x \<Longrightarrow> below x \<inter> below y = {}"
  using ancestors_chain by blast

lemma kids_disjoint:
  assumes "c \<in> K x" "d \<in> K x" "c \<noteq> d"
  shows "insert c (below c) \<inter> insert d (below d) = {}"
proof -
  have h: "ht c = ht d" using kids [OF assms(1)] kids [OF assms(2)] by simp
  have "c \<notin> below d" "d \<notin> below c" using ht_below h by force+
  with below_disjoint assms show ?thesis by auto
qed

text \<open>Weights summed over the strict descendants.\<close>

definition weight_below :: "('a \<Rightarrow> int) \<Rightarrow> 'a \<Rightarrow> int" where
  "weight_below w x = (\<Sum>y \<in> below x. w y)"

lemma weight_below_kids: "weight_below w x = (\<Sum>c \<in> K x. w c + weight_below w c)"
proof -
  have "weight_below w x = (\<Sum>c \<in> K x. \<Sum>y \<in> insert c (below c). w y)"
    unfolding weight_below_def
    by (subst below_unfold, rule sum.UNION_disjoint) (use kids_disjoint in auto)
  also have "\<dots> = (\<Sum>c \<in> K x. w c + weight_below w c)"
    by (simp add: weight_below_def)
  finally show ?thesis .
qed

lemma weight_below_mono:
  assumes "\<And>y. 0 \<le> w y" "y \<in> below x"
  shows "weight_below w y \<le> weight_below w x"
  unfolding weight_below_def using assms below_trans by (intro sum_mono2) auto

text \<open>Two nodes with a majority of the weight below them are on one branch.\<close>

lemma majority_comparable:
  assumes w: "\<And>y. 0 \<le> w y" and total: "(\<Sum>y \<in> N. w y) < 2 * alpha"
    and "alpha \<le> weight_below w x" "alpha \<le> weight_below w y"
  shows "x = y \<or> x \<in> below y \<or> y \<in> below x"
proof (rule ccontr)
  assume "\<not> ?thesis"
  then have "below x \<inter> below y = {}" using below_disjoint by blast
  then have "weight_below w x + weight_below w y = (\<Sum>z \<in> below x \<union> below y. w z)"
    by (simp add: weight_below_def sum.union_disjoint)
  also have "\<dots> \<le> (\<Sum>z \<in> N. w z)"
    using w below_N by (intro sum_mono2 finite_N) auto
  finally show False using assms by linarith
qed

text \<open>A subtree with its root.\<close>

definition subtree :: "'a set \<Rightarrow> 'a set" where
  "subtree S = S \<union> (\<Union>s \<in> S. below s)"

lemma subtree_closed: "x \<in> subtree S \<Longrightarrow> c \<in> K x \<Longrightarrow> c \<in> subtree S"
  by (auto simp: subtree_def intro: kid_below below_trans [OF _ kid_below])

lemma subtree_least:
  assumes "S \<subseteq> R" "\<And>x c. x \<in> R \<Longrightarrow> c \<in> K x \<Longrightarrow> c \<in> R"
  shows "subtree S \<subseteq> R"
proof -
  have "(s, y) \<in> edge\<^sup>+ \<Longrightarrow> s \<in> R \<Longrightarrow> y \<in> R" for s y
    by (induction rule: trancl_induct) (use assms(2) in auto)
  then show ?thesis using assms(1) by (auto simp: subtree_def below_def)
qed

lemma subtree_parent: "c \<in> subtree S \<Longrightarrow> c \<in> K x \<Longrightarrow> c \<in> S \<or> x \<in> subtree S"
proof -
  assume c: "c \<in> subtree S" "c \<in> K x"
  show ?thesis
  proof (cases "c \<in> S")
    case False
    with c obtain s where s: "s \<in> S" "c \<in> below s" by (auto simp: subtree_def)
    then obtain p where "c \<in> K p" "p = s \<or> p \<in> below s" using below_parent by blast
    with one_parent [OF c(2)] s show ?thesis by (auto simp: subtree_def)
  qed simp
qed

text \<open>A descending path inside the tree passes every node between its ends.\<close>

lemma path_covers:
  assumes "(a, b) \<in> R\<^sup>*" "R \<subseteq> edge" "z \<in> below a" "b = z \<or> b \<in> below z"
  shows "(a, z) \<in> R\<^sup>* \<and> (z, b) \<in> R\<^sup>*"
  using assms(1,4)
proof (induction rule: rtrancl_induct)
  case base
  then show ?case using ht_below [OF assms(3)] ht_below [of a z] by auto
next
  case (step y b)
  have y: "b \<in> K y" using step.hyps(2) assms(2) by auto
  show ?case
  proof (cases "b = z")
    case True
    then show ?thesis using step.hyps by auto
  next
    case False
    with step.prems have "b \<in> below z" by simp
    then obtain p where "b \<in> K p" "p = z \<or> p \<in> below z" using below_parent by blast
    with y have "y = z \<or> y \<in> below z" using one_parent by blast
    with step.IH step.hyps(2) show ?thesis by (meson rtrancl.rtrancl_into_rtrancl)
  qed
qed

lemma path_below: "(a, b) \<in> R\<^sup>* \<Longrightarrow> R \<subseteq> edge \<Longrightarrow> b = a \<or> b \<in> below a"
proof (induction rule: rtrancl_induct)
  case (step y b)
  then have "b \<in> K y" by auto
  with step show ?case using below_parent [of b a] by blast
qed simp

text \<open>The nodes of a path given as a list.\<close>

lemma chain_last:
  "successively (\<lambda>a b. b \<in> K a) (a # xs) \<Longrightarrow> last (a # xs) = a \<or> last (a # xs) \<in> below a"
proof (induction xs arbitrary: a)
  case (Cons b xs)
  then have "b \<in> below a" "last (b # xs) = b \<or> last (b # xs) \<in> below b" by (simp_all add: kid_below)
  then show ?case using below_trans [of b a "last (b # xs)"] by auto
qed simp

lemma chain_covers:
  "successively (\<lambda>a b. b \<in> K a) (a # xs) \<Longrightarrow>
   z \<in> set xs \<longleftrightarrow> z \<in> below a \<and> (last (a # xs) = z \<or> last (a # xs) \<in> below z)"
proof (induction xs arbitrary: a)
  case Nil
  show ?case using ht_below [of a z] ht_below [of z a] by auto
next
  case (Cons b xs)
  then have b: "b \<in> K a" and c: "successively (\<lambda>a b. b \<in> K a) (b # xs)" by simp_all
  let ?l = "last (b # xs)"
  note IH = Cons.IH [OF c] and last = chain_last [OF c]
  have "z = b \<or> z \<in> below b" if "z \<in> below a" "?l = z \<or> ?l \<in> below z"
  proof -
    have "z = b \<or> z \<in> below b \<or> b \<in> below z"
      using that(2) last ancestors_chain [of ?l z b] by metis
    moreover have "b \<notin> below z"
      using ht_below [OF that(1)] ht_below [of b z] kids [OF b] by auto
    ultimately show ?thesis by blast
  qed
  moreover have "z \<in> below a" if "z = b \<or> z \<in> below b" using that kid_below [OF b] below_trans by blast
  moreover have "last (a # b # xs) = ?l" by simp
  ultimately show ?case using IH last by auto
qed

end

end
