(* ===== verification/Topological_Kahn.thy ===== *)
theory Topological_Kahn
  imports Topological_Inv Block_Tree
begin

text \<open>
  The vote collection of the chain consensus: \<open>calculateInDegree\<close> and \<open>pushVotes\<close> sort the blocks
  topologically and push the votes towards the last accepted block.  The result is shown to be the
  transitive vote count: the stack holds exactly the blocks below which there are at least
  \<open>AlphaPreference\<close> votes, each with the votes of the whole subtree of each child.
\<close>

section \<open>The tree of the blocks\<close>

definition tree_nodes :: "Topological \<Rightarrow> ID set" where
  "tree_nodes ts = (if topo_inv ts then dom (ts_blocks ts) else {ts_lastAcceptedID ts})"

definition tree_kids :: "Topological \<Rightarrow> ID \<Rightarrow> ID set" where
  "tree_kids ts x = (if topo_inv ts then block_kids ts x else {})"

lemma tree_kids_D:
  assumes "c \<in> tree_kids ts x"
  obtains n m b where "topo_inv ts" "ts_blocks ts x = Some n" "(c, b) \<in> set (sm_children n)"
    "ts_blocks ts c = Some m" "sm_blk m = Some b" "block_Parent b = x" "block_ID b = c"
    "c \<noteq> ts_lastAcceptedID ts"
proof -
  have inv: "topo_inv ts" using assms by (simp add: tree_kids_def split: if_splits)
  with assms obtain n b where n: "ts_blocks ts x = Some n" "(c, b) \<in> set (sm_children n)"
    by (auto simp: tree_kids_def block_kids_def split: option.splits)
  with topo_invD(2) [OF inv n(1)] that inv show thesis by (fastforce simp: node_ok_def)
qed

lemma tree_kids_I:
  "topo_inv ts \<Longrightarrow> ts_blocks ts x = Some n \<Longrightarrow> (c, b) \<in> set (sm_children n) \<Longrightarrow> c \<in> tree_kids ts x"
  by (auto simp: tree_kids_def block_kids_def image_iff intro: bexI [of _ "(c, b)"])

interpretation bt: block_tree "tree_nodes ts" "tree_kids ts" "ts_lastAcceptedID ts" "height_of ts" for ts
proof
  show "finite (tree_nodes ts)" by simp
  show "ts_lastAcceptedID ts \<in> tree_nodes ts"
    using topo_invD(1) [of ts] by (auto simp: tree_nodes_def)
next
  fix c x
  assume "c \<in> tree_kids ts x"
  then obtain n m b where k: "topo_inv ts" "ts_blocks ts x = Some n" "(c, b) \<in> set (sm_children n)"
    "ts_blocks ts c = Some m" "sm_blk m = Some b" "block_Parent b = x" "c \<noteq> ts_lastAcceptedID ts"
    by (rule tree_kids_D)
  moreover have "height_of ts c = Suc (height_of ts x)"
    using topo_invD(3) [OF k(1,4,7)] k by (auto simp: linked_def height_of_def)
  ultimately show "x \<in> tree_nodes ts \<and> c \<in> tree_nodes ts \<and> c \<noteq> ts_lastAcceptedID ts \<and>
      height_of ts c = Suc (height_of ts x)" by (auto simp: tree_nodes_def)
next
  fix c x y
  assume "c \<in> tree_kids ts x" "c \<in> tree_kids ts y"
  then show "x = y" by (metis option.inject tree_kids_D)
next
  fix x
  assume x: "x \<in> tree_nodes ts" "x \<noteq> ts_lastAcceptedID ts"
  then have inv: "topo_inv ts" by (simp add: tree_nodes_def split: if_splits)
  with x obtain n where n: "ts_blocks ts x = Some n" by (auto simp: tree_nodes_def)
  from topo_invD(3) [OF inv n x(2)] obtain b m where "ts_blocks ts (block_Parent b) = Some m" "(x, b) \<in> set (sm_children m)"
    by (auto simp: linked_def)
  then show "\<exists>p. x \<in> tree_kids ts p" using tree_kids_I [OF inv] by blast
qed

lemma block_parent_kid:
  assumes inv: "topo_inv ts" and x: "ts_blocks ts x = Some n" "x \<noteq> ts_lastAcceptedID ts"
  obtains b m where "sm_blk n = Some b" "x \<in> tree_kids ts (block_Parent b)" "ts_blocks ts (block_Parent b) = Some m"
proof -
  from topo_invD(3) [OF inv x] obtain b m where b: "sm_blk n = Some b" "ts_blocks ts (block_Parent b) = Some m"
    "(x, b) \<in> set (sm_children m)" by (auto simp: linked_def)
  from that [OF b(1) tree_kids_I [OF inv b(2,3)] b(2)] show thesis .
qed

section \<open>The in-degrees\<close>

lemma kahn_get_upd: "kahn_get (k(q \<mapsto> v)) p = (if p = q then v else kahn_get k p)"
  by (simp add: kahn_get_def)

definition kahn_degrees :: "Topological \<Rightarrow> ID set \<Rightarrow> (ID \<rightharpoonup> kahnNode) \<Rightarrow> ID set \<Rightarrow> bool" where
  "kahn_degrees ts D k l \<longleftrightarrow>
     (\<forall>p \<in> dom k. kahn_inDegree (kahn_get k p) = int (card (tree_kids ts p \<inter> D))) \<and>
     l = {p \<in> dom k. tree_kids ts p \<inter> D = {}}"

definition up_closed :: "Topological \<Rightarrow> ID set \<Rightarrow> ID set \<Rightarrow> bool" where
  "up_closed ts D E \<longleftrightarrow> (\<forall>z \<in> D. \<forall>q. z \<in> tree_kids ts q \<longrightarrow> z \<notin> E \<longrightarrow> q \<in> D)"

lemma up_closed_below:
  assumes "up_closed ts D {}" "z \<in> D" "z \<in> bt.below ts q"
  shows "q \<in> D"
  using assms(2,3)
proof (induction "height_of ts z" arbitrary: z rule: less_induct)
  case less
  from less.prems(2) obtain p where p: "z \<in> tree_kids ts p" "p = q \<or> p \<in> bt.below ts q"
    by (meson bt.below_parent)
  then have "p \<in> D" using assms(1) less.prems(1) by (auto simp: up_closed_def)
  moreover have "height_of ts p < height_of ts z" using bt.kids [OF p(1)] by simp
  ultimately show ?case using less.hyps [of p] p(2) by auto
qed

text \<open>Marking the ancestors of a new Kahn node \<open>y\<close>: before, the in-degrees do not count \<open>y\<close>.\<close>

lemma markAncestorInDegrees_correct:
  assumes inv: "topo_inv ts" and y: "ts_blocks ts y = Some n" "y \<in> dom k"
    and deg: "kahn_degrees ts (dom k - {y}) k l" and up: "up_closed ts (dom k) {y}"
  shows "\<exists>k' l'. markAncestorInDegrees (kahn_update ts k l) y = Some (kahn_update ts k' l') \<and>
    dom k' = dom k \<union> {q. y \<in> bt.below ts q} \<and> kahn_degrees ts (dom k') k' l' \<and> up_closed ts (dom k') {} \<and>
    (\<forall>p. kahn_votes (kahn_get k' p) = kahn_votes (kahn_get k p))"
  using y deg up
proof (induction "height_of ts y" arbitrary: y n k l rule: less_induct)
  case less
  show ?case
  proof (cases "y = ts_lastAcceptedID ts")
    case True
    have "tree_kids ts z \<inter> (dom k - {y}) = tree_kids ts z \<inter> dom k" for z
      using bt.kids [of y ts z] True by auto
    with less.prems(3) have "kahn_degrees ts (dom k) k l" by (simp add: kahn_degrees_def)
    moreover have "up_closed ts (dom k) {}" using less.prems(4) bt.kids [of y] True by (fastforce simp: up_closed_def)
    moreover have "{q. y \<in> bt.below ts q} = {}" using True by simp
    ultimately show ?thesis using decided_iff [OF inv less.prems(1)] True less.prems(1)
      by (subst markAncestorInDegrees.simps) (auto simp: Let_def)
  next
    case False
    then have nd: "\<not> ts_Decided ts n" using decided_iff [OF inv less.prems(1)] by simp
    from block_parent_kid [OF inv less.prems(1) False] obtain b m where b: "sm_blk n = Some b"
      "y \<in> tree_kids ts (block_Parent b)" "ts_blocks ts (block_Parent b) = Some m" .
    let ?q = "block_Parent b"
    let ?k = "k(?q \<mapsto> (kahn_get k ?q)\<lparr>kahn_inDegree := kahn_inDegree (kahn_get k ?q) + 1\<rparr>)"
    have only: "y \<in> tree_kids ts z \<Longrightarrow> z = ?q" for z using bt.one_parent [OF b(2)] by auto
    have anc: "{q. y \<in> bt.below ts q} = insert ?q {q. ?q \<in> bt.below ts q}"
    proof -
      have "y \<in> bt.below ts q \<longleftrightarrow> q = ?q \<or> ?q \<in> bt.below ts q" for q
        unfolding bt.below_parent [of y ts q] using b(2) only by blast
      then show ?thesis by blast
    qed
    have votes: "kahn_votes (kahn_get ?k p) = kahn_votes (kahn_get k p)" for p by (simp add: kahn_get_def)
    have "?q \<noteq> y" using bt.kids [OF b(2)] by auto
    show ?thesis
    proof (cases "k ?q = None")
      case True
      then have new: "?q \<notin> dom k" by auto
      have kids_q: "tree_kids ts ?q \<inter> dom k = {y}"
        using less.prems(2,4) b(2) new by (auto simp: up_closed_def)
      have kids_z: "tree_kids ts z \<inter> (dom k - {y}) = tree_kids ts z \<inter> dom k" if "z \<in> dom k" for z
        using only [of z] that new by auto
      have dom': "dom ?k - {?q} = dom k" using new by auto
      have "l = {p \<in> dom k. tree_kids ts p \<inter> (dom k - {y}) = {}}" using less.prems(3) by (simp add: kahn_degrees_def)
      also have "\<dots> = {p \<in> dom k. tree_kids ts p \<inter> dom k = {}}"
        by (intro Collect_cong conj_cong refl) (simp only: kids_z)
      also have "\<dots> = {p \<in> dom ?k. tree_kids ts p \<inter> dom k = {}}"
        unfolding dom_fun_upd using kids_q by (simp only: option.distinct if_False) blast
      finally have l: "l = {p \<in> dom ?k. tree_kids ts p \<inter> dom k = {}}" .
      have "kahn_inDegree (kahn_get ?k p) = int (card (tree_kids ts p \<inter> dom k))" if "p \<in> dom ?k" for p
      proof (cases "p = ?q")
        case True
        then show ?thesis using kids_q \<open>k ?q = None\<close> by (simp add: kahn_get_def new_kahnNode_def)
      next
        case False
        with that have "p \<in> dom k" by auto
        with less.prems(3) kids_z False show ?thesis by (simp add: kahn_degrees_def kahn_get_def)
      qed
      with l have "kahn_degrees ts (dom ?k - {?q}) ?k l" unfolding dom' kahn_degrees_def by blast
      moreover have "up_closed ts (dom ?k) {?q}" using less.prems(4) only by (auto simp: up_closed_def)
      ultimately obtain k' l' where r: "markAncestorInDegrees (kahn_update ts ?k l) ?q = Some (kahn_update ts k' l')"
        "dom k' = dom ?k \<union> {q. ?q \<in> bt.below ts q}" "kahn_degrees ts (dom k') k' l'" "up_closed ts (dom k') {}"
        "\<forall>p. kahn_votes (kahn_get k' p) = kahn_votes (kahn_get ?k p)"
        using less.hyps [OF _ b(3), of ?k l] bt.kids [OF b(2)] by auto
      show ?thesis
      proof (intro exI conjI)
        show "markAncestorInDegrees (kahn_update ts k l) y = Some (kahn_update ts k' l')"
          using r(1) nd True less.prems(1) b(1) by (subst markAncestorInDegrees.simps) (simp add: Let_def)
        show "dom k' = dom k \<union> {q. y \<in> bt.below ts q}" using r(2) anc by auto
      qed (use r votes in auto)
    next
      case seen: False
      then have q: "?q \<in> dom k" by auto
      have dom': "dom ?k = dom k" using q by auto
      have kids_z: "tree_kids ts z \<inter> (dom k - {y}) = tree_kids ts z \<inter> dom k" if "z \<noteq> ?q" for z
        using only [of z] that by auto
      have "card (tree_kids ts ?q \<inter> dom k) = Suc (card (tree_kids ts ?q \<inter> (dom k - {y})))"
      proof -
        have "tree_kids ts ?q \<inter> dom k = insert y (tree_kids ts ?q \<inter> (dom k - {y}))"
          using b(2) less.prems(2) by auto
        then show ?thesis by simp
      qed
      then have "kahn_inDegree (kahn_get ?k p) = int (card (tree_kids ts p \<inter> dom k))" if "p \<in> dom k" for p
        using less.prems(3) kids_z that by (cases "p = ?q") (simp_all add: kahn_degrees_def kahn_get_def)
      moreover have "p \<in> l - {?q} \<longleftrightarrow> p \<in> dom k \<and> tree_kids ts p \<inter> dom k = {}" for p
      proof (cases "p = ?q")
        case True
        then show ?thesis using b(2) less.prems(2) by blast
      next
        case False
        with less.prems(3) kids_z [OF False] show ?thesis by (simp add: kahn_degrees_def)
      qed
      ultimately have "kahn_degrees ts (dom ?k) ?k (l - {?q})" unfolding dom' kahn_degrees_def by blast
      moreover have up': "up_closed ts (dom ?k) {}"
        unfolding dom' using less.prems(4) only q by (auto simp: up_closed_def)
      moreover have "dom ?k = dom k \<union> {q. y \<in> bt.below ts q}"
        unfolding dom' anc using up_closed_below [OF up', of ?q] q dom' by auto
      moreover have "markAncestorInDegrees (kahn_update ts k l) y = Some (kahn_update ts ?k (l - {?q}))"
        using nd seen less.prems(1) b(1) by (subst markAncestorInDegrees.simps) (simp add: Let_def)
      ultimately show ?thesis using votes by blast
    qed
  qed
qed

text \<open>The result of processing the votes for the blocks \<open>A\<close>: the Kahn nodes are their strict
  ancestors, with the votes for their own children.\<close>

definition kahn_calc :: "Topological \<Rightarrow> (ID \<Rightarrow> int) \<Rightarrow> ID set \<Rightarrow> (ID \<rightharpoonup> kahnNode) \<Rightarrow> ID set \<Rightarrow> bool" where
  "kahn_calc ts w A k l \<longleftrightarrow> dom k = {p. \<exists>a \<in> A. a \<in> bt.below ts p} \<and> kahn_degrees ts (dom k) k l \<and>
     (\<forall>p. bag_wf (kahn_votes (kahn_get k p)) \<and>
        (\<forall>c. Bag_Count (kahn_votes (kahn_get k p)) c = (if c \<in> tree_kids ts p \<and> c \<in> A then w c else 0)))"

definition processing :: "Topological \<Rightarrow> ID set" where
  "processing ts = tree_nodes ts - {ts_lastAcceptedID ts}"

lemma kahn_calc_up: "kahn_calc ts w A k l \<Longrightarrow> up_closed ts (dom k) {}"
  by (auto simp: kahn_calc_def up_closed_def intro: bt.below_trans [OF bt.kid_below])

lemma kahn_calc_vote:
  assumes inv: "topo_inv ts" and calc: "kahn_calc ts w A k l" and x: "x \<notin> A"
    and w: "w x = Bag_Count V x" "0 \<le> w x"
  shows "\<exists>k' l'. calculateInDegree_vote V (kahn_update ts k l) x = Some (kahn_update ts k' l') \<and>
    kahn_calc ts w (A \<union> ({x} \<inter> processing ts)) k' l'"
proof (cases "x \<in> processing ts")
  case False
  have "calculateInDegree_vote V (kahn_update ts k l) x = Some (kahn_update ts k l)"
  proof (cases "ts_blocks ts x")
    case (Some n)
    with False inv have "ts_Decided ts n"
      using decided_iff [OF inv Some] by (auto simp: processing_def tree_nodes_def)
    with Some show ?thesis by (simp add: calculateInDegree_vote_def)
  qed (simp add: calculateInDegree_vote_def)
  moreover have "A \<union> ({x} \<inter> processing ts) = A" using False by auto
  ultimately show ?thesis using calc by auto
next
  case True
  then obtain n where n: "ts_blocks ts x = Some n" "x \<noteq> ts_lastAcceptedID ts"
    using inv by (auto simp: processing_def tree_nodes_def)
  then have nd: "\<not> ts_Decided ts n" using decided_iff [OF inv n(1)] by simp
  from block_parent_kid [OF inv n] obtain b m where b: "sm_blk n = Some b"
    "x \<in> tree_kids ts (block_Parent b)" "ts_blocks ts (block_Parent b) = Some m" .
  let ?p = "block_Parent b" and ?A = "insert x A"
  let ?kn = "(kahn_get k ?p)\<lparr>kahn_votes := Bag_AddCount (kahn_votes (kahn_get k ?p)) x (Bag_Count V x)\<rparr>"
  let ?k = "k(?p \<mapsto> ?kn)"
  have A: "A \<union> ({x} \<inter> processing ts) = ?A" using True by auto
  have only: "x \<in> tree_kids ts z \<Longrightarrow> z = ?p" for z using bt.one_parent [OF b(2)] by auto
  have anc: "x \<in> bt.below ts q \<longleftrightarrow> q = ?p \<or> ?p \<in> bt.below ts q" for q
    unfolding bt.below_parent [of x ts q] using b(2) only by blast
  have up: "up_closed ts (dom k) {}" by (rule kahn_calc_up [OF calc])
  have votes: "bag_wf (kahn_votes (kahn_get ?k p)) \<and>
      Bag_Count (kahn_votes (kahn_get ?k p)) c = (if c \<in> tree_kids ts p \<and> c \<in> ?A then w c else 0)" for p c
  proof -
    have old: "bag_wf (kahn_votes (kahn_get k p))"
      "Bag_Count (kahn_votes (kahn_get k p)) c = (if c \<in> tree_kids ts p \<and> c \<in> A then w c else 0)"
      using calc by (simp_all add: kahn_calc_def)
    show ?thesis
    proof (cases "p = ?p")
      case True
      then have "kahn_votes (kahn_get ?k p) = Bag_AddCount (kahn_votes (kahn_get k p)) x (Bag_Count V x)"
        by (simp add: kahn_get_def)
      then show ?thesis using old b(2) x w True by (auto simp: Bag_Count_AddCount)
    next
      case False
      then have "kahn_get ?k p = kahn_get k p" by (simp add: kahn_get_def)
      moreover have "x \<notin> tree_kids ts p" using only False by blast
      ultimately show ?thesis using old by auto
    qed
  qed
  show ?thesis
  proof (cases "k ?p = None")
    case False
    then have pk: "?p \<in> dom k" by auto
    have deg: "kahn_inDegree (kahn_get ?k q) = kahn_inDegree (kahn_get k q)" for q by (simp add: kahn_get_def)
    have dom': "dom ?k = dom k" using pk by auto
    have "dom k = {q. \<exists>a \<in> ?A. a \<in> bt.below ts q}"
    proof -
      have "q \<in> dom k" if "x \<in> bt.below ts q" for q
        using that [unfolded anc] up_closed_below [OF up pk, of q] pk by metis
      then show ?thesis using calc unfolding kahn_calc_def by blast
    qed
    moreover have "kahn_degrees ts (dom ?k) ?k l"
      using calc unfolding kahn_calc_def kahn_degrees_def dom' deg by blast
    ultimately have "kahn_calc ts w ?A ?k l" unfolding kahn_calc_def dom' using votes by blast
    moreover have "calculateInDegree_vote V (kahn_update ts k l) x = Some (kahn_update ts ?k l)"
      using n nd b False by (simp add: calculateInDegree_vote_def Let_def)
    ultimately show ?thesis unfolding A by blast
  next
    case True
    then have pk: "?p \<notin> dom k" by auto
    let ?l = "insert ?p l"
    have dom': "dom ?k = insert ?p (dom k)" by simp
    have nokid: "tree_kids ts ?p \<inter> dom k = {}" using up pk by (auto simp: up_closed_def)
    have minus: "dom ?k - {?p} = dom k" unfolding dom' using pk by blast
    have "kahn_inDegree (kahn_get ?k q) = int (card (tree_kids ts q \<inter> dom k))" if "q \<in> dom ?k" for q
    proof (cases "q = ?p")
      case True2: True
      then show ?thesis using nokid True by (simp add: kahn_get_def new_kahnNode_def)
    next
      case False
      with that calc show ?thesis unfolding dom' by (simp add: kahn_calc_def kahn_degrees_def kahn_get_def)
    qed
    moreover have "?l = {q \<in> dom ?k. tree_kids ts q \<inter> dom k = {}}"
      using calc nokid unfolding dom' kahn_calc_def kahn_degrees_def by blast
    ultimately have deg: "kahn_degrees ts (dom ?k - {?p}) ?k ?l" unfolding minus kahn_degrees_def by blast
    have "up_closed ts (dom ?k) {?p}" using up unfolding dom' up_closed_def by blast
    from markAncestorInDegrees_correct [OF inv b(3) _ deg this] obtain k' l' where
      r: "markAncestorInDegrees (kahn_update ts ?k ?l) ?p = Some (kahn_update ts k' l')"
      "dom k' = dom ?k \<union> {q. ?p \<in> bt.below ts q}" "kahn_degrees ts (dom k') k' l'"
      "\<And>p. kahn_votes (kahn_get k' p) = kahn_votes (kahn_get ?k p)" by auto
    have "dom k' = {q. \<exists>a \<in> ?A. a \<in> bt.below ts q}"
      using r(2) calc anc unfolding dom' kahn_calc_def by blast
    then have "kahn_calc ts w ?A k' l'" unfolding kahn_calc_def r(4) using votes r(3) by blast
    moreover have "calculateInDegree_vote V (kahn_update ts k l) x = Some (kahn_update ts k' l')"
      using n nd b True r(1) by (simp add: calculateInDegree_vote_def Let_def)
    ultimately show ?thesis unfolding A by blast
  qed
qed

lemma calculateInDegree_correct:
  assumes inv: "topo_inv ts" and wf: "bag_wf V"
  shows "\<exists>k l. calculateInDegree ts V = Some (kahn_update ts k l) \<and>
    kahn_calc ts (Bag_Count V) (set (Bag_List V) \<inter> processing ts) k l"
proof -
  have loop: "\<exists>k' l'. calculateInDegree_loop V vs (kahn_update ts k l) = Some (kahn_update ts k' l') \<and>
      kahn_calc ts (Bag_Count V) (A \<union> (set vs \<inter> processing ts)) k' l'"
    if "kahn_calc ts (Bag_Count V) A k l" "distinct vs" "set vs \<inter> A = {}" for vs A k l
    using that
  proof (induction vs arbitrary: A k l)
    case (Cons v vs)
    let ?A = "A \<union> ({v} \<inter> processing ts)"
    from kahn_calc_vote [OF inv Cons.prems(1), of v V] obtain k1 l1 where
      v: "calculateInDegree_vote V (kahn_update ts k l) v = Some (kahn_update ts k1 l1)"
      "kahn_calc ts (Bag_Count V) ?A k1 l1"
      using Cons.prems(3) bag_wf_Count_nonneg [OF wf] by auto
    have eq: "?A \<union> (set vs \<inter> processing ts) = A \<union> (set (v # vs) \<inter> processing ts)" by auto
    from Cons.IH [OF v(2)] Cons.prems v(1) show ?case unfolding eq by auto
  qed auto
  have init: "kahn_calc ts (Bag_Count V) {} Map.empty {}"
    by (simp add: kahn_calc_def kahn_degrees_def kahn_get_def new_kahnNode_def) (simp add: Bag_Count_def Bag_empty_def)
  from loop [OF init distinct_Bag_List [OF wf]] show ?thesis
    by (simp add: calculateInDegree_def kahn_update_def)
qed

section \<open>The pushed votes\<close>

lemma Bag_Len_sum:
  assumes wf: "bag_wf b" and S: "\<And>c. c \<notin> S \<Longrightarrow> Bag_Count b c = 0" and fin: "finite S"
  shows "Bag_Len b = (\<Sum>c \<in> S. Bag_Count b c)"
proof -
  have "set_mset (Bag_mset b) \<subseteq> S"
    using S wf by (metis Bag_Count_mset not_in_iff of_nat_eq_0_iff subsetI)
  then have "size (Bag_mset b) = (\<Sum>c \<in> S. count (Bag_mset b) c)"
    unfolding size_multiset_overloaded_eq using fin by (intro sum.mono_neutral_left) (auto simp: not_in_iff)
  then show ?thesis using wf by (simp add: Bag_Len_mset Bag_Count_mset)
qed

text \<open>The votes in the subtrees of the children of a block.\<close>

definition subtree_votes :: "Topological \<Rightarrow> (ID \<Rightarrow> int) \<Rightarrow> ID \<Rightarrow> ID \<Rightarrow> int" where
  "subtree_votes ts w p c = (if c \<in> tree_kids ts p then w c + bt.weight_below ts w c else 0)"

definition stack_exact :: "Topological \<Rightarrow> (ID \<Rightarrow> int) \<Rightarrow> ID set \<Rightarrow> votes list \<Rightarrow> bool" where
  "stack_exact ts w S st \<longleftrightarrow> distinct (map votes_parentID st) \<and>
     set (map votes_parentID st) = {p \<in> S. AlphaPreference (ts_params ts) \<le> bt.weight_below ts w p} \<and>
     (\<forall>v \<in> set st. bag_wf (votes_votes v) \<and>
        Bag_Count (votes_votes v) = subtree_votes ts w (votes_parentID v)) \<and>
     sorted_wrt (\<lambda>u v. votes_parentID v \<notin> bt.below ts (votes_parentID u)) st"

text \<open>The loop invariant: \<open>Done\<close> are the Kahn nodes already popped.\<close>

definition kahn_push :: "Topological \<Rightarrow> (ID \<Rightarrow> int) \<Rightarrow> ID set \<Rightarrow> ID set \<Rightarrow> (ID \<rightharpoonup> kahnNode) \<Rightarrow> ID set \<Rightarrow> bool" where
  "kahn_push ts w D Done k l \<longleftrightarrow> dom k = D \<and> Done \<subseteq> D \<and> (\<forall>p \<in> Done. tree_kids ts p \<inter> D \<subseteq> Done) \<and>
     (\<forall>p \<in> D. kahn_inDegree (kahn_get k p) = int (card (tree_kids ts p \<inter> (D - Done)))) \<and>
     l = {p \<in> D - Done. tree_kids ts p \<inter> (D - Done) = {}} \<and>
     (\<forall>p. bag_wf (kahn_votes (kahn_get k p)) \<and> (\<forall>c. Bag_Count (kahn_votes (kahn_get k p)) c =
        (if c \<in> tree_kids ts p then w c + (if c \<in> Done then bt.weight_below ts w c else 0) else 0)))"

definition kahn_domain :: "Topological \<Rightarrow> (ID \<Rightarrow> int) \<Rightarrow> ID set \<Rightarrow> bool" where
  "kahn_domain ts w D \<longleftrightarrow> up_closed ts D {} \<and> D \<subseteq> tree_nodes ts \<and> (\<forall>x. 0 \<le> w x) \<and>
     (\<forall>x. x \<notin> D \<longrightarrow> bt.weight_below ts w x = 0)"

lemma kahn_push_leaf:
  assumes dom: "kahn_domain ts w D" and push: "kahn_push ts w D Done k l" and x: "x \<in> l"
  shows "Bag_Count (kahn_votes (kahn_get k x)) = subtree_votes ts w x"
    "bag_wf (kahn_votes (kahn_get k x))"
    "Bag_Len (kahn_votes (kahn_get k x)) = bt.weight_below ts w x"
proof -
  have wf: "bag_wf (kahn_votes (kahn_get k x))" using push by (simp add: kahn_push_def)
  have D: "tree_kids ts x \<inter> (D - Done) = {}" using push x by (simp add: kahn_push_def)
  have "Bag_Count (kahn_votes (kahn_get k x)) c = subtree_votes ts w x c" for c
  proof (cases "c \<in> tree_kids ts x \<and> c \<notin> Done")
    case True
    with D have "c \<notin> D" by blast
    with dom have "bt.weight_below ts w c = 0" by (simp add: kahn_domain_def)
    with push True show ?thesis by (simp add: kahn_push_def subtree_votes_def)
  next
    case False
    with push show ?thesis by (auto simp: kahn_push_def subtree_votes_def)
  qed
  then show eq: "Bag_Count (kahn_votes (kahn_get k x)) = subtree_votes ts w x" by auto
  show "bag_wf (kahn_votes (kahn_get k x))" by (rule wf)
  have "Bag_Len (kahn_votes (kahn_get k x)) = (\<Sum>c \<in> tree_kids ts x. subtree_votes ts w x c)"
    unfolding eq [symmetric] by (rule Bag_Len_sum [OF wf]) (simp_all add: eq subtree_votes_def)
  also have "\<dots> = bt.weight_below ts w x"
    unfolding bt.weight_below_kids [of ts w x] by (rule sum.cong) (simp_all add: subtree_votes_def)
  finally show "Bag_Len (kahn_votes (kahn_get k x)) = bt.weight_below ts w x" .
qed

lemma weight_below_nonneg: "(\<And>x. 0 \<le> w x) \<Longrightarrow> 0 \<le> bt.weight_below ts w x"
  by (simp add: bt.weight_below_def sum_nonneg)

text \<open>Popping the last accepted block, and popping a block with a parent.\<close>

lemma kahn_push_root:
  assumes push: "kahn_push ts w D Done k l" and x: "x \<in> l" "x = ts_lastAcceptedID ts"
  shows "kahn_push ts w D (insert x Done) k (l - {x})"
proof -
  have nokid: "x \<notin> tree_kids ts p" for p using bt.kids [of x ts p] x by auto
  have kids: "tree_kids ts p \<inter> (D - insert x Done) = tree_kids ts p \<inter> (D - Done)" for p using nokid by auto
  note P = push [unfolded kahn_push_def]
  have sub: "tree_kids ts x \<inter> D \<subseteq> insert x Done" using P x by blast
  have votes: "(if c \<in> tree_kids ts p then w c + (if c \<in> insert x Done then bt.weight_below ts w c else 0) else 0) =
      (if c \<in> tree_kids ts p then w c + (if c \<in> Done then bt.weight_below ts w c else 0) else 0)" for p c
    using nokid [of p] by auto
  show ?thesis unfolding kahn_push_def kids votes
  proof (intro conjI)
    show "\<forall>p \<in> insert x Done. tree_kids ts p \<inter> D \<subseteq> insert x Done" using P sub by blast
    show "l - {x} = {p \<in> D - insert x Done. tree_kids ts p \<inter> (D - Done) = {}}" using P by blast
  qed (use P x in blast)+
qed

lemma kahn_push_child:
  assumes dom: "kahn_domain ts w D" and push: "kahn_push ts w D Done k l" and x: "x \<in> l" "x \<in> tree_kids ts q"
  defines "kn \<equiv> (kahn_get k q)\<lparr>kahn_inDegree := kahn_inDegree (kahn_get k q) - 1,
      kahn_votes := Bag_AddCount (kahn_votes (kahn_get k q)) x (Bag_Len (kahn_votes (kahn_get k x)))\<rparr>"
  shows "kahn_push ts w D (insert x Done) (k(q \<mapsto> kn))
    (if kahn_inDegree kn = 0 then insert q (l - {x}) else l - {x})"
proof -
  let ?Done = "insert x Done" and ?k = "k(q \<mapsto> kn)"
  have P1: "dom k = D" and P2: "Done \<subseteq> D" and P3: "\<And>p. p \<in> Done \<Longrightarrow> tree_kids ts p \<inter> D \<subseteq> Done"
    and P4: "\<And>p. p \<in> D \<Longrightarrow> kahn_inDegree (kahn_get k p) = int (card (tree_kids ts p \<inter> (D - Done)))"
    and P5: "\<And>p. p \<in> l \<longleftrightarrow> p \<in> D - Done \<and> tree_kids ts p \<inter> (D - Done) = {}"
    and P6: "\<And>p. bag_wf (kahn_votes (kahn_get k p))"
    and P7: "\<And>p c. Bag_Count (kahn_votes (kahn_get k p)) c =
        (if c \<in> tree_kids ts p then w c + (if c \<in> Done then bt.weight_below ts w c else 0) else 0)"
    using push unfolding kahn_push_def by auto
  have xD: "x \<in> D" "x \<notin> Done" "tree_kids ts x \<inter> (D - Done) = {}" using P5 x by blast+
  have q: "q \<in> D" using dom xD x(2) by (auto simp: kahn_domain_def up_closed_def)
  have "q \<notin> Done" using P3 xD x(2) by blast
  moreover have "q \<noteq> x" using bt.kids [OF x(2)] by auto
  ultimately have qn: "q \<notin> ?Done" by simp
  have only: "x \<in> tree_kids ts z \<Longrightarrow> z = q" for z using bt.one_parent [OF x(2)] by auto
  have kids: "tree_kids ts p \<inter> (D - ?Done) = tree_kids ts p \<inter> (D - Done)" if "p \<noteq> q" for p using only that by blast
  have kq: "tree_kids ts q \<inter> (D - Done) = insert x (tree_kids ts q \<inter> (D - ?Done))" using x(2) xD by blast
  have card: "kahn_inDegree kn = int (card (tree_kids ts q \<inter> (D - ?Done)))"
    using P4 [OF q] by (simp add: kn_def kq)
  have zero: "kahn_inDegree kn = 0 \<longleftrightarrow> tree_kids ts q \<inter> (D - ?Done) = {}" by (simp add: card)
  have "dom ?k = D" using P1 q by auto
  moreover have "?Done \<subseteq> D" "\<forall>p \<in> ?Done. tree_kids ts p \<inter> D \<subseteq> ?Done" using P2 P3 xD by blast+
  moreover have "kahn_inDegree (kahn_get ?k p) = int (card (tree_kids ts p \<inter> (D - ?Done)))" if "p \<in> D" for p
    using P4 [OF that] card kids by (cases "p = q") (simp_all add: kahn_get_def)
  moreover have "p \<in> (if kahn_inDegree kn = 0 then insert q (l - {x}) else l - {x}) \<longleftrightarrow>
      p \<in> D - ?Done \<and> tree_kids ts p \<inter> (D - ?Done) = {}" for p
  proof (cases "p = q")
    case True
    have "q \<notin> l" using P5 kq by blast
    then show ?thesis using True zero q qn by simp
  next
    case False
    then show ?thesis using P5 [of p] kids [OF False] by auto
  qed
  moreover have "bag_wf (kahn_votes (kahn_get ?k p)) \<and> (\<forall>c. Bag_Count (kahn_votes (kahn_get ?k p)) c =
      (if c \<in> tree_kids ts p then w c + (if c \<in> ?Done then bt.weight_below ts w c else 0) else 0))" for p
  proof (cases "p = q")
    case True
    have "kahn_votes (kahn_get ?k q) = Bag_AddCount (kahn_votes (kahn_get k q)) x (bt.weight_below ts w x)"
      using kahn_push_leaf(3) [OF dom push x(1)] by (simp add: kahn_get_upd kn_def)
    moreover have "0 \<le> bt.weight_below ts w x" using dom by (simp add: weight_below_nonneg kahn_domain_def)
    ultimately show ?thesis using P6 [of q] P7 [of q] x(2) xD(2) unfolding True by (auto simp: Bag_Count_AddCount)
  next
    case False
    then have "kahn_get ?k p = kahn_get k p" "x \<notin> tree_kids ts p" using only by (auto simp: kahn_get_def)
    then show ?thesis using P6 [of p] P7 [of p] by auto
  qed
  ultimately show ?thesis unfolding kahn_push_def by blast
qed

lemma kahn_push_order:
  assumes dom: "kahn_domain ts w D" and push: "kahn_push ts w D Done k l" and x: "x \<in> D" and q: "q \<in> Done"
    and below: "x \<in> bt.below ts q"
  shows "x \<in> Done"
  using x below
proof (induction "height_of ts x" arbitrary: x rule: less_induct)
  case less
  from less.prems(2) obtain p where p: "x \<in> tree_kids ts p" "p = q \<or> p \<in> bt.below ts q"
    by (meson bt.below_parent)
  have "p \<in> D" using dom less.prems(1) p(1) by (auto simp: kahn_domain_def up_closed_def)
  moreover have "height_of ts p < height_of ts x" using bt.kids [OF p(1)] by simp
  ultimately have "p \<in> Done" using less.hyps [of p] p(2) q by auto
  then show ?case using push p(1) less.prems(1) by (auto simp: kahn_push_def)
qed

lemma stack_exact_snoc:
  assumes dom: "kahn_domain ts w D" and push: "kahn_push ts w D Done k l" and x: "x \<in> l"
    and st: "stack_exact ts w Done st"
  defines "V \<equiv> kahn_votes (kahn_get k x)"
  shows "stack_exact ts w (insert x Done)
    (if AlphaPreference (ts_params ts) \<le> Bag_Len V then st @ [\<lparr>votes_parentID = x, votes_votes = V\<rparr>] else st)"
proof -
  note leaf = kahn_push_leaf [OF dom push x, folded V_def]
  have xn: "x \<in> D" "x \<notin> Done" using push x by (auto simp: kahn_push_def)
  have set: "set (map votes_parentID st) \<subseteq> Done" using st by (auto simp: stack_exact_def)
  show ?thesis
  proof (cases "AlphaPreference (ts_params ts) \<le> Bag_Len V")
    case True
    have "x \<notin> bt.below ts (votes_parentID v)" if "v \<in> set st" for v
      using kahn_push_order [OF dom push xn(1), of "votes_parentID v"] that set xn(2) by auto
    then have "sorted_wrt (\<lambda>u v. votes_parentID v \<notin> bt.below ts (votes_parentID u)) (st @ [\<lparr>votes_parentID = x, votes_votes = V\<rparr>])"
      using st by (auto simp: stack_exact_def sorted_wrt_append)
    moreover have "distinct (map votes_parentID st @ [x])" using st set xn(2) by (auto simp: stack_exact_def)
    ultimately show ?thesis using st True leaf by (auto simp: stack_exact_def)
  next
    case False
    then have "{p \<in> insert x Done. AlphaPreference (ts_params ts) \<le> bt.weight_below ts w p} =
        {p \<in> Done. AlphaPreference (ts_params ts) \<le> bt.weight_below ts w p}" using leaf(3) by auto
    with False st show ?thesis by (simp add: stack_exact_def)
  qed
qed

lemma kahn_push_complete:
  assumes push: "kahn_push ts w D Done k {}"
  shows "Done = D"
proof (rule ccontr)
  assume "Done \<noteq> D"
  then have "D - Done \<noteq> {}" using push by (auto simp: kahn_push_def)
  then have "Max (height_of ts ` (D - Done)) \<in> height_of ts ` (D - Done)" by (intro Max_in) auto
  then obtain p where p: "p \<in> D - Done" "height_of ts p = Max (height_of ts ` (D - Done))" by auto
  then have top: "height_of ts q \<le> height_of ts p" if "q \<in> D - Done" for q using that by simp
  have "tree_kids ts p \<inter> (D - Done) = {}"
  proof (rule ccontr)
    assume "tree_kids ts p \<inter> (D - Done) \<noteq> {}"
    then obtain c where "c \<in> tree_kids ts p" "c \<in> D - Done" by blast
    with top [of c] bt.kids [of c ts p] show False by simp
  qed
  with p push show False by (auto simp: kahn_push_def)
qed

lemma pushVotes_loop_correct:
  assumes inv: "topo_inv ts" and pop: "pop_ok pop" and dom: "kahn_domain ts w D"
    and "kahn_push ts w D Done k l" "stack_exact ts w Done st"
  shows "\<exists>k' l' st'. pushVotes_loop pop (kahn_update ts k l) st = Some (kahn_update ts k' l', st') \<and>
    stack_exact ts w D st'"
  using assms(4,5)
proof (induction "card (D - Done)" arbitrary: Done k l st rule: less_induct)
  case less
  show ?case
  proof (cases "l = {}")
    case True
    then show ?thesis using less.prems kahn_push_complete [of ts w D Done k]
      by (subst pushVotes_loop.simps) auto
  next
    case ne: False
    let ?x = "pop l"
    let ?V = "kahn_votes (kahn_get k ?x)"
    have x: "?x \<in> l" using pop ne by (simp add: pop_ok_def)
    then have xD: "?x \<in> D" "?x \<notin> Done" using less.prems(1) by (auto simp: kahn_push_def)
    then have smaller: "card (D - insert ?x Done) < card (D - Done)" by (intro psubset_card_mono) auto
    obtain n where n: "ts_blocks ts ?x = Some n"
      using dom xD inv by (auto simp: kahn_domain_def tree_nodes_def split: if_splits)
    let ?st = "if AlphaPreference (ts_params ts) \<le> Bag_Len ?V
      then st @ [\<lparr>votes_parentID = ?x, votes_votes = ?V\<rparr>] else st"
    have st: "stack_exact ts w (insert ?x Done) ?st" by (rule stack_exact_snoc [OF dom less.prems(1) x less.prems(2)])
    note unfold = pushVotes_loop.simps [of pop "kahn_update ts k l" st]
    show ?thesis
    proof (cases "?x = ts_lastAcceptedID ts")
      case True
      have push': "kahn_push ts w D (insert ?x Done) k (l - {?x})" by (rule kahn_push_root [OF less.prems(1) x True])
      have dec: "ts_Decided ts n" using decided_iff [OF inv n] True by simp
      from less.hyps [OF smaller push' st] show ?thesis
        using dec n ne by (subst unfold) (simp add: Let_def split: if_splits)
    next
      case False
      then have nd: "\<not> ts_Decided ts n" using decided_iff [OF inv n] by simp
      from block_parent_kid [OF inv n False] obtain b m where b: "sm_blk n = Some b"
        "?x \<in> tree_kids ts (block_Parent b)" "ts_blocks ts (block_Parent b) = Some m" .
      note push' = kahn_push_child [OF dom less.prems(1) x b(2)]
      from less.hyps [OF smaller push' st] show ?thesis
        using nd n ne b(1) by (subst unfold) (simp add: Let_def split: if_splits)
    qed
  qed
qed

text \<open>The stack after collecting the votes of a bag.\<close>

lemma processing_below: "x \<in> bt.below ts p \<Longrightarrow> x \<in> processing ts"
  using bt.below_N [of x ts p] bt.root_not_below [of ts p] by (auto simp: processing_def)

lemma Bag_Count_unlisted: "bag_wf V \<Longrightarrow> x \<notin> set (Bag_List V) \<Longrightarrow> Bag_Count V x = 0"
  by (simp add: set_Bag_List Bag_Count_mset not_in_iff)

lemma collectVotes_correct:
  assumes inv: "topo_inv ts" and pop: "pop_ok pop" and wf: "bag_wf V" and pos: "0 < AlphaPreference (ts_params ts)"
  shows "\<exists>k l st. (do { ts \<leftarrow> calculateInDegree ts V; pushVotes pop ts }) = Some (kahn_update ts k l, st) \<and>
    stack_exact ts (Bag_Count V) UNIV st"
proof -
  let ?w = "Bag_Count V" and ?A = "set (Bag_List V) \<inter> processing ts"
  from calculateInDegree_correct [OF inv wf] obtain k l where
    c: "calculateInDegree ts V = Some (kahn_update ts k l)" "kahn_calc ts ?w ?A k l" by blast
  let ?D = "dom k"
  have w0: "0 \<le> ?w x" for x by (rule bag_wf_Count_nonneg [OF wf])
  have out: "bt.weight_below ts ?w x = 0" if "x \<notin> ?D" for x
  proof -
    have "?w y = 0" if "y \<in> bt.below ts x" for y
    proof -
      have "y \<notin> ?A" using c(2) \<open>x \<notin> ?D\<close> that by (auto simp: kahn_calc_def)
      then have "y \<notin> set (Bag_List V)" using processing_below [OF that] by simp
      then show ?thesis by (rule Bag_Count_unlisted [OF wf])
    qed
    then show ?thesis by (simp add: bt.weight_below_def)
  qed
  have dom: "kahn_domain ts ?w ?D"
    using kahn_calc_up [OF c(2)] w0 out c(2) bt.below_N unfolding kahn_domain_def kahn_calc_def by blast
  have count: "Bag_Count (kahn_votes (kahn_get k p)) x = (if x \<in> tree_kids ts p then ?w x else 0)" for p x
  proof -
    have "?w x = 0" if "x \<in> tree_kids ts p" "x \<notin> ?A"
    proof -
      have "x \<in> processing ts" using bt.kid_below [OF that(1)] by (rule processing_below)
      with that(2) show ?thesis using Bag_Count_unlisted [OF wf] by blast
    qed
    then show ?thesis using c(2) by (auto simp: kahn_calc_def)
  qed
  have wfk: "bag_wf (kahn_votes (kahn_get k p))" for p using c(2) by (simp add: kahn_calc_def)
  have "kahn_push ts ?w ?D {} k l" unfolding kahn_push_def
  proof (intro conjI)
    show "\<forall>p. bag_wf (kahn_votes (kahn_get k p)) \<and> (\<forall>c. Bag_Count (kahn_votes (kahn_get k p)) c =
        (if c \<in> tree_kids ts p then ?w c + (if c \<in> {} then bt.weight_below ts ?w c else 0) else 0))"
      using wfk by (simp add: count)
  qed (use c(2) in \<open>simp_all add: kahn_calc_def kahn_degrees_def\<close>)
  moreover have "stack_exact ts ?w {} []" by (simp add: stack_exact_def)
  ultimately obtain k' l' st where p: "pushVotes_loop pop (kahn_update ts k l) [] = Some (kahn_update ts k' l', st)"
    "stack_exact ts ?w ?D st" using pushVotes_loop_correct [OF inv pop dom] by blast
  have eq: "{p \<in> ?D. AlphaPreference (ts_params ts) \<le> bt.weight_below ts ?w p} =
      {p \<in> UNIV. AlphaPreference (ts_params ts) \<le> bt.weight_below ts ?w p}"
    using out pos by fastforce
  have "stack_exact ts ?w ?D st = stack_exact ts ?w UNIV st" by (simp only: stack_exact_def eq)
  with p(2) have "stack_exact ts ?w UNIV st" by simp
  then show ?thesis using c(1) p(1) by (auto simp: pushVotes_def)
qed

section \<open>The stack is a branch\<close>

definition vote_chain :: "Topological \<Rightarrow> votes list \<Rightarrow> bool" where
  "vote_chain ts vs \<longleftrightarrow> successively (\<lambda>a b. b \<in> tree_kids ts a) (map votes_parentID vs) \<and>
     (vs \<noteq> [] \<longrightarrow> votes_parentID (hd vs) = ts_lastAcceptedID ts)"

lemma stack_branch:
  assumes st: "stack_exact ts w UNIV st" and w: "\<And>y. 0 \<le> w y" and pos: "0 < AlphaPreference (ts_params ts)"
    and total: "(\<Sum>y \<in> tree_nodes ts. w y) < 2 * AlphaPreference (ts_params ts)"
  shows "vote_chain ts (rev st)"
proof -
  let ?a = "AlphaPreference (ts_params ts)"
  let ?xs = "map votes_parentID (rev st)"
  have set: "set ?xs = {p. ?a \<le> bt.weight_below ts w p}" using st by (simp add: stack_exact_def)
  have up: "q \<in> set ?xs" if "p \<in> set ?xs" "p \<in> bt.below ts q" for p q
    using that bt.weight_below_mono [of w p ts q, OF w] unfolding set by simp
  have comp: "x = y \<or> x \<in> bt.below ts y \<or> y \<in> bt.below ts x" if "x \<in> set ?xs" "y \<in> set ?xs" for x y
    using that bt.majority_comparable [OF w total] unfolding set by simp
  have dist: "distinct ?xs" using st by (simp add: stack_exact_def flip: rev_map)
  have "sorted_wrt (\<lambda>u v. u \<notin> bt.below ts v) ?xs"
    using st by (simp add: stack_exact_def sorted_wrt_map sorted_wrt_rev)
  then have sorted: "sorted_wrt (\<lambda>u v. v \<in> bt.below ts u) ?xs"
    using dist by (rule sorted_wrt_distinct_mono) (use comp in blast)
  have "successively (\<lambda>a b. b \<in> tree_kids ts a) ?xs"
  proof (rule successivelyI)
    fix pre a b post
    assume xs: "?xs = pre @ a # b # post"
    with sorted have ab: "b \<in> bt.below ts a" and pre: "\<And>q. q \<in> set pre \<Longrightarrow> a \<in> bt.below ts q"
      and post: "\<And>q. q \<in> set post \<Longrightarrow> q \<in> bt.below ts b" by (auto simp: sorted_wrt_append)
    from ab obtain q where q: "b \<in> tree_kids ts q" "q = a \<or> q \<in> bt.below ts a" by (meson bt.below_parent)
    have bq: "b \<in> bt.below ts q" by (rule bt.kid_below [OF q(1)])
    have "b \<in> set ?xs" using xs by simp
    then have "q \<in> set ?xs" using bq by (rule up)
    then consider "q \<in> set pre" | "q = a" | "q = b" | "q \<in> set post" unfolding xs by auto
    then have "q = a"
    proof cases
      case 1
      with pre q(2) bt.ht_below [of a ts q] bt.ht_below [of q ts a] show ?thesis by auto
    next
      case 4
      with post bq bt.ht_below [of q ts b] bt.ht_below [of b ts q] show ?thesis by auto
    qed (use bq in auto)
    with q(1) show "b \<in> tree_kids ts a" by simp
  qed
  moreover have "votes_parentID (hd (rev st)) = ts_lastAcceptedID ts" if ne: "st \<noteq> []"
  proof -
    obtain x xs where xs: "?xs = x # xs" using ne by (cases "rev st") auto
    have hd: "votes_parentID (hd (rev st)) = x" using xs by (cases "rev st") auto
    have x: "x \<in> set ?xs" using xs by simp
    then have "0 < bt.weight_below ts w x" using pos unfolding set by simp
    then have "bt.below ts x \<noteq> {}" by (auto simp: bt.weight_below_def)
    then have xN: "x \<in> tree_nodes ts" using bt.below_N by blast
    show ?thesis
    proof (rule ccontr)
      assume "votes_parentID (hd (rev st)) \<noteq> ts_lastAcceptedID ts"
      then have "x \<in> bt.below ts (ts_lastAcceptedID ts)" using bt.below_root [OF xN] hd by simp
      with up [OF x] have "ts_lastAcceptedID ts \<in> set (x # xs)" unfolding xs by blast
      moreover have "x \<noteq> ts_lastAcceptedID ts" using \<open>x \<in> bt.below ts _\<close> by auto
      ultimately have "ts_lastAcceptedID ts \<in> set xs" by simp
      then show False using sorted bt.root_not_below [of ts x] unfolding xs by auto
    qed
  qed
  ultimately show ?thesis by (simp add: vote_chain_def)
qed

end
