(* ===== verification/Topological_Accept.thy ===== *)
theory Topological_Accept
  imports Topological_Kahn
begin

text \<open>
  Accepting a block and rejecting its conflicts: \<open>rejectTransitively\<close> removes exactly the subtrees
  of the rejected blocks and rejects each of their blocks once, and accepting the
  preferred child of the last accepted block keeps the invariant with that child as the new
  last accepted block.
\<close>

section \<open>Calls that succeed\<close>

definition vm_ok :: "vm \<Rightarrow> bool" where
  "vm_ok vm \<longleftrightarrow> (\<forall>x. vm_acceptor vm x \<and> vm_accept vm x \<and> vm_reject vm x)"

definition add_calls :: "Topological \<Rightarrow> vm_call list \<Rightarrow> Topological" where
  "add_calls ts cs = ts\<lparr>ts_calls := ts_calls ts @ cs\<rparr>"

definition set_blocks :: "Topological \<Rightarrow> (ID \<rightharpoonup> snowmanBlock) \<Rightarrow> Topological" where
  "set_blocks ts B = ts\<lparr>ts_blocks := B\<rparr>"

lemma add_calls_simps [simp]:
  "ts_blocks (add_calls ts cs) = ts_blocks ts"
  "ts_lastAcceptedID (add_calls ts cs) = ts_lastAcceptedID ts"
  "ts_lastAcceptedHeight (add_calls ts cs) = ts_lastAcceptedHeight ts"
  "ts_params (add_calls ts cs) = ts_params ts"
  "ts_preferredIDs (add_calls ts cs) = ts_preferredIDs ts"
  "ts_preferredHeights (add_calls ts cs) = ts_preferredHeights ts"
  "ts_calls (add_calls ts cs) = ts_calls ts @ cs"
  "add_calls (add_calls ts cs) ds = add_calls ts (cs @ ds)"
  "add_calls ts [] = ts"
  "record_call ts c = add_calls ts [c]"
  by (simp_all add: add_calls_def record_call_def)

lemma set_blocks_simps [simp]:
  "ts_blocks (set_blocks ts B) = B"
  "ts_lastAcceptedID (set_blocks ts B) = ts_lastAcceptedID ts"
  "ts_lastAcceptedHeight (set_blocks ts B) = ts_lastAcceptedHeight ts"
  "ts_params (set_blocks ts B) = ts_params ts"
  "ts_calls (set_blocks ts B) = ts_calls ts"
  "ts_preferredIDs (set_blocks ts B) = ts_preferredIDs ts"
  "ts_preferredHeights (set_blocks ts B) = ts_preferredHeights ts"
  "ts_preference (set_blocks ts B) = ts_preference ts"
  "(set_blocks ts B)\<lparr>ts_blocks := C\<rparr> = set_blocks ts C"
  "set_blocks (set_blocks ts B) C = set_blocks ts C"
  "add_calls (set_blocks ts B) cs = set_blocks (add_calls ts cs) B"
  "set_blocks ts (ts_blocks ts) = ts"
  by (simp_all add: set_blocks_def add_calls_def)

definition rejections :: "ID option \<Rightarrow> (ID \<times> Block) list \<Rightarrow> (ID \<times> Block) list" where
  "rejections skip ch = filter (\<lambda>(c, b). Some c \<noteq> skip) ch"

lemma reject_children_ok:
  "vm_ok vm \<Longrightarrow> reject_children vm skip ch ts acc =
    (add_calls ts (map (\<lambda>(c, b). BlockReject (block_ID b)) (rejections skip ch)), None,
     acc @ map fst (rejections skip ch))"
  by (induction vm skip ch ts acc rule: reject_children.induct)
    (auto simp: rejections_def vm_ok_def Let_def)

section \<open>Rejecting transitively\<close>

text \<open>The facts on the block map that the rejection relies on: children are blocks, with one parent.\<close>

definition kids_in :: "(ID \<rightharpoonup> snowmanBlock) \<Rightarrow> ID \<Rightarrow> ID set" where
  "kids_in B x = (case B x of None \<Rightarrow> {} | Some n \<Rightarrow> fst ` set (sm_children n))"

definition forest :: "(ID \<rightharpoonup> snowmanBlock) \<Rightarrow> bool" where
  "forest B \<longleftrightarrow> (\<forall>x n. B x = Some n \<longrightarrow> distinct (map fst (sm_children n)) \<and>
       (\<forall>c b. (c, b) \<in> set (sm_children n) \<longrightarrow> block_ID b = c)) \<and>
     (\<forall>x c. c \<in> kids_in B x \<longrightarrow> c \<in> dom B \<and> (\<forall>y. c \<in> kids_in B y \<longrightarrow> y = x))"

text \<open>The state of the rejection loop: \<open>R\<close> are the blocks already removed, \<open>S\<close> is the stack and \<open>I\<close>
  the initial stack.\<close>

definition reject_state :: "(ID \<rightharpoonup> snowmanBlock) \<Rightarrow> ID set \<Rightarrow> ID set \<Rightarrow> ID list \<Rightarrow> ID list \<Rightarrow> bool" where
  "reject_state B I R S l \<longleftrightarrow> distinct S \<and> set S \<inter> R = {} \<and> set S \<union> R \<subseteq> dom B \<and> I \<subseteq> set S \<union> R \<and>
     (\<forall>r \<in> R. kids_in B r \<subseteq> R \<union> set S) \<and>
     (\<forall>c \<in> R \<union> set S. c \<in> I \<or> (\<exists>r \<in> R. c \<in> kids_in B r)) \<and>
     distinct l \<and> set l = (R \<union> set S) - I"

lemma forest_kids:
  assumes "forest B" "B x = Some n"
  shows "distinct (map fst (sm_children n))" "kids_in B x = set (map fst (sm_children n))"
    "kids_in B x \<subseteq> dom B" "c \<in> kids_in B x \<Longrightarrow> c \<in> kids_in B y \<Longrightarrow> y = x"
    "map (\<lambda>(c, b). BlockReject (block_ID b)) (sm_children n) = map BlockReject (map fst (sm_children n))"
proof -
  show "distinct (map fst (sm_children n))" using assms by (simp add: forest_def)
  show k: "kids_in B x = set (map fst (sm_children n))" using assms(2) by (simp add: kids_in_def)
  show "kids_in B x \<subseteq> dom B" using assms(1) unfolding forest_def by blast
  show "c \<in> kids_in B x \<Longrightarrow> c \<in> kids_in B y \<Longrightarrow> y = x" using assms(1) unfolding forest_def by blast
  show "map (\<lambda>(c, b). BlockReject (block_ID b)) (sm_children n) = map BlockReject (map fst (sm_children n))"
    using assms by (auto simp: forest_def)
qed

lemma reject_state_step:
  assumes B: "forest B" and st: "reject_state B I R (S @ [r]) l"
    and root: "\<And>c x. c \<in> I \<Longrightarrow> c \<in> kids_in B x \<Longrightarrow> x \<notin> R \<union> set (S @ [r])"
    and n: "B r = Some n"
  shows "reject_state B I (insert r R) (S @ map fst (sm_children n)) (l @ map fst (sm_children n))"
proof -
  define ks where "ks = map fst (sm_children n)"
  note f = forest_kids [OF B n, folded ks_def]
  have dist: "distinct S" "r \<notin> set S" "r \<notin> R" "set S \<inter> R = {}" "insert r (set S \<union> R) \<subseteq> dom B"
      "I \<subseteq> insert r (set S \<union> R)"
    and closed: "\<And>x. x \<in> R \<Longrightarrow> kids_in B x \<subseteq> insert r (R \<union> set S)"
    and orig: "\<And>c. c \<in> insert r (R \<union> set S) \<Longrightarrow> c \<in> I \<or> (\<exists>x \<in> R. c \<in> kids_in B x)"
    and l: "distinct l" "set l = insert r (R \<union> set S) - I"
    using st unfolding reject_state_def by auto
  have new: "set ks \<inter> insert r (R \<union> set S) = {}"
  proof (rule ccontr)
    assume "set ks \<inter> insert r (R \<union> set S) \<noteq> {}"
    then obtain c where c: "c \<in> kids_in B r" "c \<in> insert r (R \<union> set S)" using f(2) by blast
    from orig [OF c(2)] show False
    proof
      assume "c \<in> I"
      from root [OF this c(1)] show False by simp
    next
      assume "\<exists>x \<in> R. c \<in> kids_in B x"
      then obtain x where "x \<in> R" "c \<in> kids_in B x" by blast
      with f(4) [OF c(1)] dist(3) show False by blast
    qed
  qed
  show ?thesis unfolding reject_state_def ks_def [symmetric] set_append distinct_append
  proof (intro conjI ballI)
    show "distinct S" "distinct ks" "distinct l" "distinct ks" using dist f(1) l by simp_all
    show "set S \<inter> set ks = {}" "set l \<inter> set ks = {}" using new l(2) by blast+
    show "(set S \<union> set ks) \<inter> insert r R = {}" using dist(2,4) new by blast
    show "set S \<union> set ks \<union> insert r R \<subseteq> dom B" using dist(5) f(2,3) by blast
    show "I \<subseteq> set S \<union> set ks \<union> insert r R" using dist(6) by blast
    show "kids_in B x \<subseteq> insert r R \<union> (set S \<union> set ks)" if "x \<in> insert r R" for x
      using that closed [of x] f(2) by blast
    show "c \<in> I \<or> (\<exists>x \<in> insert r R. c \<in> kids_in B x)" if "c \<in> insert r R \<union> (set S \<union> set ks)" for c
      using that orig [of c] f(2) by blast
    show "set l \<union> set ks = insert r R \<union> (set S \<union> set ks) - I" using l(2) new dist(6) by blast
  qed
qed

lemma rejectTransitively_loop:
  assumes vm: "vm_ok vm" and B: "forest B"
    and root: "\<And>c x. c \<in> I \<Longrightarrow> c \<in> kids_in B x \<Longrightarrow> x \<notin> T" and T: "I \<subseteq> T" "\<And>x. x \<in> T \<Longrightarrow> kids_in B x \<subseteq> T"
    and "reject_state B I R S l" "R \<union> set S \<subseteq> T"
  shows "\<exists>R' l'. rejectTransitively vm (set_blocks (add_calls ts (map BlockReject l)) (B |` (- R))) S =
      Some (set_blocks (add_calls ts (map BlockReject l')) (B |` (- R')), None) \<and>
      reject_state B I R' [] l' \<and> R' \<subseteq> T"
  using assms(6,7)
proof (induction "card (dom B - R)" arbitrary: R S l rule: less_induct)
  case less
  let ?ts = "set_blocks (add_calls ts (map BlockReject l)) (B |` (- R))"
  show ?case
  proof (cases "S = []")
    case True
    then show ?thesis using less.prems by (subst rejectTransitively.simps) auto
  next
    case False
    let ?r = "last S"
    have r: "?r \<in> set S" using False by simp
    have rB: "?r \<in> dom B" "?r \<notin> R" using less.prems(1) r unfolding reject_state_def by blast+
    then obtain n where n: "B ?r = Some n" by blast
    let ?ks = "map fst (sm_children n)"
    have root': "x \<notin> R \<union> set S" if "c \<in> I" "c \<in> kids_in B x" for c x using root [OF that] less.prems(2) by blast
    have S: "butlast S @ [?r] = S" using False by simp
    have st': "reject_state B I (insert ?r R) (butlast S @ ?ks) (l @ ?ks)"
      by (rule reject_state_step [OF B _ _ n]) (use less.prems(1) root' in \<open>unfold S, blast\<close>)+
    have smaller: "card (dom B - insert ?r R) < card (dom B - R)" using rB by (intro psubset_card_mono) auto
    have "insert ?r R \<union> set (butlast S @ ?ks) \<subseteq> T"
      using less.prems(2) r T(2) [of ?r] forest_kids(2) [OF B n] in_set_butlastD [of _ S] by auto
    from less.hyps [OF smaller st' this] obtain R' l' where
      IH: "rejectTransitively vm (set_blocks (add_calls ts (map BlockReject (l @ ?ks))) (B |` (- insert ?r R))) (butlast S @ ?ks) =
        Some (set_blocks (add_calls ts (map BlockReject l')) (B |` (- R')), None)"
      "reject_state B I R' [] l'" "R' \<subseteq> T" by blast
    have "rejections None (sm_children n) = sm_children n" by (simp add: rejections_def)
    then have "rejectTransitively vm ?ts S =
        rejectTransitively vm (set_blocks (add_calls ts (map BlockReject (l @ ?ks))) (B |` (- insert ?r R))) (butlast S @ ?ks)"
      using False n rB(2)
      by (subst rejectTransitively.simps)
        (simp add: Let_def reject_children_ok [OF vm] forest_kids(5) [OF B n] Compl_insert)
    then show ?thesis using IH by auto
  qed
qed

section \<open>Accepting the preferred child\<close>

lemma node_child:
  assumes "topo_inv ts" "ts_blocks ts x = Some n" "(c, b) \<in> set (sm_children n)"
  shows "block_ID b = c" "block_Parent b = x" "c \<noteq> ts_lastAcceptedID ts"
    "\<exists>m. ts_blocks ts c = Some m \<and> sm_blk m = Some b" "c \<in> dom (ts_blocks ts)"
  using topo_invD(2) [OF assms(1,2)] assms(3) by (fastforce simp: node_ok_def)+

lemma forest_blocks:
  assumes inv: "topo_inv ts"
  shows "forest (ts_blocks ts)" "kids_in (ts_blocks ts) = tree_kids ts"
proof -
  show k: "kids_in (ts_blocks ts) = tree_kids ts"
    using inv by (simp add: kids_in_def tree_kids_def block_kids_def fun_eq_iff)
  show "forest (ts_blocks ts)" unfolding forest_def k
  proof (intro allI impI conjI)
    fix x n
    assume n: "ts_blocks ts x = Some n"
    show "distinct (map fst (sm_children n))" using topo_invD(2) [OF inv n] by (simp add: node_ok_def)
    show "block_ID b = c" if "(c, b) \<in> set (sm_children n)" for c b using node_child(1) [OF inv n that] .
  next
    fix x c
    assume "c \<in> tree_kids ts x"
    then show "c \<in> dom (ts_blocks ts)" by (auto elim: tree_kids_D)
  next
    fix x c y
    assume "c \<in> tree_kids ts x" "c \<in> tree_kids ts y"
    then show "y = x" by (rule bt.one_parent [rotated])
  qed
qed

text \<open>The blocks that stay are the accepted block and those above it.\<close>

lemma siblings_subtree:
  assumes inv: "topo_inv ts" and P: "P \<in> tree_kids ts (ts_lastAcceptedID ts)"
  defines "L \<equiv> ts_lastAcceptedID ts"
  defines "I \<equiv> tree_kids ts L - {P}"
  shows "tree_nodes ts - insert L (bt.subtree ts I) = insert P (bt.below ts P)"
    "L \<notin> bt.subtree ts I" "L \<notin> insert P (bt.below ts P)"
proof -
  show LI: "L \<notin> bt.subtree ts I" using bt.kids [of L ts L] by (auto simp: bt.subtree_def I_def L_def)
  show LP: "L \<notin> insert P (bt.below ts P)" using bt.kids [OF P] by (auto simp: L_def)
  have "x \<in> insert P (bt.below ts P)" if x: "x \<in> tree_nodes ts" "x \<noteq> L" "x \<notin> bt.subtree ts I" for x
  proof -
    have "x \<in> bt.below ts L" using bt.below_root [OF x(1)] x(2) by (simp add: L_def)
    then obtain c where c: "c \<in> tree_kids ts L" "x \<in> insert c (bt.below ts c)" by (subst (asm) bt.below_unfold) blast
    with x(3) have "c = P" by (auto simp: I_def bt.subtree_def)
    with c show ?thesis by simp
  qed
  moreover have "x \<in> tree_nodes ts \<and> x \<noteq> L \<and> x \<notin> bt.subtree ts I" if x: "x \<in> insert P (bt.below ts P)" for x
  proof -
    have "x \<notin> insert c (bt.below ts c)" if "c \<in> I" for c
      using bt.kids_disjoint [of c ts L P] that P x unfolding I_def L_def by blast
    moreover have "x \<in> tree_nodes ts" using x bt.below_N [of x ts P] bt.kids [OF P] by auto
    ultimately show ?thesis using x LP by (auto simp: bt.subtree_def)
  qed
  ultimately show "tree_nodes ts - insert L (bt.subtree ts I) = insert P (bt.below ts P)" by blast
qed

definition accept_state :: "Topological \<Rightarrow> ID \<Rightarrow> ID list \<Rightarrow> Topological" where
  "accept_state ts P rs = ts\<lparr>ts_lastAcceptedID := P, ts_lastAcceptedHeight := height_of ts P,
     ts_preferredIDs := ts_preferredIDs ts - {P},
     ts_preferredHeights := (ts_preferredHeights ts)(height_of ts P := None),
     ts_blocks := ts_blocks ts |` insert P (bt.below ts P),
     ts_calls := ts_calls ts @ [AcceptorAccept P, BlockAccept P] @ map BlockReject rs\<rparr>"

lemma accept_state_inv:
  fixes rs :: "ID list"
  assumes inv: "topo_inv ts" and P: "P \<in> tree_kids ts (ts_lastAcceptedID ts)"
  defines "ts' \<equiv> accept_state ts P rs"
  shows "topo_inv ts'" "tree_nodes ts' = insert P (bt.below ts P)"
    "x \<in> tree_nodes ts' \<Longrightarrow> height_of ts' x = height_of ts x"
    "x \<in> tree_nodes ts' \<Longrightarrow> tree_kids ts' x = tree_kids ts x"
proof -
  let ?N = "insert P (bt.below ts P)"
  have B: "ts_blocks ts' = ts_blocks ts |` ?N" "ts_lastAcceptedID ts' = P" "ts_lastAcceptedHeight ts' = height_of ts P"
    "ts_params ts' = ts_params ts" by (simp_all add: ts'_def accept_state_def)
  note LP = siblings_subtree(3) [OF inv P]
  have PL: "P \<noteq> ts_lastAcceptedID ts" using LP by blast
  have height: "height_of ts' x = height_of ts x" if "x \<in> ?N" for x
    using that LP PL by (auto simp: height_of_def B)
  have node: "ts_blocks ts x = Some n \<Longrightarrow> x \<in> ?N \<Longrightarrow> node_ok ts' x n" for x n
  proof -
    assume x: "ts_blocks ts x = Some n" "x \<in> ?N"
    have up: "c \<in> ?N \<and> c \<noteq> P" if "(c, b) \<in> set (sm_children n)" for c b
    proof -
      have c: "c \<in> tree_kids ts x" using tree_kids_I [OF inv x(1) that] .
      then have "c \<in> bt.below ts P" using x(2) bt.below_parent by blast
      then show ?thesis by auto
    qed
    show "node_ok ts' x n" using topo_invD(2) [OF inv x(1)] up unfolding node_ok_def B by fastforce
  qed
  have link: "ts_blocks ts x = Some n \<Longrightarrow> x \<in> ?N \<Longrightarrow> x \<noteq> P \<Longrightarrow> linked ts' x n" for x n
  proof -
    assume x: "ts_blocks ts x = Some n" "x \<in> ?N" "x \<noteq> P"
    then have xL: "x \<noteq> ts_lastAcceptedID ts" using LP by blast
    from topo_invD(3) [OF inv x(1) xL] obtain b m where b: "sm_blk n = Some b" "block_ID b = x"
      "ts_blocks ts (block_Parent b) = Some m" "(x, b) \<in> set (sm_children m)"
      "block_Height b = Suc (height_of ts (block_Parent b))" by (auto simp: linked_def)
    have "x \<in> tree_kids ts (block_Parent b)" using tree_kids_I [OF inv b(3,4)] .
    then have "block_Parent b \<in> ?N" using x bt.below_parent bt.one_parent by (metis insert_iff)
    with b height show "linked ts' x n" by (auto simp: linked_def B)
  qed
  from bt.kids [OF P] inv obtain n where n: "ts_blocks ts P = Some n" by (auto simp: tree_nodes_def)
  then have "\<forall>b. sm_blk n = Some b \<longrightarrow> block_Height b = height_of ts P" using PL by (simp add: height_of_def)
  with n node link show inv': "topo_inv ts'" by (auto simp: topo_inv_def B restrict_map_def split: if_splits)
  have "?N \<subseteq> dom (ts_blocks ts)"
    using bt.below_N [of _ ts P] bt.kids [OF P] inv by (auto simp: tree_nodes_def)
  then show N: "tree_nodes ts' = ?N" using inv' by (auto simp: tree_nodes_def B)
  show "x \<in> tree_nodes ts' \<Longrightarrow> height_of ts' x = height_of ts x" using N height by simp
  show "x \<in> tree_nodes ts' \<Longrightarrow> tree_kids ts' x = tree_kids ts x"
    using N inv inv' by (simp add: tree_kids_def block_kids_def B)
qed

lemma node_preference:
  assumes inv: "topo_inv ts" and n: "ts_blocks ts x = Some n" "sm_sb n = Some sb"
  shows "Tree_Preference sb \<in> tree_kids ts x" "tree_inv sb" "tree_params sb = ts_params ts"
    "\<exists>b. map_of (sm_children n) (Tree_Preference sb) = Some b \<and> block_ID b = Tree_Preference sb \<and>
         block_Height b = height_of ts (Tree_Preference sb)"
proof -
  note ok = topo_invD(2) [OF inv n(1)]
  show t: "tree_inv sb" "tree_params sb = ts_params ts" using ok n(2) by (simp_all add: node_ok_def)
  then have "Tree_Preference sb \<in> fst ` set (sm_children n)"
    using Tree_Preference_in_choices [OF t(1)] ok n(2) by (auto simp: node_ok_def)
  then obtain b where b: "(Tree_Preference sb, b) \<in> set (sm_children n)" by auto
  show "Tree_Preference sb \<in> tree_kids ts x" using tree_kids_I [OF inv n(1) b] .
  show "\<exists>b. map_of (sm_children n) (Tree_Preference sb) = Some b \<and> block_ID b = Tree_Preference sb \<and>
         block_Height b = height_of ts (Tree_Preference sb)"
  proof (intro exI [of _ b] conjI)
    show "map_of (sm_children n) (Tree_Preference sb) = Some b" using ok b by (simp add: node_ok_def)
    show "block_ID b = Tree_Preference sb" using node_child(1) [OF inv n(1) b] .
    show "block_Height b = height_of ts (Tree_Preference sb)"
      using node_child(3,4) [OF inv n(1) b] by (auto simp: height_of_def)
  qed
qed

lemma acceptPreferredChild_ok:
  assumes inv: "topo_inv ts" and vm: "vm_ok vm"
    and n: "ts_blocks ts (ts_lastAcceptedID ts) = Some n" "sm_sb n = Some sb"
  defines "P \<equiv> Tree_Preference sb"
  obtains ts' rs where "acceptPreferredChild vm ts n = Some (ts', None)"
    "ts'\<lparr>ts_blocks := (ts_blocks ts')(ts_lastAcceptedID ts := None)\<rparr> = accept_state ts P rs"
    "distinct rs" "set rs = tree_nodes ts - insert (ts_lastAcceptedID ts) (insert P (bt.below ts P))"
proof -
  let ?L = "ts_lastAcceptedID ts" and ?B = "ts_blocks ts"
  let ?I = "tree_kids ts ?L - {P}"
  let ?T = "bt.subtree ts ?I"
  let ?i = "map fst (rejections (Some P) (sm_children n))"
  have P: "P \<in> tree_kids ts ?L" using node_preference(1) [OF inv n] by (simp add: P_def)
  obtain b where b: "map_of (sm_children n) P = Some b" "block_ID b = P" "block_Height b = height_of ts P"
    using node_preference(4) [OF inv n] by (auto simp: P_def)
  note F = forest_blocks [OF inv]
  note sib = siblings_subtree [OF inv P]
  have dist: "distinct ?i" using forest_kids(1) [OF F(1) n(1)] unfolding rejections_def by (rule distinct_map_filter)
  have set_i: "set ?i = ?I"
    using forest_kids(2) [OF F(1) n(1)] by (auto simp: F(2) rejections_def image_iff)
  have names: "map (\<lambda>(c, b). BlockReject (block_ID b)) (rejections (Some P) (sm_children n)) = map BlockReject ?i"
    using topo_invD(2) [OF inv n(1)] by (auto simp: node_ok_def rejections_def)
  have start: "reject_state ?B ?I {} ?i []"
    using dist set_i forest_kids(3) [OF F(1) n(1)] by (auto simp: reject_state_def F(2))
  define ts1 where "ts1 = (add_calls ts [AcceptorAccept P, BlockAccept P])
    \<lparr>ts_lastAcceptedID := P, ts_lastAcceptedHeight := height_of ts P,
      ts_preferredIDs := ts_preferredIDs ts - {P}, ts_preferredHeights := (ts_preferredHeights ts)(height_of ts P := None)\<rparr>"
  define ts2 where "ts2 = add_calls ts1 (map BlockReject ?i)"
  have "?B |` UNIV = ?B" by (simp add: restrict_map_def)
  then have init: "set_blocks (add_calls ts2 (map BlockReject [])) (?B |` (- {})) = ts2"
    by (simp add: ts2_def ts1_def set_blocks_def add_calls_def)
  have "\<exists>R' l'. rejectTransitively vm (set_blocks (add_calls ts2 (map BlockReject [])) (?B |` (- {}))) ?i =
      Some (set_blocks (add_calls ts2 (map BlockReject l')) (?B |` (- R')), None) \<and> reject_state ?B ?I R' [] l' \<and> R' \<subseteq> ?T"
  proof (rule rejectTransitively_loop [OF vm F(1) _ _ _ start])
    show "x \<notin> ?T" if "c \<in> ?I" "c \<in> kids_in ?B x" for c x using that sib(2) bt.one_parent [of c ts x ?L] by (auto simp: F(2))
    show "?I \<subseteq> ?T" "{} \<union> set ?i \<subseteq> ?T" using set_i by (auto simp: bt.subtree_def)
    show "kids_in ?B x \<subseteq> ?T" if "x \<in> ?T" for x using that bt.subtree_closed by (auto simp: F(2))
  qed
  then obtain R' l' where rej: "rejectTransitively vm ts2 ?i =
      Some (set_blocks (add_calls ts2 (map BlockReject l')) (?B |` (- R')), None)"
    "reject_state ?B ?I R' [] l'" "R' \<subseteq> ?T"
    unfolding init by blast
  have "?T \<subseteq> R'" using rej(2) by (intro bt.subtree_least) (auto simp: reject_state_def F(2))
  with rej(3) have R': "R' = ?T" by blast
  let ?ts' = "set_blocks (add_calls ts2 (map BlockReject l')) (?B |` (- R'))"
  have "acceptPreferredChild vm ts n = Some (?ts', None)"
    using n(2) b vm rej(1) unfolding ts2_def ts1_def
    by (simp add: acceptPreferredChild_def P_def [symmetric] vm_ok_def reject_children_ok [OF vm] names Let_def)
  moreover have "?ts'\<lparr>ts_blocks := (ts_blocks ?ts')(?L := None)\<rparr> = accept_state ts P (?i @ l')"
  proof -
    have dom: "tree_nodes ts = dom ?B" using inv by (simp add: tree_nodes_def)
    have "(?B |` (- R'))(?L := None) = ?B |` insert P (bt.below ts P)"
      unfolding sib(1) [symmetric] R' dom by (auto simp: restrict_map_def fun_eq_iff)
    then show ?thesis by (simp add: accept_state_def ts2_def ts1_def set_blocks_def add_calls_def)
  qed
  moreover have "distinct (?i @ l')" using rej(2) dist set_i by (auto simp: reject_state_def)
  moreover have "set (?i @ l') = tree_nodes ts - insert ?L (insert P (bt.below ts P))"
  proof -
    have "set (?i @ l') = ?T" using rej(2) set_i R' by (auto simp: reject_state_def bt.subtree_def)
    moreover have "?T \<subseteq> tree_nodes ts" using rej(2) R' inv by (auto simp: reject_state_def tree_nodes_def)
    ultimately show ?thesis using sib by blast
  qed
  ultimately show thesis by (rule that)
qed

end
