(* ===== verification/Topological_Vote.thy ===== *)
theory Topological_Vote
  imports Topological_Accept
begin

text \<open>
  One round of voting: the vote loop applies the votes along a branch of the tree, accepts blocks
  as their snow trees finalize and rejects their conflicts.  The relation \<open>evolves\<close> says what a round
  may do to the state: the accepted blocks continue the chain of the last accepted block, the
  blocks that stay are the descendants of the new last accepted block, and every other block is
  rejected exactly once.
\<close>

section \<open>Updates that keep the shape of the tree\<close>

definition same_shape :: "Topological \<Rightarrow> Topological \<Rightarrow> bool" where
  "same_shape ts ts' \<longleftrightarrow> ts_lastAcceptedID ts' = ts_lastAcceptedID ts \<and>
     ts_lastAcceptedHeight ts' = ts_lastAcceptedHeight ts \<and> ts_params ts' = ts_params ts \<and>
     dom (ts_blocks ts') = dom (ts_blocks ts) \<and>
     (\<forall>x n n'. ts_blocks ts x = Some n \<longrightarrow> ts_blocks ts' x = Some n' \<longrightarrow>
        sm_blk n' = sm_blk n \<and> sm_children n' = sm_children n \<and> (sm_sb n' = None \<longleftrightarrow> sm_sb n = None) \<and>
        (\<forall>sb. sm_sb n' = Some sb \<longrightarrow>
           tree_inv sb \<and> tree_params sb = ts_params ts \<and> Tree_choices sb \<subseteq> fst ` set (sm_children n)))"

lemma same_shapeD:
  assumes "same_shape ts ts'" "ts_blocks ts' x = Some n'"
  obtains n where "ts_blocks ts x = Some n" "sm_blk n' = sm_blk n" "sm_children n' = sm_children n"
    "sm_sb n' = None \<longleftrightarrow> sm_sb n = None"
    "\<And>sb. sm_sb n' = Some sb \<Longrightarrow> tree_inv sb \<and> tree_params sb = ts_params ts \<and> Tree_choices sb \<subseteq> fst ` set (sm_children n)"
proof -
  have "x \<in> dom (ts_blocks ts)" using assms by (auto simp: same_shape_def)
  then obtain n where n: "ts_blocks ts x = Some n" by blast
  with assms have "sm_blk n' = sm_blk n \<and> sm_children n' = sm_children n \<and> (sm_sb n' = None \<longleftrightarrow> sm_sb n = None) \<and>
    (\<forall>sb. sm_sb n' = Some sb \<longrightarrow> tree_inv sb \<and> tree_params sb = ts_params ts \<and> Tree_choices sb \<subseteq> fst ` set (sm_children n))"
    unfolding same_shape_def by blast
  then show thesis by (intro that [OF n]) blast+
qed

lemma same_shapeD':
  assumes "same_shape ts ts'" "ts_blocks ts x = Some n"
  obtains n' where "ts_blocks ts' x = Some n'" "sm_blk n' = sm_blk n" "sm_children n' = sm_children n"
proof -
  have "x \<in> dom (ts_blocks ts')" using assms by (auto simp: same_shape_def)
  then obtain n' where n': "ts_blocks ts' x = Some n'" by blast
  from same_shapeD [OF assms(1) n'] assms(2) that [OF n'] show thesis by auto
qed

lemma same_shape_trans:
  assumes "same_shape ts ts1" "same_shape ts1 ts2"
  shows "same_shape ts ts2"
  unfolding same_shape_def
proof (intro conjI allI impI)
  show "ts_lastAcceptedID ts2 = ts_lastAcceptedID ts" "ts_lastAcceptedHeight ts2 = ts_lastAcceptedHeight ts"
    and p: "ts_params ts2 = ts_params ts" "dom (ts_blocks ts2) = dom (ts_blocks ts)"
    using assms by (simp_all add: same_shape_def)
  fix x n n2
  assume n: "ts_blocks ts x = Some n" and n2: "ts_blocks ts2 x = Some n2"
  from same_shapeD [OF assms(2) n2] obtain n1 where n1: "ts_blocks ts1 x = Some n1"
    "sm_blk n2 = sm_blk n1" "sm_children n2 = sm_children n1" "sm_sb n2 = None \<longleftrightarrow> sm_sb n1 = None"
    "\<And>sb. sm_sb n2 = Some sb \<Longrightarrow> tree_inv sb \<and> tree_params sb = ts_params ts1 \<and> Tree_choices sb \<subseteq> fst ` set (sm_children n1)"
    by blast
  from same_shapeD [OF assms(1) n1(1)] n have n0: "sm_blk n1 = sm_blk n" "sm_children n1 = sm_children n"
    "sm_sb n1 = None \<longleftrightarrow> sm_sb n = None" by auto
  have "ts_params ts1 = ts_params ts" using assms(1) by (simp add: same_shape_def)
  with n0 n1 show "sm_blk n2 = sm_blk n" "sm_children n2 = sm_children n" "sm_sb n2 = None \<longleftrightarrow> sm_sb n = None"
    "\<And>sb. sm_sb n2 = Some sb \<Longrightarrow> tree_inv sb" "\<And>sb. sm_sb n2 = Some sb \<Longrightarrow> tree_params sb = ts_params ts"
    "\<And>sb. sm_sb n2 = Some sb \<Longrightarrow> Tree_choices sb \<subseteq> fst ` set (sm_children n)" by auto
qed

lemma same_shape_eqs:
  assumes "same_shape ts ts'"
  shows "ts_lastAcceptedID ts' = ts_lastAcceptedID ts" "ts_lastAcceptedHeight ts' = ts_lastAcceptedHeight ts"
    "ts_params ts' = ts_params ts" "dom (ts_blocks ts') = dom (ts_blocks ts)"
    "ts_blocks ts' x = None \<longleftrightarrow> ts_blocks ts x = None"
proof -
  show "ts_lastAcceptedID ts' = ts_lastAcceptedID ts" "ts_lastAcceptedHeight ts' = ts_lastAcceptedHeight ts"
    "ts_params ts' = ts_params ts" and d: "dom (ts_blocks ts') = dom (ts_blocks ts)"
    using assms by (simp_all add: same_shape_def)
  show "ts_blocks ts' x = None \<longleftrightarrow> ts_blocks ts x = None" using d by blast
qed

lemma same_shape_height:
  assumes "same_shape ts ts'"
  shows "height_of ts' = height_of ts"
proof
  fix x
  note eq = same_shape_eqs [OF assms]
  show "height_of ts' x = height_of ts x"
  proof (cases "ts_blocks ts x")
    case None
    then show ?thesis using eq(5) [of x] by (simp add: height_of_def eq(1,2))
  next
    case (Some n)
    from same_shapeD' [OF assms Some] obtain n' where "ts_blocks ts' x = Some n'" "sm_blk n' = sm_blk n" .
    with Some show ?thesis by (simp add: height_of_def eq(1,2))
  qed
qed

lemma same_shape_inv:
  assumes inv: "topo_inv ts" and s: "same_shape ts ts'"
  shows "topo_inv ts'" "tree_nodes ts' = tree_nodes ts" "tree_kids ts' = tree_kids ts"
proof -
  note eq = same_shape_eqs(1-4) [OF s]
  have node: "node_ok ts' x n'" if x: "ts_blocks ts' x = Some n'" for x n'
  proof -
    obtain n where n: "ts_blocks ts x = Some n" "sm_children n' = sm_children n" "sm_sb n' = None \<longleftrightarrow> sm_sb n = None"
      "\<And>sb. sm_sb n' = Some sb \<Longrightarrow> tree_inv sb \<and> tree_params sb = ts_params ts \<and> Tree_choices sb \<subseteq> fst ` set (sm_children n)"
      using same_shapeD [OF s x] by metis
    have "\<exists>m. ts_blocks ts' c = Some m \<and> sm_blk m = Some b" if "(c, b) \<in> set (sm_children n)" for c b
      using node_child(4) [OF inv n(1) that] same_shapeD' [OF s] by metis
    with topo_invD(2) [OF inv n(1)] n(2-4) show ?thesis by (simp add: node_ok_def eq)
  qed
  have link: "linked ts' x n'" if x: "ts_blocks ts' x = Some n'" "x \<noteq> ts_lastAcceptedID ts" for x n'
  proof -
    obtain n where n: "ts_blocks ts x = Some n" "sm_blk n' = sm_blk n" using same_shapeD [OF s x(1)] by metis
    from topo_invD(3) [OF inv n(1) x(2)] obtain b m where b: "sm_blk n = Some b" "block_ID b = x"
      "ts_blocks ts (block_Parent b) = Some m" "(x, b) \<in> set (sm_children m)"
      "block_Height b = Suc (height_of ts (block_Parent b))" by (auto simp: linked_def)
    moreover obtain m' where "ts_blocks ts' (block_Parent b) = Some m'" "sm_children m' = sm_children m"
      using same_shapeD' [OF s b(3)] by metis
    ultimately show ?thesis using n(2) same_shape_height [OF s] by (auto simp: linked_def)
  qed
  obtain n where n: "ts_blocks ts (ts_lastAcceptedID ts) = Some n" "\<forall>b. sm_blk n = Some b \<longrightarrow> block_Height b = ts_lastAcceptedHeight ts"
    using topo_invD(1) [OF inv] by blast
  obtain n' where "ts_blocks ts' (ts_lastAcceptedID ts) = Some n'" "sm_blk n' = sm_blk n"
    using same_shapeD' [OF s n(1)] by metis
  with n node link show inv': "topo_inv ts'" by (simp add: topo_inv_def eq)
  show "tree_nodes ts' = tree_nodes ts" using inv inv' eq by (simp add: tree_nodes_def)
  have "block_kids ts' x = block_kids ts x" for x
  proof (cases "ts_blocks ts x")
    case None
    then show ?thesis using same_shape_eqs(5) [OF s, of x] by (simp add: block_kids_def)
  next
    case (Some n)
    from same_shapeD' [OF s Some] obtain n' where "ts_blocks ts' x = Some n'" "sm_children n' = sm_children n" .
    with Some show ?thesis by (simp add: block_kids_def)
  qed
  with inv inv' show "tree_kids ts' = tree_kids ts" by (simp add: tree_kids_def fun_eq_iff)
qed

text \<open>The child a block prefers.\<close>

definition pref_child :: "Topological \<Rightarrow> ID \<Rightarrow> ID option" where
  "pref_child ts x = (case ts_blocks ts x of None \<Rightarrow> None | Some n \<Rightarrow> map_option Tree_Preference (sm_sb n))"

definition pref_edge :: "Topological \<Rightarrow> (ID \<times> ID) set" where
  "pref_edge ts = {(x, c). pref_child ts x = Some c}"

lemma pref_edge_iff [simp]: "(x, c) \<in> pref_edge ts \<longleftrightarrow> pref_child ts x = Some c"
  by (simp add: pref_edge_def)

lemma pref_child_kid: "topo_inv ts \<Longrightarrow> pref_child ts x = Some c \<Longrightarrow> c \<in> tree_kids ts x"
  by (auto simp: pref_child_def split: option.splits intro: node_preference(1))

lemma pref_edge_edge: "topo_inv ts \<Longrightarrow> pref_edge ts \<subseteq> bt.edge ts"
  by (auto simp: pref_child_kid)

lemma same_shape_update:
  assumes "topo_inv ts" "ts_blocks ts x = Some n" "sm_blk n' = sm_blk n" "sm_children n' = sm_children n"
    "sm_sb n' = None \<longleftrightarrow> sm_sb n = None"
    "\<And>sb. sm_sb n' = Some sb \<Longrightarrow> tree_inv sb \<and> tree_params sb = ts_params ts \<and> Tree_choices sb \<subseteq> fst ` set (sm_children n)"
  shows "same_shape ts (set_blocks ts ((ts_blocks ts)(x \<mapsto> n')))"
proof -
  have "tree_inv sb \<and> tree_params sb = ts_params ts \<and> Tree_choices sb \<subseteq> fst ` set (sm_children m)"
    if "ts_blocks ts y = Some m" "sm_sb m = Some sb" for y m sb
    using topo_invD(2) [OF assms(1) that(1)] that(2) by (simp add: node_ok_def)
  with assms(2-6) show ?thesis unfolding same_shape_def by auto
qed

text \<open>Setting the falter flag of a block and applying a vote to it.\<close>

lemma falter_block:
  assumes inv: "topo_inv ts" and n: "ts_blocks ts x = Some n"
  defines "ts' \<equiv> set_blocks ts ((ts_blocks ts)(x \<mapsto> n\<lparr>sm_shouldFalter := True\<rparr>))"
  shows "same_shape ts ts'" "pref_child ts' = pref_child ts"
proof -
  have "tree_inv sb \<and> tree_params sb = ts_params ts \<and> Tree_choices sb \<subseteq> fst ` set (sm_children n)" if "sm_sb n = Some sb" for sb
    using topo_invD(2) [OF inv n] that by (simp add: node_ok_def)
  then show "same_shape ts ts'" unfolding ts'_def by (intro same_shape_update [OF inv n]) simp_all
  show "pref_child ts' = pref_child ts" using n by (simp add: ts'_def pref_child_def fun_eq_iff)
qed

lemma falter_children:
  assumes "topo_inv ts"
  shows "\<exists>B. fold (falter_child b next) cs ts = set_blocks ts B \<and> same_shape ts (set_blocks ts B) \<and>
    pref_child (set_blocks ts B) = pref_child ts"
  using assms
proof (induction cs arbitrary: ts)
  case Nil
  have "same_shape ts ts" using Nil topo_invD(2) [OF Nil] unfolding same_shape_def by (auto simp: node_ok_def)
  then show ?case by (intro exI [of _ "ts_blocks ts"]) simp
next
  case (Cons c cs)
  show ?case
  proof (cases "\<not> b \<and> c = next \<or> ts_blocks ts c = None")
    case True
    then have "falter_child b next c ts = ts" by (auto simp: falter_child_def)
    with Cons.IH [OF Cons.prems] show ?thesis by simp
  next
    case False
    then obtain n where n: "ts_blocks ts c = Some n" by blast
    let ?ts = "set_blocks ts ((ts_blocks ts)(c \<mapsto> n\<lparr>sm_shouldFalter := True\<rparr>))"
    have c: "falter_child b next c ts = ?ts" using False n by (auto simp: falter_child_def set_blocks_def)
    note f = falter_block [OF Cons.prems n]
    from Cons.IH [OF same_shape_inv(1) [OF Cons.prems f(1)]] obtain B where
      "fold (falter_child b next) cs ?ts = set_blocks ?ts B" "same_shape ?ts (set_blocks ?ts B)"
      "pref_child (set_blocks ?ts B) = pref_child ?ts" by blast
    with f c same_shape_trans [OF f(1)] show ?thesis by auto
  qed
qed

definition voted :: "snowmanBlock \<Rightarrow> Tree \<Rightarrow> ID Bag \<Rightarrow> Tree" where
  "voted n sb V = fst (Tree_RecordPoll (if sm_shouldFalter n then Tree_RecordUnsuccessfulPoll sb else sb) V)"

lemma vote_block:
  assumes inv: "topo_inv ts" and n: "ts_blocks ts x = Some n" "sm_sb n = Some sb" and V: "bag_wf V"
  defines "ts' \<equiv> set_blocks ts ((ts_blocks ts)(x \<mapsto> n\<lparr>sm_shouldFalter := False, sm_sb := Some (voted n sb V)\<rparr>))"
  shows "same_shape ts ts'" "pref_child ts' = (pref_child ts)(x \<mapsto> Tree_Preference (voted n sb V))"
proof -
  define sb1 where "sb1 = (if sm_shouldFalter n then Tree_RecordUnsuccessfulPoll sb else sb)"
  have ok: "tree_inv sb" "tree_params sb = ts_params ts" "Tree_choices sb \<subseteq> fst ` set (sm_children n)"
    using topo_invD(2) [OF inv n(1)] n(2) by (simp_all add: node_ok_def)
  then have ok1: "tree_inv sb1" "tree_params sb1 = ts_params ts" "Tree_choices sb1 \<subseteq> fst ` set (sm_children n)"
    by (auto simp: sb1_def Tree_RecordUnsuccessfulPoll_def Tree_choices_def tree_inv_def)
  note f = Tree_RecordPoll_facts [OF ok1(1) V]
  have v: "voted n sb V = fst (Tree_RecordPoll sb1 V)" by (simp add: voted_def sb1_def)
  have "tree_inv (voted n sb V) \<and> tree_params (voted n sb V) = ts_params ts \<and>
      Tree_choices (voted n sb V) \<subseteq> fst ` set (sm_children n)" using f ok1 by (auto simp: v)
  with n show "same_shape ts ts'" unfolding ts'_def by (intro same_shape_update [OF inv n(1)]) simp_all
  show "pref_child ts' = (pref_child ts)(x \<mapsto> Tree_Preference (voted n sb V))"
    by (simp add: ts'_def pref_child_def fun_eq_iff)
qed

section \<open>What a round of voting does\<close>

text \<open>The decisions of a round: the accepted blocks in order, each with the blocks rejected
  because of it.\<close>

definition decision_calls :: "(ID \<times> ID list) list \<Rightarrow> vm_call list" where
  "decision_calls ds = concat (map (\<lambda>(P, rs). AcceptorAccept P # BlockAccept P # map BlockReject rs) ds)"

definition rejected_blocks :: "(ID \<times> ID list) list \<Rightarrow> ID list" where
  "rejected_blocks ds = concat (map snd ds)"

definition evolves :: "Topological \<Rightarrow> (ID \<times> ID list) list \<Rightarrow> Topological \<Rightarrow> bool" where
  "evolves ts ds ts' \<longleftrightarrow>
     topo_inv ts' \<and> ts_params ts' = ts_params ts \<and>
     successively (\<lambda>a b. b \<in> tree_kids ts a) (ts_lastAcceptedID ts # map fst ds) \<and>
     ts_lastAcceptedID ts' = last (ts_lastAcceptedID ts # map fst ds) \<and>
     tree_nodes ts' = insert (ts_lastAcceptedID ts') (bt.below ts (ts_lastAcceptedID ts')) \<and>
     (\<forall>x \<in> tree_nodes ts'. tree_kids ts' x = tree_kids ts x \<and> height_of ts' x = height_of ts x) \<and>
     ts_calls ts' = ts_calls ts @ decision_calls ds \<and>
     distinct (rejected_blocks ds) \<and>
     set (rejected_blocks ds) = tree_nodes ts - (tree_nodes ts' \<union> insert (ts_lastAcceptedID ts) (set (map fst ds))) \<and>
     ts_preference ts' = ts_preference ts \<and>
     ts_preferredIDs ts' = ts_preferredIDs ts - set (map fst ds) \<and>
     ts_preferredHeights ts' =
       (\<lambda>h. if h \<in> height_of ts ` set (map fst ds) then None else ts_preferredHeights ts h)"

lemma evolvesD:
  assumes "evolves ts ds ts'"
  shows "topo_inv ts'" "ts_params ts' = ts_params ts"
    "successively (\<lambda>a b. b \<in> tree_kids ts a) (ts_lastAcceptedID ts # map fst ds)"
    "ts_lastAcceptedID ts' = last (ts_lastAcceptedID ts # map fst ds)"
    "tree_nodes ts' = insert (ts_lastAcceptedID ts') (bt.below ts (ts_lastAcceptedID ts'))"
    "\<And>x. x \<in> tree_nodes ts' \<Longrightarrow> tree_kids ts' x = tree_kids ts x"
    "\<And>x. x \<in> tree_nodes ts' \<Longrightarrow> height_of ts' x = height_of ts x"
    "ts_calls ts' = ts_calls ts @ decision_calls ds" "distinct (rejected_blocks ds)"
    "set (rejected_blocks ds) = tree_nodes ts - (tree_nodes ts' \<union> insert (ts_lastAcceptedID ts) (set (map fst ds)))"
    "ts_preference ts' = ts_preference ts" "ts_preferredIDs ts' = ts_preferredIDs ts - set (map fst ds)"
    "ts_preferredHeights ts' = (\<lambda>h. if h \<in> height_of ts ` set (map fst ds) then None else ts_preferredHeights ts h)"
  using assms unfolding evolves_def by blast+

lemma all_below_root: "topo_inv ts \<Longrightarrow> tree_nodes ts = insert (ts_lastAcceptedID ts) (bt.below ts (ts_lastAcceptedID ts))"
  using bt.below_root [of _ ts] bt.root_N [of ts] bt.below_N [of _ ts] by blast

lemma evolves_nodes:
  assumes "evolves ts ds ts'"
  shows "tree_nodes ts' \<subseteq> tree_nodes ts" "tree_kids ts' x \<subseteq> tree_kids ts x"
    "x \<in> tree_nodes ts' \<Longrightarrow> bt.below ts' x = bt.below ts x"
    "ts_lastAcceptedID ts' \<in> insert (ts_lastAcceptedID ts) (bt.below ts (ts_lastAcceptedID ts))"
proof -
  note e = evolvesD [OF assms]
  show L: "ts_lastAcceptedID ts' \<in> insert (ts_lastAcceptedID ts) (bt.below ts (ts_lastAcceptedID ts))"
    using bt.chain_last [OF e(3)] e(4) by simp
  then show "tree_nodes ts' \<subseteq> tree_nodes ts" using bt.below_N [of _ ts] bt.root_N [of ts] unfolding e(5) by auto
  show kids: "tree_kids ts' x \<subseteq> tree_kids ts x" for x
    using e(6) [of x] bt.kids [of _ ts' x] by blast
  have edges: "bt.edge ts' \<subseteq> bt.edge ts" using kids by (auto simp: bt.edge_def)
  have sub: "bt.below ts' x \<subseteq> bt.below ts x" for x using trancl_mono [OF _ edges] by (auto simp: bt.below_def)
  assume x: "x \<in> tree_nodes ts'"
  have "y \<in> bt.below ts' x \<and> y \<in> tree_nodes ts'" if "(x, y) \<in> (bt.edge ts)\<^sup>+" for y
    using that
  proof (induction rule: trancl_induct)
    case (base y)
    then have "y \<in> tree_kids ts' x" using e(6) [OF x] by simp
    then show ?case using bt.kid_below bt.kids by blast
  next
    case (step y z)
    then have "z \<in> tree_kids ts' y" using e(6) [of y] by simp
    then show ?case using step.IH bt.kids bt.below_parent by blast
  qed
  then show "bt.below ts' x = bt.below ts x" using sub by (auto simp: bt.below_def)
qed

lemma evolves_shape:
  assumes inv: "topo_inv ts" and s: "same_shape ts (set_blocks ts B)"
  shows "evolves ts [] (set_blocks ts B)"
  using same_shape_inv [OF inv s] same_shape_height [OF s] all_below_root [OF inv]
  by (simp add: evolves_def decision_calls_def rejected_blocks_def)

lemma evolves_refl: "topo_inv ts \<Longrightarrow> evolves ts [] ts"
  using all_below_root [of ts] by (simp add: evolves_def decision_calls_def rejected_blocks_def)

lemma evolves_accept:
  assumes inv: "topo_inv ts" and P: "P \<in> tree_kids ts (ts_lastAcceptedID ts)"
    and rs: "distinct rs" "set rs = tree_nodes ts - insert (ts_lastAcceptedID ts) (insert P (bt.below ts P))"
  shows "evolves ts [(P, rs)] (accept_state ts P rs)"
proof -
  note a = accept_state_inv [OF inv P, where rs = rs]
  have "set rs = tree_nodes ts - (tree_nodes (accept_state ts P rs) \<union> {ts_lastAcceptedID ts, P})"
    using rs(2) a(2) by auto
  moreover have "ts_lastAcceptedID (accept_state ts P rs) = P" "ts_params (accept_state ts P rs) = ts_params ts"
    "ts_calls (accept_state ts P rs) = ts_calls ts @ decision_calls [(P, rs)]"
    "ts_preference (accept_state ts P rs) = ts_preference ts"
    "ts_preferredIDs (accept_state ts P rs) = ts_preferredIDs ts - {P}"
    "ts_preferredHeights (accept_state ts P rs) = (ts_preferredHeights ts)(height_of ts P := None)"
    by (simp_all add: accept_state_def decision_calls_def)
  ultimately show ?thesis using a rs(1) P by (simp add: evolves_def rejected_blocks_def fun_eq_iff)
qed

lemma evolves_accepted:
  assumes "evolves ts ds ts'"
  shows "z \<in> set (map fst ds) \<longleftrightarrow> z \<in> bt.below ts (ts_lastAcceptedID ts) \<and>
      (ts_lastAcceptedID ts' = z \<or> ts_lastAcceptedID ts' \<in> bt.below ts z)"
    "z \<in> set (map fst ds) \<Longrightarrow> z \<in> tree_nodes ts' \<Longrightarrow> z = ts_lastAcceptedID ts'"
    "set (map fst ds) \<subseteq> tree_nodes ts"
proof -
  note e = evolvesD [OF assms]
  show A: "z \<in> set (map fst ds) \<longleftrightarrow> z \<in> bt.below ts (ts_lastAcceptedID ts) \<and>
      (ts_lastAcceptedID ts' = z \<or> ts_lastAcceptedID ts' \<in> bt.below ts z)" for z
    using bt.chain_covers [OF e(3), of z] unfolding e(4) .
  show "z = ts_lastAcceptedID ts'" if "z \<in> set (map fst ds)" "z \<in> tree_nodes ts'"
    using that A [of z] bt.ht_below [of z ts "ts_lastAcceptedID ts'"] bt.ht_below [of "ts_lastAcceptedID ts'" ts z]
    unfolding e(5) by auto
  show "set (map fst ds) \<subseteq> tree_nodes ts" using A bt.below_N [of _ ts] by blast
qed

lemma decided_sets:
  assumes "N1 \<subseteq> N" "N2 \<subseteq> N1" "A2 \<subseteq> N1" "L1 = L \<or> L1 \<in> A" "L \<in> N1 \<Longrightarrow> L = L1"
    "\<And>x. x \<in> A \<Longrightarrow> x \<in> N1 \<Longrightarrow> x = L1"
  shows "(N - (N1 \<union> insert L A)) \<union> (N1 - (N2 \<union> insert L1 A2)) = N - (N2 \<union> insert L (A \<union> A2))"
  using assms by auto

lemma evolves_trans:
  assumes e1: "evolves ts ds ts1" and e2: "evolves ts1 es ts2"
  shows "evolves ts (ds @ es) ts2"
proof -
  let ?L = "ts_lastAcceptedID ts" and ?L1 = "ts_lastAcceptedID ts1" and ?L2 = "ts_lastAcceptedID ts2"
  let ?A = "set (map fst ds)" and ?A2 = "set (map fst es)"
  note d1 = evolvesD [OF e1] and d2 = evolvesD [OF e2]
  note n1 = evolves_nodes [OF e1] and n2 = evolves_nodes [OF e2]
  have A2: "?A2 \<subseteq> tree_nodes ts1" by (rule evolves_accepted(3) [OF e2])
  have L1: "?L1 = ?L \<or> ?L1 \<in> ?A" using d1(4) by (metis last.simps last_in_set)
  have LN: "?L \<in> tree_nodes ts1 \<Longrightarrow> ?L = ?L1" unfolding d1(5) by auto
  have L2: "?L2 \<in> tree_nodes ts1" using n2(1) bt.root_N by blast
  have kids: "tree_kids ts2 x = tree_kids ts x \<and> height_of ts2 x = height_of ts x" if "x \<in> tree_nodes ts2" for x
    using that d2(6,7) [OF that] d1(6,7) [of x] n2(1) by auto
  have chain: "successively (\<lambda>a b. b \<in> tree_kids ts a) (?L # map fst (ds @ es))"
  proof (cases es)
    case (Cons e es')
    have "successively (\<lambda>a b. b \<in> tree_kids ts a) (?L1 # map fst es)"
      using d2(3) by (rule successively_mono) (use n1(2) in blast)
    then have "successively (\<lambda>a b. b \<in> tree_kids ts a) (map fst es)" "fst e \<in> tree_kids ts ?L1" by (auto simp: Cons)
    with d1(3,4) Cons show ?thesis by (auto simp: successively_append_iff simp flip: append_Cons)
  qed (use d1(3) in simp)
  have last: "?L2 = last (?L # map fst (ds @ es))" using d1(4) d2(4) by (cases es) auto
  have rej: "set (rejected_blocks (ds @ es)) = tree_nodes ts - (tree_nodes ts2 \<union> insert ?L (set (map fst (ds @ es))))"
  proof -
    have "set (rejected_blocks (ds @ es)) = (tree_nodes ts - (tree_nodes ts1 \<union> insert ?L ?A)) \<union>
        (tree_nodes ts1 - (tree_nodes ts2 \<union> insert ?L1 ?A2))"
      using d1(10) d2(10) by (simp add: rejected_blocks_def)
    moreover have "set (map fst (ds @ es)) = ?A \<union> ?A2" by auto
    moreover have "x = ?L1" if "x \<in> ?A" "x \<in> tree_nodes ts1" for x by (rule evolves_accepted(2) [OF e1 that])
    ultimately show ?thesis using decided_sets [OF n1(1) n2(1) A2 L1 LN] by simp
  qed
  have dist: "distinct (rejected_blocks (ds @ es))"
  proof -
    have "rejected_blocks (ds @ es) = rejected_blocks ds @ rejected_blocks es" by (simp add: rejected_blocks_def)
    moreover have "set (rejected_blocks ds) \<inter> set (rejected_blocks es) = {}" unfolding d1(10) d2(10) by blast
    ultimately show ?thesis using d1(9) d2(9) by simp
  qed
  have heights: "height_of ts1 ` ?A2 = height_of ts ` ?A2" using A2 d1(7) by (intro image_cong) auto
  show ?thesis unfolding evolves_def
  proof (intro conjI ballI)
    show "topo_inv ts2" by (rule d2)
    show "ts_params ts2 = ts_params ts" "ts_preference ts2 = ts_preference ts" using d1 d2 by simp_all
    show "tree_nodes ts2 = insert ?L2 (bt.below ts ?L2)" using d2(5) n1(3) [OF L2] by simp
    show "ts_calls ts2 = ts_calls ts @ decision_calls (ds @ es)" using d1(8) d2(8) by (simp add: decision_calls_def)
    show "ts_preferredIDs ts2 = ts_preferredIDs ts - set (map fst (ds @ es))" unfolding d1(12) d2(12) by auto
    show "ts_preferredHeights ts2 =
        (\<lambda>h. if h \<in> height_of ts ` set (map fst (ds @ es)) then None else ts_preferredHeights ts h)"
      unfolding d2(13) heights d1(13) map_append set_append image_Un by (simp add: fun_eq_iff)
  qed (use kids chain last rej dist in simp_all)
qed

section \<open>One vote\<close>

lemma pref_child_accept: "pref_child (accept_state ts P rs) y =
    (if y \<in> insert P (bt.below ts P) then pref_child ts y else None)"
  by (auto simp: pref_child_def accept_state_def restrict_map_def)

lemma pref_child_outside: "topo_inv ts \<Longrightarrow> y \<notin> tree_nodes ts \<Longrightarrow> pref_child ts y = None"
  by (auto simp: pref_child_def tree_nodes_def split: option.splits)

definition next_vote :: "votes list \<Rightarrow> ID" where
  "next_vote vs = (case vs of [] \<Rightarrow> ids_Empty | v # _ \<Rightarrow> votes_parentID v)"

lemma vote_step_ok:
  assumes inv: "topo_inv ts" and vm: "vm_ok vm" and V: "bag_wf (votes_votes v)"
    and n: "ts_blocks ts (votes_parentID v) = Some n" "sm_sb n = Some sb"
  defines "x \<equiv> votes_parentID v" and "P \<equiv> Tree_Preference (voted n sb (votes_votes v))"
  obtains ts1 ds where
    "vote_loop vm (v # rest) ts np on =
       vote_loop vm rest ts1 (if on then P else np) (on \<and> next_vote rest = P)"
    "evolves ts ds ts1" "ds = [] \<or> (\<exists>rs. ds = [(P, rs)]) \<and> x = ts_lastAcceptedID ts"
    "pref_child ts1 = (\<lambda>y. if y \<in> tree_nodes ts1 then ((pref_child ts)(x \<mapsto> P)) y else None)"
    "P \<in> tree_kids ts x"
proof -
  let ?sb = "voted n sb (votes_votes v)"
  define n' where "n' = n\<lparr>sm_shouldFalter := False, sm_sb := Some ?sb\<rparr>"
  define ts0 where "ts0 = set_blocks ts ((ts_blocks ts)(x \<mapsto> n'))"
  note v = vote_block [OF inv n V, folded n'_def x_def P_def, folded ts0_def]
  note inv0 = same_shape_inv [OF inv v(1)]
  have x0: "ts_blocks ts0 x = Some n'" "sm_sb n' = Some ?sb" by (simp_all add: ts0_def n'_def)
  have P: "P \<in> tree_kids ts x" using node_preference(1) [OF inv0(1) x0] inv0(3) by (simp add: P_def)
  have e0: "evolves ts [] ts0" using v(1) unfolding ts0_def by (rule evolves_shape [OF inv])
  have xN: "x \<in> tree_nodes ts" using n inv by (auto simp: tree_nodes_def x_def)
  let ?falter = "\<lambda>t. fold (falter_child (sm_shouldFalter n) (next_vote rest)) (map fst (sm_children n')) t"
  have step: "vote_loop vm (v # rest) ts np on =
      vote_loop vm rest (?falter t) (if on then P else np) (on \<and> next_vote rest = P)"
    if "(if Tree_Finalized ?sb \<and> ts_lastAcceptedID ts0 = x
         then do { (ts, err) \<leftarrow> acceptPreferredChild vm ts0 n';
                   Some (if err = None then ts\<lparr>ts_blocks := (ts_blocks ts)(x := None)\<rparr> else ts, err) }
         else Some (ts0, None)) = Some (t, None)" for t
    unfolding vote_loop.simps(2) n option.case Let_def voted_def [symmetric]
    unfolding x_def [symmetric] n'_def [symmetric] set_blocks_def [symmetric]
    unfolding ts0_def [symmetric] P_def [symmetric] next_vote_def [symmetric]
      that [folded set_blocks_def] by simp
  show thesis
  proof (cases "Tree_Finalized ?sb \<and> ts_lastAcceptedID ts0 = x")
    case True
    then have n0: "ts_blocks ts0 (ts_lastAcceptedID ts0) = Some n'" using x0 by simp
    obtain t rs where a: "acceptPreferredChild vm ts0 n' = Some (t, None)"
      "t\<lparr>ts_blocks := (ts_blocks t)(x := None)\<rparr> = accept_state ts0 P rs"
      "distinct rs" "set rs = tree_nodes ts0 - insert x (insert P (bt.below ts0 P))"
      using acceptPreferredChild_ok [OF inv0(1) vm n0 x0(2), folded P_def] True by metis
    have P0: "P \<in> tree_kids ts0 (ts_lastAcceptedID ts0)" using P True inv0(3) by simp
    have e1: "evolves ts0 [(P, rs)] (accept_state ts0 P rs)"
      using evolves_accept [OF inv0(1) P0 a(3)] a(4) True by simp
    from falter_children [OF evolvesD(1) [OF e1]] obtain B where f: "?falter (accept_state ts0 P rs) = set_blocks (accept_state ts0 P rs) B"
      "same_shape (accept_state ts0 P rs) (set_blocks (accept_state ts0 P rs) B)"
      "pref_child (set_blocks (accept_state ts0 P rs) B) = pref_child (accept_state ts0 P rs)" by blast
    note e2 = evolves_shape [OF evolvesD(1) [OF e1] f(2)]
    have N: "tree_nodes (set_blocks (accept_state ts0 P rs) B) = insert P (bt.below ts0 P)"
      using same_shape_inv(2) [OF evolvesD(1) [OF e1] f(2)] accept_state_inv(2) [OF inv0(1) P0] by simp
    show thesis
    proof (rule that)
      show "vote_loop vm (v # rest) ts np on =
          vote_loop vm rest (set_blocks (accept_state ts0 P rs) B) (if on then P else np) (on \<and> next_vote rest = P)"
        using step [of "accept_state ts0 P rs"] True a(1,2) f(1) by simp
      show "evolves ts [(P, rs)] (set_blocks (accept_state ts0 P rs) B)"
        using evolves_trans [OF evolves_trans [OF e0 e1] e2] by simp
      show "[(P, rs)] = [] \<or> (\<exists>rs'. [(P, rs)] = [(P, rs')]) \<and> x = ts_lastAcceptedID ts"
        using True v(1) by (simp add: same_shape_eqs)
      show "pref_child (set_blocks (accept_state ts0 P rs) B) =
          (\<lambda>y. if y \<in> tree_nodes (set_blocks (accept_state ts0 P rs) B) then ((pref_child ts)(x \<mapsto> P)) y else None)"
        unfolding N f(3) pref_child_accept v(2) by (simp add: fun_eq_iff)
    qed (rule P)
  next
    case False
    from falter_children [OF inv0(1)] obtain B where f: "?falter ts0 = set_blocks ts0 B"
      "same_shape ts0 (set_blocks ts0 B)" "pref_child (set_blocks ts0 B) = pref_child ts0" by blast
    note e2 = evolves_shape [OF inv0(1) f(2)]
    have N: "tree_nodes (set_blocks ts0 B) = tree_nodes ts" using same_shape_inv(2) [OF inv0(1) f(2)] inv0(2) by simp
    show thesis
    proof (rule that)
      show "vote_loop vm (v # rest) ts np on =
          vote_loop vm rest (set_blocks ts0 B) (if on then P else np) (on \<and> next_vote rest = P)"
        using step [of ts0] False f(1) by simp
      show "evolves ts [] (set_blocks ts0 B)" using evolves_trans [OF e0 e2] by simp
      show "pref_child (set_blocks ts0 B) =
          (\<lambda>y. if y \<in> tree_nodes (set_blocks ts0 B) then ((pref_child ts)(x \<mapsto> P)) y else None)"
        unfolding N f(3) v(2) using pref_child_outside [OF inv] xN by (auto simp: fun_eq_iff)
    qed (simp_all add: P)
  qed
qed

section \<open>The vote loop\<close>

lemma path_update:
  assumes "(a, z) \<in> R\<^sup>*" "z = x \<or> (x, z) \<notin> R\<^sup>*" "\<And>u w. (u, w) \<in> R \<Longrightarrow> u \<noteq> x \<Longrightarrow> (u, w) \<in> R'"
  shows "(a, z) \<in> R'\<^sup>*"
  using assms(1)
proof (induction rule: converse_rtrancl_induct)
  case (step u w)
  show ?case
  proof (cases "u = x")
    case True
    then have "z = x" using step.hyps assms(2) by (meson converse_rtrancl_into_rtrancl)
    with True show ?thesis by simp
  next
    case False
    with step assms(3) show ?thesis by (meson converse_rtrancl_into_rtrancl)
  qed
qed simp

text \<open>The preferred block \<open>np'\<close> a round ends with: it is on the preferred branch of the new state, and the
  preferences above it have not changed.\<close>

definition vote_result :: "Topological \<Rightarrow> ID \<Rightarrow> (ID \<times> ID list) list \<Rightarrow> Topological \<Rightarrow> ID \<Rightarrow> bool" where
  "vote_result ts np ds ts' np' \<longleftrightarrow> evolves ts ds ts' \<and> (ts_lastAcceptedID ts', np') \<in> (pref_edge ts')\<^sup>* \<and>
     np' \<in> insert np (bt.below ts np) \<and>
     (\<forall>y. (np', y) \<in> (pref_edge ts')\<^sup>* \<longrightarrow> pref_child ts' y = pref_child ts y)"

definition apart :: "Topological \<Rightarrow> ID \<Rightarrow> ID \<Rightarrow> bool" where
  "apart ts x y \<longleftrightarrow> insert x (bt.below ts x) \<inter> insert y (bt.below ts y) = {}"

definition vote_ready :: "Topological \<Rightarrow> votes list \<Rightarrow> ID \<Rightarrow> bool \<Rightarrow> bool" where
  "vote_ready ts vs np on \<longleftrightarrow> topo_inv ts \<and>
     (\<forall>v \<in> set vs. bag_wf (votes_votes v) \<and> (\<forall>n. ts_blocks ts (votes_parentID v) = Some n \<longrightarrow> sm_sb n \<noteq> None)) \<and>
     (ts_lastAcceptedID ts, np) \<in> (pref_edge ts)\<^sup>* \<and>
     (vs \<noteq> [] \<longrightarrow> next_vote vs \<in> tree_nodes ts \<longrightarrow>
        successively (\<lambda>a b. b \<in> tree_kids ts a) (map votes_parentID vs) \<and>
        (if on then next_vote vs = np else apart ts (next_vote vs) np))"

lemma pref_path_below:
  assumes "topo_inv ts" "(x, y) \<in> (pref_edge ts)\<^sup>*"
  shows "y = x \<or> y \<in> bt.below ts x" "x \<in> tree_nodes ts \<Longrightarrow> y \<in> tree_nodes ts"
  using bt.path_below [OF assms(2) pref_edge_edge [OF assms(1)]] bt.below_N [of y ts x] by auto

lemma evolves_sb:
  assumes e: "evolves ts ds ts'" "topo_inv ts" and n: "ts_blocks ts' x = Some n'"
  shows "sm_sb n' = None \<longleftrightarrow> tree_kids ts x = {}" "ts_blocks ts x = Some n \<Longrightarrow> sm_sb n = None \<longleftrightarrow> tree_kids ts x = {}"
proof -
  have sb: "sm_sb m = None \<longleftrightarrow> tree_kids t x = {}" if "topo_inv t" "ts_blocks t x = Some m" for t m
    using topo_invD(2) [OF that] that by (simp add: node_ok_def tree_kids_def block_kids_def)
  note inv' = evolvesD(1) [OF e(1)]
  have "x \<in> tree_nodes ts'" using n inv' by (auto simp: tree_nodes_def)
  then show "sm_sb n' = None \<longleftrightarrow> tree_kids ts x = {}" using sb [OF inv' n] evolvesD(6) [OF e(1)] by simp
  show "ts_blocks ts x = Some n \<Longrightarrow> sm_sb n = None \<longleftrightarrow> tree_kids ts x = {}" by (rule sb [OF e(2)])
qed

lemma evolves_chain:
  assumes e: "evolves ts ds ts'" and "successively (\<lambda>a b. b \<in> tree_kids ts a) xs" "xs \<noteq> [] \<Longrightarrow> hd xs \<in> tree_nodes ts'"
  shows "successively (\<lambda>a b. b \<in> tree_kids ts' a) xs"
  using assms(2,3)
proof (induction xs rule: induct_list012)
  case (3 a b xs)
  then have "b \<in> tree_kids ts' a" using evolvesD(6) [OF e] by simp
  with 3 bt.kids [of b ts' a] show ?case by simp
qed simp_all

lemma apart_evolves:
  "evolves ts ds ts' \<Longrightarrow> x \<in> tree_nodes ts' \<Longrightarrow> y \<in> tree_nodes ts' \<Longrightarrow> apart ts x y \<Longrightarrow> apart ts' x y"
  by (simp add: apart_def evolves_nodes(3))

text \<open>After one vote: the new preferred block is on the preferred branch, and the rest of the votes is
  still a branch of the tree, on or apart from the preferred one.\<close>

lemma vote_ready_step:
  assumes r: "vote_ready ts (v # rest) np on" and xN: "votes_parentID v \<in> tree_nodes ts"
    and e: "evolves ts ds ts1" and ds: "ds = [] \<or> (\<exists>rs. ds = [(P, rs)]) \<and> votes_parentID v = ts_lastAcceptedID ts"
    and pc: "pref_child ts1 = (\<lambda>y. if y \<in> tree_nodes ts1 then ((pref_child ts)(votes_parentID v \<mapsto> P)) y else None)"
    and P: "P \<in> tree_kids ts (votes_parentID v)"
  defines "np1 \<equiv> if on then P else np"
  shows "vote_ready ts1 rest np1 (on \<and> next_vote rest = P)" "np1 \<in> insert np (bt.below ts np)"
    "votes_parentID v \<notin> insert np1 (bt.below ts np1)"
proof -
  let ?x = "votes_parentID v" and ?L = "ts_lastAcceptedID ts" and ?L1 = "ts_lastAcceptedID ts1"
  have inv: "topo_inv ts" and Lnp: "(?L, np) \<in> (pref_edge ts)\<^sup>*"
    and chain: "successively (\<lambda>a b. b \<in> tree_kids ts a) (?x # map votes_parentID rest)"
    and np: "on \<longrightarrow> ?x = np" "\<not> on \<longrightarrow> apart ts ?x np"
    using r xN by (auto simp: vote_ready_def next_vote_def split: if_splits)
  note inv1 = evolvesD(1) [OF e]
  have Px: "P \<in> bt.below ts ?x" "?x \<notin> insert P (bt.below ts P)"
    using bt.kid_below [OF P] bt.ht_below [of ?x ts P] bt.kids [OF P] by auto
  show np1: "np1 \<in> insert np (bt.below ts np)" using Px(1) np by (auto simp: np1_def)
  show "?x \<notin> insert np1 (bt.below ts np1)" using Px(2) np by (auto simp: np1_def apart_def)
  have npL: "np = ?L \<or> np \<in> bt.below ts ?L" by (rule pref_path_below(1) [OF inv Lnp])
  have quiet: "ds = []" if "\<not> on" using ds that np npL by (auto simp: apart_def)
  have same: "?L1 = ?L" "tree_nodes ts1 = tree_nodes ts" "pref_child ts1 = (pref_child ts)(?x \<mapsto> P)" if "ds = []"
  proof -
    show L: "?L1 = ?L" using evolvesD(4) [OF e] that by simp
    then show N: "tree_nodes ts1 = tree_nodes ts" using evolvesD(5) [OF e] all_below_root [OF inv] by simp
    show "pref_child ts1 = (pref_child ts)(?x \<mapsto> P)"
      unfolding pc N using pref_child_outside [OF inv] xN by (auto simp: fun_eq_iff)
  qed
  have path: "(?L1, np1) \<in> (pref_edge ts1)\<^sup>*"
  proof (cases "ds = []")
    case True
    have off: "(?x, np) \<notin> (pref_edge ts)\<^sup>*" if "\<not> on"
      using pref_path_below(1) [OF inv, of ?x np] np that by (auto simp: apart_def)
    have "(?L, np) \<in> (pref_edge ts1)\<^sup>*"
      using Lnp by (rule path_update [where x = ?x]) (use np off same(3) [OF True] in \<open>auto split: if_splits\<close>)
    moreover have "(?x, P) \<in> pref_edge ts1" using same(3) [OF True] by simp
    ultimately show ?thesis using np same(1) [OF True] rtrancl.rtrancl_into_rtrancl [of ?L ?x "pref_edge ts1" P]
      by (cases on) (simp_all add: np1_def)
  next
    case False
    then have "?L1 = P" "on" using evolvesD(4) [OF e] ds quiet by auto
    then show ?thesis by (simp add: np1_def)
  qed
  have np1N: "np1 \<in> tree_nodes ts1" using pref_path_below(2) [OF inv1 path] bt.root_N by blast
  have rest_ok: "successively (\<lambda>a b. b \<in> tree_kids ts1 a) (map votes_parentID rest) \<and>
      (if on \<and> next_vote rest = P then next_vote rest = np1 else apart ts1 (next_vote rest) np1)"
    if ne: "rest \<noteq> []" and N1: "next_vote rest \<in> tree_nodes ts1"
  proof -
    from ne obtain w rest' where rest: "rest = w # rest'" by (cases rest) auto
    have w: "next_vote rest \<in> tree_kids ts ?x" using chain by (simp add: rest next_vote_def)
    have "apart ts (next_vote rest) np1" if "\<not> (on \<and> next_vote rest = P)"
    proof (cases on)
      case True
      with that bt.kids_disjoint [OF w P] show ?thesis by (simp add: apart_def np1_def)
    next
      case False
      have "insert (next_vote rest) (bt.below ts (next_vote rest)) \<subseteq> bt.below ts ?x"
        using bt.kid_below [OF w] bt.below_trans by blast
      with False np show ?thesis by (auto simp: apart_def np1_def)
    qed
    moreover have "successively (\<lambda>a b. b \<in> tree_kids ts1 a) (map votes_parentID rest)"
      using N1 chain by (intro evolves_chain [OF e]) (auto simp: rest next_vote_def)
    ultimately show ?thesis using apart_evolves [OF e N1 np1N] by (auto simp: np1_def)
  qed
  have "bag_wf (votes_votes w) \<and> (\<forall>n. ts_blocks ts1 (votes_parentID w) = Some n \<longrightarrow> sm_sb n \<noteq> None)"
    if "w \<in> set rest" for w
  proof -
    have old: "bag_wf (votes_votes w)" "\<And>n. ts_blocks ts (votes_parentID w) = Some n \<Longrightarrow> sm_sb n \<noteq> None"
      using r that by (auto simp: vote_ready_def)
    have "sm_sb n \<noteq> None" if n: "ts_blocks ts1 (votes_parentID w) = Some n" for n
    proof -
      have "votes_parentID w \<in> tree_nodes ts" using n inv1 evolves_nodes(1) [OF e] by (auto simp: tree_nodes_def)
      then obtain m where m: "ts_blocks ts (votes_parentID w) = Some m" using inv by (auto simp: tree_nodes_def)
      from old(2) [OF m] evolves_sb(1) [OF e inv n] evolves_sb(2) [OF e inv n m] show ?thesis by simp
    qed
    with old(1) show ?thesis by blast
  qed
  with inv1 path rest_ok show "vote_ready ts1 rest np1 (on \<and> next_vote rest = P)" by (simp add: vote_ready_def)
qed

lemma vote_result_step:
  assumes inv: "topo_inv ts" and e: "evolves ts ds ts1" and r: "vote_result ts1 np1 es ts' np'"
    and pc: "pref_child ts1 = (\<lambda>y. if y \<in> tree_nodes ts1 then ((pref_child ts)(x \<mapsto> P)) y else None)"
    and np: "np1 \<in> insert np (bt.below ts np)" "x \<notin> insert np1 (bt.below ts np1)" "np1 \<in> tree_nodes ts1"
  shows "vote_result ts np (ds @ es) ts' np'"
proof -
  have e': "evolves ts1 es ts'" and r': "(ts_lastAcceptedID ts', np') \<in> (pref_edge ts')\<^sup>*"
    "np' \<in> insert np1 (bt.below ts1 np1)" "\<And>y. (np', y) \<in> (pref_edge ts')\<^sup>* \<Longrightarrow> pref_child ts' y = pref_child ts1 y"
    using r by (simp_all add: vote_result_def)
  note inv' = evolvesD(1) [OF e'] and all = evolves_trans [OF e e']
  have np'1: "np' \<in> insert np1 (bt.below ts np1)" using r'(2) evolves_nodes(3) [OF e np(3)] by simp
  have np'N: "np' \<in> tree_nodes ts'" using pref_path_below(2) [OF inv' r'(1)] bt.root_N by blast
  have "pref_child ts' y = pref_child ts y" if y: "(np', y) \<in> (pref_edge ts')\<^sup>*" for y
  proof -
    have yN: "y \<in> tree_nodes ts1" using pref_path_below(2) [OF inv' y np'N] evolves_nodes(1) [OF e'] by blast
    have "y = np' \<or> y \<in> bt.below ts np'" using pref_path_below(1) [OF inv' y] evolves_nodes(3) [OF all np'N] by simp
    then have "y \<in> insert np1 (bt.below ts np1)" using np'1 bt.below_trans by blast
    then have "y \<noteq> x" using np(2) by blast
    with yN show ?thesis using r'(3) [OF y] by (simp add: pc)
  qed
  moreover have "np' \<in> insert np (bt.below ts np)" using np'1 np(1) bt.below_trans by blast
  ultimately show ?thesis using all r'(1) by (simp add: vote_result_def)
qed

lemma vote_loop_ok:
  assumes "vm_ok vm" "vote_ready ts vs np on"
  shows "\<exists>ts' np' ds. vote_loop vm vs ts np on = Some (ts', Inr np') \<and> vote_result ts np ds ts' np'"
  using assms(2)
proof (induction vs arbitrary: ts np on)
  case Nil
  have inv: "topo_inv ts" and path: "(ts_lastAcceptedID ts, np) \<in> (pref_edge ts)\<^sup>*" using Nil by (simp_all add: vote_ready_def)
  have "vote_result ts np [] ts np" using path evolves_refl [OF inv] by (simp add: vote_result_def)
  then show ?case by auto
next
  case (Cons v rest)
  have inv: "topo_inv ts" and path: "(ts_lastAcceptedID ts, np) \<in> (pref_edge ts)\<^sup>*" using Cons.prems by (simp_all add: vote_ready_def)
  show ?case
  proof (cases "ts_blocks ts (votes_parentID v)")
    case None
    have "vote_result ts np [] ts np" using path evolves_refl [OF inv] by (simp add: vote_result_def)
    then show ?thesis using None by auto
  next
    case (Some n)
    then obtain sb where sb: "sm_sb n = Some sb" using Cons.prems by (auto simp: vote_ready_def)
    have V: "bag_wf (votes_votes v)" using Cons.prems by (simp add: vote_ready_def)
    have xN: "votes_parentID v \<in> tree_nodes ts" using Some inv by (auto simp: tree_nodes_def)
    define P where "P = Tree_Preference (voted n sb (votes_votes v))"
    obtain ts1 ds where s:
      "vote_loop vm (v # rest) ts np on = vote_loop vm rest ts1 (if on then P else np) (on \<and> next_vote rest = P)"
      "evolves ts ds ts1" "ds = [] \<or> (\<exists>rs. ds = [(P, rs)]) \<and> votes_parentID v = ts_lastAcceptedID ts"
      "pref_child ts1 = (\<lambda>y. if y \<in> tree_nodes ts1 then ((pref_child ts)(votes_parentID v \<mapsto> P)) y else None)"
      "P \<in> tree_kids ts (votes_parentID v)" by (rule vote_step_ok [OF inv assms(1) V Some sb, folded P_def])
    note ready = vote_ready_step [OF Cons.prems xN s(2-5)]
    from Cons.IH [OF ready(1)] obtain ts' np' es where IH:
      "vote_loop vm rest ts1 (if on then P else np) (on \<and> next_vote rest = P) = Some (ts', Inr np')"
      "vote_result ts1 (if on then P else np) es ts' np'" by blast
    have "(if on then P else np) \<in> tree_nodes ts1"
      using ready(1) pref_path_below(2) bt.root_N unfolding vote_ready_def by blast
    from vote_result_step [OF inv s(2) IH(2) s(4) ready(2,3) this] IH(1) s(1) show ?thesis by auto
  qed
qed

end
