(* ===== verification/Topological_Chain.thy ===== *)
theory Topological_Chain
  imports Topological_Vote
begin

text \<open>
  The preferred chain and the whole of \<open>RecordPoll\<close>: the preferred blocks the state keeps are exactly the
  path that follows the preferences from the last accepted block, and a poll ends without a panic
  in a state that satisfies the invariant again.
\<close>

section \<open>The fields the tree depends on\<close>

definition tree_part :: "Topological \<Rightarrow> (ID \<rightharpoonup> snowmanBlock) \<times> ID \<times> nat \<times> Parameters" where
  "tree_part ts = (ts_blocks ts, ts_lastAcceptedID ts, ts_lastAcceptedHeight ts, ts_params ts)"

lemma tree_part_eqs:
  assumes "tree_part ts' = tree_part ts"
  shows "ts_blocks ts' = ts_blocks ts" "ts_lastAcceptedID ts' = ts_lastAcceptedID ts"
    "ts_lastAcceptedHeight ts' = ts_lastAcceptedHeight ts" "ts_params ts' = ts_params ts"
    "height_of ts' = height_of ts" "topo_inv ts' = topo_inv ts" "tree_nodes ts' = tree_nodes ts"
    "tree_kids ts' = tree_kids ts" "bt.below ts' = bt.below ts" "pref_child ts' = pref_child ts"
    "pref_edge ts' = pref_edge ts" "ts_Decided ts' = ts_Decided ts"
proof -
  show b: "ts_blocks ts' = ts_blocks ts" "ts_lastAcceptedID ts' = ts_lastAcceptedID ts"
    "ts_lastAcceptedHeight ts' = ts_lastAcceptedHeight ts" "ts_params ts' = ts_params ts"
    using assms by (simp_all add: tree_part_def)
  show h: "height_of ts' = height_of ts" by (simp add: height_of_def b fun_eq_iff)
  show i: "topo_inv ts' = topo_inv ts" by (simp add: topo_inv_def node_ok_def linked_def b h)
  show "tree_nodes ts' = tree_nodes ts" by (simp add: tree_nodes_def i b)
  show k: "tree_kids ts' = tree_kids ts" by (simp add: tree_kids_def block_kids_def i b fun_eq_iff)
  show "bt.below ts' = bt.below ts" by (simp add: bt.below_def bt.edge_def k fun_eq_iff)
  show "pref_child ts' = pref_child ts" by (simp add: pref_child_def b fun_eq_iff)
  then show "pref_edge ts' = pref_edge ts" by (simp add: pref_edge_def)
  show "ts_Decided ts' = ts_Decided ts" by (simp add: ts_Decided_def b fun_eq_iff)
qed

definition set_pref :: "Topological \<Rightarrow> ID set \<Rightarrow> (nat \<rightharpoonup> ID) \<Rightarrow> ID \<Rightarrow> Topological" where
  "set_pref ts ids hs p = ts\<lparr>ts_preferredIDs := ids, ts_preferredHeights := hs, ts_preference := p\<rparr>"

lemma set_pref_part [simp]: "tree_part (set_pref ts ids hs p) = tree_part ts"
  by (simp add: tree_part_def set_pref_def)

lemmas set_pref_eqs [simp] = tree_part_eqs [OF set_pref_part]

lemma set_pref_simps [simp]:
  "ts_preferredIDs (set_pref ts ids hs p) = ids" "ts_preferredHeights (set_pref ts ids hs p) = hs"
  "ts_preference (set_pref ts ids hs p) = p" "ts_calls (set_pref ts ids hs p) = ts_calls ts"
  "(set_pref ts ids hs p)\<lparr>ts_preferredIDs := ids'\<rparr> = set_pref ts ids' hs p"
  "(set_pref ts ids hs p)\<lparr>ts_preferredHeights := hs'\<rparr> = set_pref ts ids hs' p"
  "(set_pref ts ids hs p)\<lparr>ts_preference := p'\<rparr> = set_pref ts ids hs p'"
  by (simp_all add: set_pref_def)

section \<open>The preferred chain\<close>

definition heights_exact :: "Topological \<Rightarrow> ID set \<Rightarrow> (nat \<rightharpoonup> ID) \<Rightarrow> bool" where
  "heights_exact ts ids hs \<longleftrightarrow> (\<forall>h z. hs h = Some z \<longleftrightarrow> z \<in> ids \<and> height_of ts z = h)"

definition pref_inv :: "Topological \<Rightarrow> bool" where
  "pref_inv ts \<longleftrightarrow> ts_preferredIDs ts = {y. (ts_lastAcceptedID ts, y) \<in> (pref_edge ts)\<^sup>+} \<and>
     (ts_lastAcceptedID ts, ts_preference ts) \<in> (pref_edge ts)\<^sup>* \<and> pref_child ts (ts_preference ts) = None \<and>
     heights_exact ts (ts_preferredIDs ts) (ts_preferredHeights ts)"

lemma pref_inv_cong:
  assumes "tree_part ts' = tree_part ts" "ts_preferredIDs ts' = ts_preferredIDs ts"
    "ts_preferredHeights ts' = ts_preferredHeights ts" "ts_preference ts' = ts_preference ts"
  shows "pref_inv ts' = pref_inv ts"
  unfolding pref_inv_def heights_exact_def tree_part_eqs [OF assms(1)] assms(2-4) ..

lemma heights_exact_insert:
  assumes "heights_exact ts ids hs" "\<And>z. z \<in> ids \<Longrightarrow> height_of ts z \<noteq> height_of ts y"
  shows "heights_exact ts (insert y ids) (hs(height_of ts y \<mapsto> y))"
  unfolding heights_exact_def
proof (intro allI)
  fix h z
  show "(hs(height_of ts y \<mapsto> y)) h = Some z \<longleftrightarrow> z \<in> insert y ids \<and> height_of ts z = h"
    using assms(1) assms(2) [of z] by (auto simp: heights_exact_def)
qed

lemma pref_single: "single_valued (pref_edge ts)"
  by (auto simp: single_valued_def)

lemma pref_trancl_below: "topo_inv ts \<Longrightarrow> (x, y) \<in> (pref_edge ts)\<^sup>+ \<Longrightarrow> y \<in> bt.below ts x"
  using trancl_mono [OF _ pref_edge_edge] by (auto simp: bt.below_def)

text \<open>The ancestors of a block above the last accepted block.\<close>

definition anc :: "Topological \<Rightarrow> ID \<Rightarrow> ID set" where
  "anc ts x = {y \<in> bt.below ts (ts_lastAcceptedID ts). x = y \<or> x \<in> bt.below ts y}"

lemma anc_root [simp]: "anc ts (ts_lastAcceptedID ts) = {}"
  using bt.root_not_below [of ts] by (auto simp: anc_def)

lemma anc_kid:
  assumes "c \<in> tree_kids ts p"
  shows "anc ts c = insert c (anc ts p)"
proof -
  have "c \<in> bt.below ts y \<longleftrightarrow> p = y \<or> p \<in> bt.below ts y" for y
    using assms bt.one_parent [OF assms] bt.below_parent [of c ts y] by blast
  moreover have "c \<in> bt.below ts (ts_lastAcceptedID ts)" using bt.kids [OF assms] bt.below_root by blast
  ultimately show ?thesis by (auto simp: anc_def)
qed

lemma markPreferredAncestors_ok:
  assumes inv: "topo_inv ts"
  shows "x \<in> tree_nodes ts \<Longrightarrow> heights_exact ts ids hs \<Longrightarrow> (\<And>z. z \<in> ids \<Longrightarrow> height_of ts x < height_of ts z) \<Longrightarrow>
    \<exists>hs'. markPreferredAncestors (set_pref ts ids hs p) x = Some (set_pref ts (ids \<union> anc ts x) hs' p) \<and>
      heights_exact ts (ids \<union> anc ts x) hs'"
proof (induction "height_of ts x" arbitrary: x ids hs rule: less_induct)
  case less
  from less.prems(1) inv obtain n where n: "ts_blocks ts x = Some n" by (auto simp: tree_nodes_def)
  show ?case
  proof (cases "x = ts_lastAcceptedID ts")
    case True
    then have "ts_Decided ts n" using decided_iff [OF inv n] by simp
    then have "markPreferredAncestors (set_pref ts ids hs p) x = Some (set_pref ts ids hs p)"
      using n by (subst markPreferredAncestors.simps) simp
    then show ?thesis using True less.prems(2) by auto
  next
    case False
    then have live: "\<not> ts_Decided ts n" using decided_iff [OF inv n] by simp
    from block_parent [OF inv n live] obtain b m where b: "sm_blk n = Some b" "block_ID b = x"
      "ts_blocks ts (block_Parent b) = Some m" "(x, b) \<in> set (sm_children m)"
      "height_of ts x = Suc (height_of ts (block_Parent b))" by metis
    have h: "block_Height b = height_of ts x" using False n b(1) by (simp add: height_of_def)
    have kid: "x \<in> tree_kids ts (block_Parent b)" using tree_kids_I [OF inv b(3,4)] .
    have "\<exists>hs'. markPreferredAncestors (set_pref ts (insert x ids) (hs(height_of ts x \<mapsto> x)) p) (block_Parent b) =
        Some (set_pref ts (insert x ids \<union> anc ts (block_Parent b)) hs' p) \<and>
        heights_exact ts (insert x ids \<union> anc ts (block_Parent b)) hs'"
    proof (rule less.hyps)
      show "height_of ts (block_Parent b) < height_of ts x" using b(5) by simp
      show "block_Parent b \<in> tree_nodes ts" using bt.kids [OF kid] by simp
      show "heights_exact ts (insert x ids) (hs(height_of ts x \<mapsto> x))"
        using less.prems(3) by (intro heights_exact_insert [OF less.prems(2)]) fastforce
      show "height_of ts (block_Parent b) < height_of ts z" if "z \<in> insert x ids" for z
        using that less.prems(3) [of z] b(5) by auto
    qed
    moreover have "markPreferredAncestors (set_pref ts ids hs p) x =
        markPreferredAncestors (set_pref ts (insert x ids) (hs(height_of ts x \<mapsto> x)) p) (block_Parent b)"
      using n b live h by (subst markPreferredAncestors.simps) (simp add: Let_def)
    moreover have "insert x ids \<union> anc ts (block_Parent b) = ids \<union> anc ts x" using anc_kid [OF kid] by auto
    ultimately show ?thesis by simp
  qed
qed

lemma followPreferences_ok:
  assumes inv: "topo_inv ts"
  shows "x \<in> tree_nodes ts \<Longrightarrow> heights_exact ts ids hs \<Longrightarrow> (\<And>z. z \<in> ids \<Longrightarrow> height_of ts z \<le> height_of ts x) \<Longrightarrow>
    \<exists>hs' q. followPreferences (set_pref ts ids hs x) x =
        Some (set_pref ts (ids \<union> {y. (x, y) \<in> (pref_edge ts)\<^sup>+}) hs' q) \<and>
      heights_exact ts (ids \<union> {y. (x, y) \<in> (pref_edge ts)\<^sup>+}) hs' \<and>
      (x, q) \<in> (pref_edge ts)\<^sup>* \<and> pref_child ts q = None"
proof (induction "card (bt.below ts x)" arbitrary: x ids hs rule: less_induct)
  case less
  from less.prems(1) inv obtain n where n: "ts_blocks ts x = Some n" by (auto simp: tree_nodes_def)
  show ?case
  proof (cases "sm_sb n")
    case None
    then have tip: "pref_child ts x = None" using n by (simp add: pref_child_def)
    then have "{y. (x, y) \<in> (pref_edge ts)\<^sup>+} = {}" by (auto elim: converse_tranclE)
    moreover have "followPreferences (set_pref ts ids hs x) x = Some (set_pref ts ids hs x)"
      using n None by (subst followPreferences.simps) simp
    ultimately show ?thesis using less.prems(2) tip by auto
  next
    case (Some sb)
    let ?P = "Tree_Preference sb"
    have kid: "?P \<in> tree_kids ts x" by (rule node_preference(1) [OF inv n Some])
    then have P: "?P \<in> tree_nodes ts" "?P \<noteq> ts_lastAcceptedID ts" "height_of ts ?P = Suc (height_of ts x)"
      using bt.kids [OF kid] by simp_all
    from P(1) inv obtain m where m: "ts_blocks ts ?P = Some m" by (auto simp: tree_nodes_def)
    from topo_invD(3) [OF inv m P(2)] obtain b where b: "sm_blk m = Some b" by (auto simp: linked_def)
    have h: "block_Height b = height_of ts ?P" using P(2) m b by (simp add: height_of_def)
    have pc: "pref_child ts x = Some ?P" using n Some by (simp add: pref_child_def)
    have "bt.below ts ?P \<subset> bt.below ts x"
      using bt.kid_below [OF kid] bt.below_trans bt.below_irrefl [of ?P ts] by blast
    then have smaller: "card (bt.below ts ?P) < card (bt.below ts x)" by (simp add: psubset_card_mono)
    have "\<exists>hs' q. followPreferences (set_pref ts (insert ?P ids) (hs(height_of ts ?P \<mapsto> ?P)) ?P) ?P =
        Some (set_pref ts (insert ?P ids \<union> {y. (?P, y) \<in> (pref_edge ts)\<^sup>+}) hs' q) \<and>
        heights_exact ts (insert ?P ids \<union> {y. (?P, y) \<in> (pref_edge ts)\<^sup>+}) hs' \<and>
        (?P, q) \<in> (pref_edge ts)\<^sup>* \<and> pref_child ts q = None"
    proof (rule less.hyps [OF smaller P(1)])
      show "heights_exact ts (insert ?P ids) (hs(height_of ts ?P \<mapsto> ?P))"
        using less.prems(3) P(3) by (intro heights_exact_insert [OF less.prems(2)]) fastforce
      show "height_of ts z \<le> height_of ts ?P" if "z \<in> insert ?P ids" for z
        using that less.prems(3) [of z] P(3) by auto
    qed
    moreover have "followPreferences (set_pref ts ids hs x) x =
        followPreferences (set_pref ts (insert ?P ids) (hs(height_of ts ?P \<mapsto> ?P)) ?P) ?P"
      using n Some m b h by (subst followPreferences.simps) (simp add: Let_def)
    moreover have "insert ?P ids \<union> {y. (?P, y) \<in> (pref_edge ts)\<^sup>+} = ids \<union> {y. (x, y) \<in> (pref_edge ts)\<^sup>+}"
      using pc by (auto elim: converse_tranclE intro: trancl_into_trancl2)
    moreover have "(?P, q) \<in> (pref_edge ts)\<^sup>* \<Longrightarrow> (x, q) \<in> (pref_edge ts)\<^sup>*" for q
      using pc by (auto intro: converse_rtrancl_into_rtrancl)
    ultimately show ?thesis by auto
  qed
qed

lemma preferred_path:
  assumes inv: "topo_inv ts" and path: "(ts_lastAcceptedID ts, np) \<in> (pref_edge ts)\<^sup>*"
  shows "anc ts np \<union> {y. (np, y) \<in> (pref_edge ts)\<^sup>+} = {y. (ts_lastAcceptedID ts, y) \<in> (pref_edge ts)\<^sup>+}"
proof -
  let ?L = "ts_lastAcceptedID ts" and ?R = "pref_edge ts"
  have "(?L, y) \<in> ?R\<^sup>+" if y: "y \<in> anc ts np" for y
  proof -
    have "(?L, y) \<in> ?R\<^sup>*" "y \<noteq> ?L"
      using y bt.path_covers [OF path pref_edge_edge [OF inv], of y] by (auto simp: anc_def)
    then show ?thesis by (metis rtranclD)
  qed
  moreover have "(?L, y) \<in> ?R\<^sup>+" if "(np, y) \<in> ?R\<^sup>+" for y using path that by (rule rtrancl_trancl_trancl)
  moreover have "y \<in> anc ts np \<or> (np, y) \<in> ?R\<^sup>+" if y: "(?L, y) \<in> ?R\<^sup>+" for y
  proof -
    have below: "y \<in> bt.below ts ?L" by (rule pref_trancl_below [OF inv y])
    from single_valued_confluent [OF pref_single trancl_into_rtrancl [OF y] path] show ?thesis
    proof
      assume "(y, np) \<in> ?R\<^sup>*"
      from pref_path_below(1) [OF inv this] below show ?thesis by (auto simp: anc_def)
    next
      assume "(np, y) \<in> ?R\<^sup>*"
      then show ?thesis using below by (metis (mono_tags, lifting) CollectI anc_def rtranclD)
    qed
  qed
  ultimately show ?thesis by blast
qed

lemma updatePreference_recompute:
  assumes inv: "topo_inv ts" and path: "(ts_lastAcceptedID ts, np) \<in> (pref_edge ts)\<^sup>*"
    and new: "np \<notin> ts_preferredIDs ts"
  obtains ids hs p where "updatePreference ts np = Some (set_pref ts ids hs p)" "pref_inv (set_pref ts ids hs p)"
proof -
  let ?L = "ts_lastAcceptedID ts" and ?R = "pref_edge ts"
  have npN: "np \<in> tree_nodes ts" using pref_path_below(2) [OF inv path] bt.root_N by blast
  have empty: "heights_exact ts {} Map.empty" by (simp add: heights_exact_def)
  from markPreferredAncestors_ok [OF inv npN empty, of np] obtain hs1 where m:
    "markPreferredAncestors (set_pref ts {} Map.empty np) np = Some (set_pref ts (anc ts np) hs1 np)"
    "heights_exact ts (anc ts np) hs1" by auto
  have "height_of ts z \<le> height_of ts np" if "z \<in> anc ts np" for z
    using that bt.ht_below [of np ts z] by (auto simp: anc_def)
  from followPreferences_ok [OF inv npN m(2) this] preferred_path [OF inv path] obtain hs q where f:
    "followPreferences (set_pref ts (anc ts np) hs1 np) np = Some (set_pref ts {y. (?L, y) \<in> ?R\<^sup>+} hs q)"
    "heights_exact ts {y. (?L, y) \<in> ?R\<^sup>+} hs" "(np, q) \<in> ?R\<^sup>*" "pref_child ts q = None" by auto
  have "updatePreference ts np = Some (set_pref ts {y. (?L, y) \<in> ?R\<^sup>+} hs q)"
    using new m(1) f(1) by (simp add: updatePreference_def set_pref_def [symmetric])
  moreover have "pref_inv (set_pref ts {y. (?L, y) \<in> ?R\<^sup>+} hs q)"
    using f(2-4) path by (simp add: pref_inv_def heights_exact_def)
  ultimately show thesis by (rule that)
qed

section \<open>The preferred chain after a round of voting\<close>

lemma rtrancl_agree:
  assumes "\<And>y z. (a, y) \<in> S\<^sup>* \<Longrightarrow> (y, z) \<in> S \<longleftrightarrow> (y, z) \<in> R"
  shows "(a, y) \<in> S\<^sup>* \<longleftrightarrow> (a, y) \<in> R\<^sup>*" "(a, y) \<in> S\<^sup>+ \<longleftrightarrow> (a, y) \<in> R\<^sup>+"
proof -
  have 1: "(a, y) \<in> R\<^sup>*" if "(a, y) \<in> S\<^sup>*" for y
    using that by (induction rule: rtrancl_induct) (auto simp: assms intro: rtrancl.rtrancl_into_rtrancl)
  have 2: "(a, y) \<in> S\<^sup>*" if "(a, y) \<in> R\<^sup>*" for y
    using that by (induction rule: rtrancl_induct) (auto simp: assms [symmetric] intro: rtrancl.rtrancl_into_rtrancl)
  show "(a, y) \<in> S\<^sup>* \<longleftrightarrow> (a, y) \<in> R\<^sup>*" using 1 2 by blast
  show "(a, y) \<in> S\<^sup>+ \<longleftrightarrow> (a, y) \<in> R\<^sup>+" unfolding trancl_unfold_right relcomp_unfold using 1 2 assms by blast
qed

lemma anc_evolves:
  assumes e: "evolves ts ds ts'" and np: "np \<in> bt.below ts (ts_lastAcceptedID ts')"
  shows "anc ts np - set (map fst ds) = anc ts' np"
proof -
  let ?L = "ts_lastAcceptedID ts" and ?L' = "ts_lastAcceptedID ts'"
  have N: "tree_nodes ts' = insert ?L' (bt.below ts ?L')" by (rule evolvesD(5) [OF e])
  have below: "bt.below ts' y = bt.below ts y" if "y = ?L' \<or> y \<in> bt.below ts ?L'" for y
    using evolves_nodes(3) [OF e, of y] that N by blast
  have A: "y \<in> set (map fst ds) \<longleftrightarrow> y \<in> bt.below ts ?L \<and> (?L' = y \<or> ?L' \<in> bt.below ts y)" for y
    by (rule evolves_accepted(1) [OF e])
  have "y \<in> bt.below ts ?L'" if "y \<in> anc ts np" "y \<notin> set (map fst ds)" for y
    using that A [of y] bt.ancestors_chain [of np ts ?L' y] np by (auto simp: anc_def)
  moreover have "y \<in> bt.below ts ?L \<and> y \<notin> set (map fst ds)" if "y \<in> bt.below ts ?L'" for y
  proof -
    have "y \<in> bt.below ts ?L" using that evolves_nodes(4) [OF e] by (auto intro: bt.below_trans)
    moreover have "?L' \<noteq> y" "?L' \<notin> bt.below ts y" using bt.ht_below [OF that] bt.ht_below [of ?L' ts y] by auto
    ultimately show ?thesis using A by blast
  qed
  ultimately show ?thesis using below by (auto simp: anc_def)
qed

lemma pref_inv_keep:
  assumes inv: "topo_inv ts" and pref: "pref_inv ts" and r: "vote_result ts np ds ts' np'"
    and kept: "np' \<in> ts_preferredIDs ts'"
  shows "pref_inv ts'"
proof -
  let ?L = "ts_lastAcceptedID ts" and ?L' = "ts_lastAcceptedID ts'"
  let ?R = "pref_edge ts" and ?R' = "pref_edge ts'" and ?A = "set (map fst ds)"
  have e: "evolves ts ds ts'" and path': "(?L', np') \<in> ?R'\<^sup>*"
    and same: "\<And>y. (np', y) \<in> ?R'\<^sup>* \<Longrightarrow> pref_child ts' y = pref_child ts y" using r by (simp_all add: vote_result_def)
  note d = evolvesD [OF e]
  have agree: "(np', y) \<in> ?R'\<^sup>* \<longleftrightarrow> (np', y) \<in> ?R\<^sup>*" "(np', y) \<in> ?R'\<^sup>+ \<longleftrightarrow> (np', y) \<in> ?R\<^sup>+" for y
    by (rule rtrancl_agree; simp add: same)+
  have old: "(?L, np') \<in> ?R\<^sup>+" "np' \<notin> ?A" using kept pref d(12) by (auto simp: pref_inv_def)
  have "np' \<noteq> ?L" using pref_trancl_below [OF inv old(1)] by auto
  then have "np' \<noteq> ?L'" using old(2) d(4) last_in_set [of "map fst ds"] by (auto split: if_splits)
  then have below: "np' \<in> bt.below ts ?L'"
    using pref_path_below(1) [OF d(1) path'] evolves_nodes(3) [OF e bt.root_N] by auto
  have "y \<notin> ?A" if "(np', y) \<in> ?R\<^sup>+" for y
  proof
    assume y: "y \<in> ?A"
    have "y \<in> bt.below ts ?L'" using pref_trancl_below [OF inv that] below bt.below_trans by blast
    with evolves_accepted(2) [OF e y] show False unfolding d(5) by auto
  qed
  then have ids: "ts_preferredIDs ts' = {y. (?L', y) \<in> ?R'\<^sup>+}"
    unfolding d(12) preferred_path [OF d(1) path', symmetric] anc_evolves [OF e below, symmetric]
    using pref preferred_path [OF inv trancl_into_rtrancl [OF old(1)]] by (auto simp: pref_inv_def agree(2))
  have tip: "(?L, ts_preference ts) \<in> ?R\<^sup>*" "pref_child ts (ts_preference ts) = None" using pref by (simp_all add: pref_inv_def)
  have "(np', ts_preference ts) \<in> ?R\<^sup>*"
    using single_valued_confluent [OF pref_single tip(1) trancl_into_rtrancl [OF old(1)]] tip(2)
    by (auto elim: converse_rtranclE)
  then have tip': "(np', ts_preference ts) \<in> ?R'\<^sup>*" using agree(1) by blast
  have "heights_exact ts' (ts_preferredIDs ts') (ts_preferredHeights ts')"
    unfolding heights_exact_def
  proof (intro allI iffI)
    fix h z
    have hs: "ts_preferredHeights ts h = Some z \<longleftrightarrow> z \<in> ts_preferredIDs ts \<and> height_of ts z = h"
      using pref by (simp add: pref_inv_def heights_exact_def)
    have zN: "z \<in> tree_nodes ts'" if "z \<in> ts_preferredIDs ts'"
      using that bt.below_N pref_trancl_below [OF d(1)] unfolding ids by blast
    show "z \<in> ts_preferredIDs ts' \<and> height_of ts' z = h" if "ts_preferredHeights ts' h = Some z"
    proof -
      have "h \<notin> height_of ts ` ?A" "ts_preferredHeights ts h = Some z" using that d(13) by (auto split: if_splits)
      then have "z \<in> ts_preferredIDs ts'" "height_of ts z = h" using hs d(12) by auto
      then show ?thesis using d(7) zN by simp
    qed
    show "ts_preferredHeights ts' h = Some z" if "z \<in> ts_preferredIDs ts' \<and> height_of ts' z = h"
    proof -
      have z: "z \<in> ts_preferredIDs ts" "height_of ts z = h" using that zN d(7,12) by auto
      have z': "z \<in> bt.below ts' ?L'" using that pref_trancl_below [OF d(1)] unfolding ids by blast
      have "height_of ts a < height_of ts z" if "a \<in> ?A" for a
      proof -
        have "z \<in> bt.below ts ?L'" using z' evolves_nodes(3) [OF e bt.root_N] by simp
        then have "z \<in> bt.below ts a" using that evolves_accepted(1) [OF e, of a] by (auto intro: bt.below_trans)
        then show ?thesis by (rule bt.ht_below)
      qed
      then have "h \<notin> height_of ts ` ?A" using z(2) by fastforce
      then show ?thesis using z hs d(13) by simp
    qed
  qed
  moreover have "pref_child ts' (ts_preference ts') = None" using same [OF tip'] tip(2) d(11) by simp
  moreover have "(?L', ts_preference ts') \<in> ?R'\<^sup>*" using path' tip' d(11) by simp
  ultimately show ?thesis using ids by (simp add: pref_inv_def)
qed

section \<open>Recording a poll\<close>

text \<open>What a poll promises of the tree and of the calls into the virtual machine, without the
  bookkeeping of the preferences.\<close>

definition decides :: "Topological \<Rightarrow> (ID \<times> ID list) list \<Rightarrow> Topological \<Rightarrow> bool" where
  "decides ts ds ts' \<longleftrightarrow>
     ts_params ts' = ts_params ts \<and>
     successively (\<lambda>a b. b \<in> tree_kids ts a) (ts_lastAcceptedID ts # map fst ds) \<and>
     ts_lastAcceptedID ts' = last (ts_lastAcceptedID ts # map fst ds) \<and>
     ts_lastAcceptedHeight ts' = ts_lastAcceptedHeight ts + length ds \<and>
     tree_nodes ts' = insert (ts_lastAcceptedID ts') (bt.below ts (ts_lastAcceptedID ts')) \<and>
     (\<forall>x \<in> tree_nodes ts'. tree_kids ts' x = tree_kids ts x \<and> height_of ts' x = height_of ts x) \<and>
     ts_calls ts' = ts_calls ts @ decision_calls ds \<and>
     distinct (rejected_blocks ds) \<and>
     set (rejected_blocks ds) = tree_nodes ts - (tree_nodes ts' \<union> insert (ts_lastAcceptedID ts) (set (map fst ds)))"

lemma chain_height:
  "successively (\<lambda>a b. b \<in> tree_kids ts a) (a # xs) \<Longrightarrow> height_of ts (last (a # xs)) = height_of ts a + length xs"
proof (induction xs arbitrary: a)
  case (Cons b xs)
  then have "height_of ts b = Suc (height_of ts a)" using bt.kids [of b ts a] by simp
  with Cons show ?case by simp
qed simp

lemma evolves_decides:
  assumes e: "evolves ts ds ts'" and p: "tree_part ts0 = tree_part ts" "ts_calls ts0 = ts_calls ts"
    "tree_part ts1 = tree_part ts'" "ts_calls ts1 = ts_calls ts'"
  shows "decides ts0 ds ts1"
proof -
  note d = evolvesD [OF e]
  have root: "height_of t (ts_lastAcceptedID t) = ts_lastAcceptedHeight t" for t by (simp add: height_of_def)
  have "ts_lastAcceptedHeight ts' = ts_lastAcceptedHeight ts + length ds"
    using chain_height [OF d(3)] root [of ts] root [of ts'] d(7) [OF bt.root_N] d(4) by (metis length_map)
  with d show ?thesis unfolding decides_def tree_part_eqs [OF p(1)] tree_part_eqs [OF p(3)] p(2,4) by blast
qed

lemma collect_ready:
  assumes inv: "topo_inv ts" and pop: "pop_ok pop" and wf: "bag_wf V" and p: "params_valid (ts_params ts)"
    and len: "Bag_Len V \<le> K (ts_params ts)"
  obtains k l st where "(do { ts \<leftarrow> calculateInDegree ts V; pushVotes pop ts }) = Some (kahn_update ts k l, st)"
    "stack_exact ts (Bag_Count V) UNIV st" "vote_chain ts (rev st)" "vote_ready ts (rev st) (ts_lastAcceptedID ts) True"
proof -
  have maj: "0 < AlphaPreference (ts_params ts)" "K (ts_params ts) < 2 * AlphaPreference (ts_params ts)"
    using params_valid_majority [OF p] p by (auto simp: params_valid_def)
  from collectVotes_correct [OF inv pop wf maj(1)] obtain k l st where
    c: "(do { ts \<leftarrow> calculateInDegree ts V; pushVotes pop ts }) = Some (kahn_update ts k l, st)"
    and st: "stack_exact ts (Bag_Count V) UNIV st" by blast
  from collectVotes_returns [OF inv pop, of V] c have ok: "\<forall>v \<in> set st. vote_ok ts v" by auto
  have w: "0 \<le> Bag_Count V y" for y by (rule bag_wf_Count_nonneg [OF wf])
  have "(\<Sum>y \<in> tree_nodes ts. Bag_Count V y) \<le> (\<Sum>y \<in> UNIV. Bag_Count V y)" using w by (intro sum_mono2) auto
  also have "\<dots> = Bag_Len V" using Bag_Len_sum [OF wf, of UNIV] by simp
  finally have chain: "vote_chain ts (rev st)" using len maj by (intro stack_branch [OF st w maj(1)]) simp
  then have "vote_ready ts (rev st) (ts_lastAcceptedID ts) True"
    using inv ok by (cases "rev st") (fastforce simp: vote_ready_def vote_ok_def vote_chain_def next_vote_def)+
  with c st chain show thesis by (rule that)
qed

lemma Topological_vote_ok:
  assumes vm: "vm_ok vm" and pref: "pref_inv ts" and r: "vote_ready ts (rev st) (ts_lastAcceptedID ts) True"
  obtains ts' np ds np' where "Topological_vote vm ts st = Some (ts', Inr np')" "vote_result ts np ds ts' np'"
proof (cases "st = []")
  case True
  have inv: "topo_inv ts" using r by (simp add: vote_ready_def)
  then obtain n where n: "ts_blocks ts (ts_lastAcceptedID ts) = Some n" using topo_invD(1) by blast
  define ts' where "ts' = set_blocks ts ((ts_blocks ts)(ts_lastAcceptedID ts \<mapsto> n\<lparr>sm_shouldFalter := True\<rparr>))"
  note f = falter_block [OF inv n, folded ts'_def]
  have "evolves ts [] ts'" using f(1) unfolding ts'_def by (rule evolves_shape [OF inv])
  then have "vote_result ts (ts_preference ts) [] ts' (ts_preference ts)"
    using pref f(2) by (simp add: vote_result_def pref_inv_def pref_edge_def ts'_def)
  moreover have "Topological_vote vm ts st = Some (ts', Inr (ts_preference ts))"
    using True n by (simp add: Topological_vote_def ts'_def set_blocks_def)
  ultimately show thesis by (intro that)
next
  case False
  with vote_loop_ok [OF vm r] that show thesis by (auto simp: Topological_vote_def)
qed

lemma updatePreference_ok:
  assumes inv: "topo_inv ts" and pref: "pref_inv ts" and r: "vote_result ts np ds ts' np'"
  obtains ts'' where "updatePreference ts' np' = Some ts''" "tree_part ts'' = tree_part ts'"
    "ts_calls ts'' = ts_calls ts'" "pref_inv ts''"
proof (cases "np' \<in> ts_preferredIDs ts'")
  case True
  show thesis by (rule that [of ts']) (use True pref_inv_keep [OF inv pref r True] in \<open>simp_all add: updatePreference_def\<close>)
next
  case False
  have inv': "topo_inv ts'" and path: "(ts_lastAcceptedID ts', np') \<in> (pref_edge ts')\<^sup>*"
    using r evolvesD(1) by (auto simp: vote_result_def)
  from updatePreference_recompute [OF inv' path False] obtain ids hs p where
    u: "updatePreference ts' np' = Some (set_pref ts' ids hs p)" "pref_inv (set_pref ts' ids hs p)" .
  show thesis by (rule that [OF u(1)]) (simp_all add: u(2))
qed

lemma RecordPoll_ok:
  assumes inv: "topo_inv ts" "pref_inv ts" and vm: "vm_ok vm" and pop: "pop_ok pop" and wf: "bag_wf V"
    and p: "params_valid (ts_params ts)" and len: "Bag_Len V \<le> K (ts_params ts)"
  obtains ts' ds where "Topological_RecordPoll pop vm ts V = Some (ts', None)" "topo_inv ts'" "pref_inv ts'"
    "decides ts ds ts'"
proof -
  define ts0 where "ts0 = ts\<lparr>ts_pollNumber := ts_pollNumber ts + 1\<rparr>"
  have part0: "tree_part ts0 = tree_part ts" by (simp add: ts0_def tree_part_def)
  note eq0 = tree_part_eqs [OF part0]
  have inv0: "topo_inv ts0" "pref_inv ts0"
    using inv eq0(6) pref_inv_cong [OF part0] by (simp_all add: ts0_def)
  obtain ts1 st where c: "(if Bag_Len V \<ge> AlphaPreference (ts_params ts0)
      then do { ts \<leftarrow> calculateInDegree ts0 V; pushVotes pop ts } else Some (ts0, [])) = Some (ts1, st)"
    "tree_part ts1 = tree_part ts" "ts_calls ts1 = ts_calls ts" "topo_inv ts1" "pref_inv ts1"
    "vote_ready ts1 (rev st) (ts_lastAcceptedID ts1) True"
  proof (cases "Bag_Len V \<ge> AlphaPreference (ts_params ts0)")
    case True
    obtain k l st where
      k: "(do { ts \<leftarrow> calculateInDegree ts0 V; pushVotes pop ts }) = Some (kahn_update ts0 k l, st)"
      "vote_ready ts0 (rev st) (ts_lastAcceptedID ts0) True"
      using collect_ready [OF inv0(1) pop wf] p len unfolding eq0 by blast
    have part: "tree_part (kahn_update ts0 k l) = tree_part ts0" by (simp add: tree_part_def)
    note eq = tree_part_eqs [OF part]
    show thesis
    proof (rule that)
      show "pref_inv (kahn_update ts0 k l)"
        using inv0(2) pref_inv_cong [OF part] by (simp add: kahn_update_def)
      show "vote_ready (kahn_update ts0 k l) (rev st) (ts_lastAcceptedID (kahn_update ts0 k l)) True"
        using k(2) unfolding vote_ready_def apart_def eq .
      show "ts_calls (kahn_update ts0 k l) = ts_calls ts" by (simp add: kahn_update_def ts0_def)
    qed (use True k(1) part part0 inv0(1) in simp_all)
  next
    case False
    show thesis
      by (rule that [of ts0 "[]"]) (use False part0 inv0 in \<open>simp_all add: ts0_def vote_ready_def\<close>)
  qed
  from Topological_vote_ok [OF vm c(5,6)] obtain ts2 np ds np' where v:
    "Topological_vote vm ts1 st = Some (ts2, Inr np')" "vote_result ts1 np ds ts2 np'" .
  from updatePreference_ok [OF c(4,5) v(2)] obtain ts' where u: "updatePreference ts2 np' = Some ts'"
    "tree_part ts' = tree_part ts2" "ts_calls ts' = ts_calls ts2" "pref_inv ts'" .
  have e: "evolves ts1 ds ts2" using v(2) by (simp add: vote_result_def)
  have "Topological_RecordPoll pop vm ts V = Some (ts', None)"
    unfolding Topological_RecordPoll_def ts0_def [symmetric] Let_def c(1) using v(1) u(1) by simp
  moreover have "topo_inv ts'" using evolvesD(1) [OF e] tree_part_eqs(6) [OF u(2)] by simp
  moreover have "decides ts ds ts'" using evolves_decides [OF e _ _ u(2,3)] c(2,3) by simp
  ultimately show thesis using u(4) that by blast
qed

end
