(* ===== verification/Topological_Reach.thy ===== *)
theory Topological_Reach
  imports Topological_Chain
begin

text \<open>
  Adding blocks, and the states a run of the chain consensus reaches: the properties of \<open>Initialize\<close>,
  \<open>Add\<close> and \<open>RecordPoll\<close> together.
\<close>

section \<open>Adding a block\<close>

text \<open>What \<open>Add\<close> relies on of the block: it is not the last accepted block again, and its height is the
  height of its parent plus one.\<close>

definition block_fits :: "Topological \<Rightarrow> Block \<Rightarrow> bool" where
  "block_fits ts b \<longleftrightarrow> block_ID b \<noteq> ts_lastAcceptedID ts \<and>
     (ts_blocks ts (block_Parent b) \<noteq> None \<longrightarrow> block_Height b = Suc (height_of ts (block_Parent b)))"

lemma update_new: "x \<notin> fst ` set al \<Longrightarrow> AList.update x b al = al @ [(x, b)]"
  by (induction al) auto

lemma AddChild_ok:
  assumes inv: "topo_inv ts" and n: "ts_blocks ts p = Some n" and new: "ts_blocks ts (block_ID b) = None"
  defines "n' \<equiv> snowmanBlock_AddChild (ts_Factory ts) (ts_params ts) n b"
  shows "sm_blk n' = sm_blk n" "sm_children n' = sm_children n @ [(block_ID b, b)]"
    "\<exists>sb. sm_sb n' = Some sb \<and> tree_inv sb \<and> tree_params sb = ts_params ts \<and>
       Tree_choices sb \<subseteq> insert (block_ID b) (fst ` set (sm_children n)) \<and>
       Tree_Preference sb = (case sm_sb n of None \<Rightarrow> block_ID b | Some sb \<Rightarrow> Tree_Preference sb)"
    "block_ID b \<notin> fst ` set (sm_children n)"
proof -
  note ok = topo_invD(2) [OF inv n]
  show fresh: "block_ID b \<notin> fst ` set (sm_children n)" using ok new by (fastforce simp: node_ok_def)
  show "sm_blk n' = sm_blk n" by (simp add: n'_def snowmanBlock_AddChild_def Let_def split: option.splits)
  have empty: "sm_sb n = None \<Longrightarrow> sm_children n = []" using ok by (simp add: node_ok_def)
  then show "sm_children n' = sm_children n @ [(block_ID b, b)]"
    using fresh by (auto simp: n'_def snowmanBlock_AddChild_def Let_def update_new split: option.splits)
  show "\<exists>sb. sm_sb n' = Some sb \<and> tree_inv sb \<and> tree_params sb = ts_params ts \<and>
       Tree_choices sb \<subseteq> insert (block_ID b) (fst ` set (sm_children n)) \<and>
       Tree_Preference sb = (case sm_sb n of None \<Rightarrow> block_ID b | Some sb \<Rightarrow> Tree_Preference sb)"
  proof (cases "sm_sb n")
    case None
    have "Tree_Preference (NewTree (ts_Factory ts) (ts_params ts) (block_ID b)) = block_ID b"
      using Tree_Preference_in_choices [OF NewTree_inv(1)] NewTree_inv(2) by blast
    moreover have "tree_params (NewTree (ts_Factory ts) (ts_params ts) (block_ID b)) = ts_params ts" by (simp add: NewTree_def)
    ultimately show ?thesis using None NewTree_inv by (simp add: n'_def snowmanBlock_AddChild_def Let_def)
  next
    case (Some sb)
    then have sb: "tree_inv sb" "tree_params sb = ts_params ts" "Tree_choices sb \<subseteq> fst ` set (sm_children n)"
      using ok by (simp_all add: node_ok_def)
    with Some Tree_Add_facts [OF sb(1)] Tree_Add_choices [OF sb(1), of "block_ID b"] show ?thesis
      by (auto simp: n'_def snowmanBlock_AddChild_def Let_def)
  qed
qed

text \<open>The tree after a successful \<open>Add\<close>.\<close>

definition added :: "Topological \<Rightarrow> Block \<Rightarrow> snowmanBlock \<Rightarrow> Topological" where
  "added ts b n = ts\<lparr>ts_blocks := (ts_blocks ts)(block_Parent b \<mapsto> snowmanBlock_AddChild (ts_Factory ts) (ts_params ts) n b,
     block_ID b \<mapsto> new_snowmanBlock (Some b))\<rparr>"

lemma added_inv:
  assumes inv: "topo_inv ts" and n: "ts_blocks ts (block_Parent b) = Some n"
    and new: "ts_blocks ts (block_ID b) = None" and fits: "block_fits ts b"
  shows "topo_inv (added ts b n)" "tree_nodes (added ts b n) = insert (block_ID b) (tree_nodes ts)"
    "x \<in> tree_nodes ts \<Longrightarrow> height_of (added ts b n) x = height_of ts x"
    "height_of (added ts b n) (block_ID b) = block_Height b"
    "pref_child (added ts b n) = (if sm_sb n = None then (pref_child ts)(block_Parent b \<mapsto> block_ID b) else pref_child ts)"
proof -
  let ?ts = "added ts b n" and ?p = "block_Parent b" and ?x = "block_ID b"
  let ?n = "snowmanBlock_AddChild (ts_Factory ts) (ts_params ts) n b"
  note c = AddChild_ok [OF inv n new]
  have px: "?p \<noteq> ?x" using n new by auto
  have xL: "?x \<noteq> ts_lastAcceptedID ts" and hb: "block_Height b = Suc (height_of ts ?p)"
    using fits n by (auto simp: block_fits_def)
  have eq: "ts_lastAcceptedID ?ts = ts_lastAcceptedID ts" "ts_lastAcceptedHeight ?ts = ts_lastAcceptedHeight ts"
    "ts_params ?ts = ts_params ts" by (simp_all add: added_def)
  have B: "ts_blocks ?ts y = (if y = ?x then Some (new_snowmanBlock (Some b)) else if y = ?p then Some ?n else ts_blocks ts y)" for y
    using px by (simp add: added_def)
  have old: "\<exists>m'. ts_blocks ?ts y = Some m' \<and> sm_blk m' = sm_blk m \<and> set (sm_children m) \<subseteq> set (sm_children m')"
    if "ts_blocks ts y = Some m" for y m
    using that n new c(1,2) by (auto simp: B)
  have h: "height_of ?ts y = height_of ts y" if "y \<in> dom (ts_blocks ts)" for y
    using that n new c(1) by (auto simp: height_of_def eq B)
  have hx: "height_of ?ts ?x = block_Height b" using xL by (simp add: height_of_def eq B new_snowmanBlock_def)
  have node_old: "node_ok ?ts y m" if y: "ts_blocks ts y = Some m" "y \<noteq> ?p" for y m
  proof -
    have "\<exists>m'. ts_blocks ?ts c = Some m' \<and> sm_blk m' = Some e" if "(c, e) \<in> set (sm_children m)" for c e
      using node_child(4) [OF inv y(1) that] old by metis
    with topo_invD(2) [OF inv y(1)] show ?thesis by (simp add: node_ok_def eq)
  qed
  have node_p: "node_ok ?ts ?p ?n"
  proof -
    have "\<exists>m'. ts_blocks ?ts c = Some m' \<and> sm_blk m' = Some e" if "(c, e) \<in> set (sm_children n)" for c e
      using node_child(4) [OF inv n that] old by metis
    moreover have "ts_blocks ?ts ?x = Some (new_snowmanBlock (Some b))" by (simp add: B)
    ultimately show ?thesis using topo_invD(2) [OF inv n] c(2,3,4) xL
      by (auto simp: node_ok_def eq new_snowmanBlock_def)
  qed
  have node_x: "node_ok ?ts ?x (new_snowmanBlock (Some b))" by (simp add: node_ok_def new_snowmanBlock_def)
  have link_old: "linked ?ts y m'" if y: "ts_blocks ts y = Some m" "y \<noteq> ts_lastAcceptedID ts"
    "sm_blk m' = sm_blk m" for y m m'
  proof -
    from topo_invD(3) [OF inv y(1,2)] obtain e q where e: "sm_blk m = Some e" "block_ID e = y"
      "ts_blocks ts (block_Parent e) = Some q" "(y, e) \<in> set (sm_children q)"
      "block_Height e = Suc (height_of ts (block_Parent e))" by (auto simp: linked_def)
    have "height_of ?ts (block_Parent e) = height_of ts (block_Parent e)" by (rule h) (use e(3) in blast)
    moreover obtain q' where "ts_blocks ?ts (block_Parent e) = Some q'" "(y, e) \<in> set (sm_children q')"
      using old [OF e(3)] e(4) by blast
    ultimately show ?thesis using e y(3) by (simp add: linked_def)
  qed
  have link_x: "linked ?ts ?x (new_snowmanBlock (Some b))"
  proof -
    have "height_of ?ts ?p = height_of ts ?p" by (rule h) (use n in blast)
    then show ?thesis using c(2) hb px by (simp add: linked_def new_snowmanBlock_def B)
  qed
  obtain r where r: "ts_blocks ts (ts_lastAcceptedID ts) = Some r"
    "\<forall>b. sm_blk r = Some b \<longrightarrow> block_Height b = ts_lastAcceptedHeight ts" using topo_invD(1) [OF inv] by blast
  show inv': "topo_inv ?ts" unfolding topo_inv_def eq
  proof (intro conjI allI impI)
    show "\<exists>n. ts_blocks ?ts (ts_lastAcceptedID ts) = Some n \<and> (\<forall>b. sm_blk n = Some b \<longrightarrow> block_Height b = ts_lastAcceptedHeight ts)"
      using old [OF r(1)] r(2) by metis
    show "node_ok ?ts y m" if "ts_blocks ?ts y = Some m" for y m
      using that node_old node_p node_x by (auto simp: B split: if_splits)
    show "linked ?ts y m" if "ts_blocks ?ts y = Some m" "y \<noteq> ts_lastAcceptedID ts" for y m
      using that link_old link_x n c(1) by (auto simp: B split: if_splits)
  qed
  show "tree_nodes ?ts = insert ?x (tree_nodes ts)" using inv inv' n by (auto simp: tree_nodes_def B split: if_splits)
  show "height_of ?ts ?x = block_Height b" by (rule hx)
  show "y \<in> tree_nodes ts \<Longrightarrow> height_of ?ts y = height_of ts y" for y using h inv by (simp add: tree_nodes_def)
  show "pref_child ?ts = (if sm_sb n = None then (pref_child ts)(?p \<mapsto> ?x) else pref_child ts)"
    using c(3) n new px by (auto simp: pref_child_def B fun_eq_iff new_snowmanBlock_def split: option.splits)
qed

lemma pref_invD:
  assumes "pref_inv ts"
  shows "(ts_lastAcceptedID ts, ts_preference ts) \<in> (pref_edge ts)\<^sup>*" "pref_child ts (ts_preference ts) = None"
    "ts_preferredIDs ts = {y. (ts_lastAcceptedID ts, y) \<in> (pref_edge ts)\<^sup>+}"
    "heights_exact ts (ts_preferredIDs ts) (ts_preferredHeights ts)"
  using assms unfolding pref_inv_def by blast+

lemma pref_tip: "(x, y) \<in> (pref_edge ts)\<^sup>* \<Longrightarrow> pref_child ts x = None \<Longrightarrow> y = x"
  by (erule converse_rtranclE) auto

lemma preferred_nodes:
  assumes "topo_inv ts" "pref_inv ts"
  shows "ts_preferredIDs ts \<subseteq> tree_nodes ts" "ts_preference ts \<in> tree_nodes ts"
    "z \<in> ts_preferredIDs ts \<Longrightarrow> height_of ts z \<le> height_of ts (ts_preference ts)"
proof -
  let ?L = "ts_lastAcceptedID ts" and ?R = "pref_edge ts"
  note tip = pref_invD(1,2) [OF assms(2)] and ids = pref_invD(3) [OF assms(2)]
  show "ts_preferredIDs ts \<subseteq> tree_nodes ts"
    using pref_trancl_below [OF assms(1)] bt.below_N unfolding ids by blast
  show "ts_preference ts \<in> tree_nodes ts" using pref_path_below(2) [OF assms(1) tip(1) bt.root_N] .
  assume "z \<in> ts_preferredIDs ts"
  then have "(?L, z) \<in> ?R\<^sup>*" unfolding ids by (simp add: trancl_into_rtrancl)
  from single_valued_confluent [OF pref_single this tip(1)] have "(z, ts_preference ts) \<in> ?R\<^sup>*"
    using tip(2) by (auto elim: converse_rtranclE)
  from pref_path_below(1) [OF assms(1) this] show "height_of ts z \<le> height_of ts (ts_preference ts)"
    using bt.ht_below [of "ts_preference ts" ts z] by auto
qed

lemma heights_exact_cong:
  "(\<And>z. z \<in> ids \<Longrightarrow> height_of ts' z = height_of ts z) \<Longrightarrow> heights_exact ts ids hs \<Longrightarrow> heights_exact ts' ids hs"
  by (auto simp: heights_exact_def)

lemma added_pref_extend:
  assumes inv: "topo_inv ts" "pref_inv ts" and n: "ts_blocks ts (block_Parent b) = Some n"
    and new: "ts_blocks ts (block_ID b) = None" and fits: "block_fits ts b" and tip: "ts_preference ts = block_Parent b"
  shows "pref_inv (set_pref (added ts b n) (insert (block_ID b) (ts_preferredIDs ts))
    ((ts_preferredHeights ts)(block_Height b \<mapsto> block_ID b)) (block_ID b))"
proof -
  let ?T = "added ts b n" and ?p = "block_Parent b" and ?x = "block_ID b" and ?L = "ts_lastAcceptedID ts"
  let ?R = "pref_edge ts" and ?R' = "pref_edge (added ts b n)"
  note a = added_inv [OF inv(1) n new fits] and pn = preferred_nodes [OF inv]
  note P = pref_invD [OF inv(2), unfolded tip]
  have none: "sm_sb n = None" using P(2) n by (simp add: pref_child_def)
  have R': "?R' = insert (?p, ?x) ?R" using P(2) none by (auto simp: pref_edge_def a(5) split: if_splits)
  have x: "pref_child ts ?x = None" using new by (simp add: pref_child_def)
  have px: "?p \<noteq> ?x" using n new by auto
  have "(?L, y) \<in> ?R'\<^sup>+ \<longleftrightarrow> y = ?x \<or> (?L, y) \<in> ?R\<^sup>+" for y
  proof
    assume "(?L, y) \<in> ?R'\<^sup>+"
    then show "y = ?x \<or> (?L, y) \<in> ?R\<^sup>+"
      by (induction rule: trancl_induct) (use R' x px in \<open>auto intro: trancl_into_trancl split: if_splits\<close>)
  next
    have sub: "?R \<subseteq> ?R'" "(?p, ?x) \<in> ?R'" using R' by auto
    assume "y = ?x \<or> (?L, y) \<in> ?R\<^sup>+"
    then show "(?L, y) \<in> ?R'\<^sup>+"
      using P(1) rtrancl_mono [OF sub(1)] sub(2) trancl_mono [OF _ sub(1)]
      by (blast intro: rtrancl_into_trancl1)
  qed
  then have ids: "insert ?x (ts_preferredIDs ts) = {y. (?L, y) \<in> ?R'\<^sup>+}" using P(3) by blast
  have "heights_exact ?T (ts_preferredIDs ts) (ts_preferredHeights ts)"
    using pn(1) a(3) by (intro heights_exact_cong [OF _ P(4)]) blast
  moreover have "height_of ?T z \<noteq> height_of ?T ?x" if "z \<in> ts_preferredIDs ts" for z
  proof -
    have "height_of ?T z = height_of ts z" using that pn(1) by (intro a(3)) blast
    then show ?thesis using pn(3) [OF that] a(4) fits n tip by (simp add: block_fits_def)
  qed
  ultimately have "heights_exact ?T (insert ?x (ts_preferredIDs ts)) ((ts_preferredHeights ts)(block_Height b \<mapsto> ?x))"
    using heights_exact_insert [of ?T "ts_preferredIDs ts" "ts_preferredHeights ts" ?x] a(4) by simp
  moreover have "(?L, ?x) \<in> ?R'\<^sup>*" using ids by (blast intro: trancl_into_rtrancl)
  moreover have "pref_child ?T ?x = None" using x px none by (simp add: a(5))
  moreover have "ts_lastAcceptedID ?T = ?L" by (simp add: added_def)
  ultimately show ?thesis using ids by (simp add: pref_inv_def heights_exact_def)
qed

lemma added_pref_keep:
  assumes inv: "topo_inv ts" "pref_inv ts" and n: "ts_blocks ts (block_Parent b) = Some n"
    and new: "ts_blocks ts (block_ID b) = None" and fits: "block_fits ts b" and tip: "ts_preference ts \<noteq> block_Parent b"
  shows "pref_inv (added ts b n)"
proof -
  let ?T = "added ts b n" and ?p = "block_Parent b" and ?L = "ts_lastAcceptedID ts"
  let ?R = "pref_edge ts" and ?R' = "pref_edge (added ts b n)"
  note a = added_inv [OF inv(1) n new fits] and pn = preferred_nodes [OF inv]
  note P = pref_invD [OF inv(2)]
  have "(?L, ?p) \<notin> ?R\<^sup>*" if "pref_child ts ?p = None"
    using single_valued_confluent [OF pref_single P(1), of ?p] tip
      pref_tip [of ?p "ts_preference ts", OF _ that] pref_tip [OF _ P(2), of ?p] by auto
  then have same: "pref_child ?T y = pref_child ts y" if "(?L, y) \<in> ?R\<^sup>*" for y
    using that n by (auto simp: a(5) pref_child_def)
  have agree: "(?L, y) \<in> ?R'\<^sup>* \<longleftrightarrow> (?L, y) \<in> ?R\<^sup>*" "(?L, y) \<in> ?R'\<^sup>+ \<longleftrightarrow> (?L, y) \<in> ?R\<^sup>+" for y
    using rtrancl_agree [of ?L ?R ?R' y] same by auto
  have "heights_exact ?T (ts_preferredIDs ts) (ts_preferredHeights ts)"
    using pn(1) a(3) by (intro heights_exact_cong [OF _ P(4)]) blast
  moreover have "ts_preferredIDs ?T = ts_preferredIDs ts" "ts_preferredHeights ?T = ts_preferredHeights ts"
    "ts_preference ?T = ts_preference ts" "ts_lastAcceptedID ?T = ?L" by (simp_all add: added_def)
  ultimately show ?thesis using P same [OF P(1)] by (simp add: pref_inv_def agree)
qed

lemma Add_cases:
  assumes inv: "topo_inv ts" "pref_inv ts" and fits: "block_fits ts b"
  shows "block_ID b \<in> tree_nodes ts \<Longrightarrow> Topological_Add ts b = (ts, Some errDuplicateAdd)"
    "block_ID b \<notin> tree_nodes ts \<Longrightarrow> block_Parent b \<notin> tree_nodes ts \<Longrightarrow> Topological_Add ts b = (ts, Some errUnknownParentBlock)"
    "block_ID b \<notin> tree_nodes ts \<Longrightarrow> block_Parent b \<in> tree_nodes ts \<Longrightarrow>
       \<exists>ts' n. ts_blocks ts (block_Parent b) = Some n \<and> Topological_Add ts b = (ts', None) \<and>
         tree_part ts' = tree_part (added ts b n) \<and> ts_calls ts' = ts_calls ts \<and> topo_inv ts' \<and> pref_inv ts'"
proof -
  have N: "y \<in> tree_nodes ts \<longleftrightarrow> ts_blocks ts y \<noteq> None" for y using inv(1) by (auto simp: tree_nodes_def)
  have xL: "block_ID b \<noteq> ts_lastAcceptedID ts" using fits by (simp add: block_fits_def)
  show "block_ID b \<in> tree_nodes ts \<Longrightarrow> Topological_Add ts b = (ts, Some errDuplicateAdd)"
    using xL by (simp add: N Topological_Add_def Processing_def Let_def)
  show "block_ID b \<notin> tree_nodes ts \<Longrightarrow> block_Parent b \<notin> tree_nodes ts \<Longrightarrow> Topological_Add ts b = (ts, Some errUnknownParentBlock)"
    by (simp add: N Topological_Add_def Processing_def Let_def)
  assume "block_ID b \<notin> tree_nodes ts" "block_Parent b \<in> tree_nodes ts"
  then obtain n where new: "ts_blocks ts (block_ID b) = None" and n: "ts_blocks ts (block_Parent b) = Some n" by (auto simp: N)
  let ?T = "added ts b n"
  let ?ts = "if ts_preference ts = block_Parent b
    then set_pref ?T (insert (block_ID b) (ts_preferredIDs ts)) ((ts_preferredHeights ts)(block_Height b \<mapsto> block_ID b)) (block_ID b)
    else ?T"
  have "Topological_Add ts b = (?ts, None)"
    using new n by (simp add: Topological_Add_def Processing_def Let_def added_def set_pref_def)
  moreover have "tree_part ?ts = tree_part ?T" "ts_calls ?ts = ts_calls ts" by (simp_all add: added_def)
  moreover have "topo_inv ?ts" using added_inv(1) [OF inv(1) n new fits] by simp
  moreover have "pref_inv ?ts" using added_pref_extend [OF inv n new fits] added_pref_keep [OF inv n new fits] by simp
  ultimately show "\<exists>ts' n. ts_blocks ts (block_Parent b) = Some n \<and> Topological_Add ts b = (ts', None) \<and>
         tree_part ts' = tree_part (added ts b n) \<and> ts_calls ts' = ts_calls ts \<and> topo_inv ts' \<and> pref_inv ts'"
    using n by blast
qed

section \<open>Runs\<close>

text \<open>A run of the chain consensus: \<open>L\<close> and \<open>H\<close> are the last accepted block and its height at the start.
  The engine stops at the first failed call, so the calls into the virtual machine succeed.\<close>

inductive topo_reach :: "Factory \<Rightarrow> Parameters \<Rightarrow> ID \<Rightarrow> nat \<Rightarrow> Topological \<Rightarrow> bool"
  for f :: Factory and p :: Parameters and L :: ID and H :: nat where
  initialize: "Topological_Initialize f False p L H = Inr ts \<Longrightarrow> topo_reach f p L H ts"
| add: "topo_reach f p L H ts \<Longrightarrow> block_fits ts b \<Longrightarrow> Topological_Add ts b = (ts', None) \<Longrightarrow> topo_reach f p L H ts'"
| poll: "topo_reach f p L H ts \<Longrightarrow> vm_ok vm \<Longrightarrow> pop_ok pop \<Longrightarrow> bag_wf V \<Longrightarrow> Bag_Len V \<le> K p \<Longrightarrow>
    Topological_RecordPoll pop vm ts V = Some (ts', None) \<Longrightarrow> topo_reach f p L H ts'"

fun accepted_calls :: "vm_call list \<Rightarrow> ID list" where
  "accepted_calls [] = []"
| "accepted_calls (BlockAccept x # cs) = x # accepted_calls cs"
| "accepted_calls (c # cs) = accepted_calls cs"

lemma accepted_calls_append [simp]: "accepted_calls (cs @ ds) = accepted_calls cs @ accepted_calls ds"
  by (induction cs rule: accepted_calls.induct) auto

lemma accepted_calls_decisions [simp]: "accepted_calls (decision_calls ds) = map fst ds"
proof -
  have "accepted_calls (map BlockReject rs) = []" for rs by (induction rs) auto
  then show ?thesis by (induction ds) (auto simp: decision_calls_def)
qed

lemma Initialize_inv:
  assumes "Topological_Initialize f False p L H = Inr ts"
  shows "topo_inv ts" "pref_inv ts" "params_valid (ts_params ts)" "ts_params ts = p" "ts_lastAcceptedID ts = L"
    "ts_lastAcceptedHeight ts = H" "ts_calls ts = []"
proof -
  have v: "Parameters_Verify p = None" using assms by (auto simp: Topological_Initialize_def split: option.splits)
  with assms have ts: "ts = \<lparr>ts_Factory = f, ts_pollNumber = 0, ts_params = p, ts_lastAcceptedID = L,
      ts_lastAcceptedHeight = H, ts_blocks = [L \<mapsto> new_snowmanBlock None], ts_preferredIDs = {},
      ts_preferredHeights = Map.empty, ts_preference = L, ts_leaves = {}, ts_kahnNodes = Map.empty, ts_calls = []\<rparr>"
    by (simp add: Topological_Initialize_def)
  show "topo_inv ts" by (simp add: ts topo_inv_def node_ok_def new_snowmanBlock_def)
  have "pref_edge ts = {}" by (auto simp: ts pref_edge_def pref_child_def new_snowmanBlock_def split: option.splits if_splits)
  then show "pref_inv ts" by (simp add: pref_inv_def heights_exact_def) (simp add: ts pref_child_def new_snowmanBlock_def)
  show "params_valid (ts_params ts)" using v by (simp add: ts Parameters_Verify_iff)
qed (use assms in \<open>auto simp: Topological_Initialize_def split: option.splits\<close>)

lemma topo_reach_inv:
  assumes "topo_reach f p L H ts"
  shows "topo_inv ts \<and> pref_inv ts \<and> params_valid p \<and> ts_params ts = p \<and>
    ts_lastAcceptedID ts = last (L # accepted_calls (ts_calls ts)) \<and>
    ts_lastAcceptedHeight ts = H + length (accepted_calls (ts_calls ts))"
  using assms
proof (induction rule: topo_reach.induct)
  case (initialize ts)
  from Initialize_inv [OF this] show ?case by simp
next
  case (add ts b ts')
  then have inv: "topo_inv ts" "pref_inv ts" by simp_all
  have "block_ID b \<notin> tree_nodes ts" "block_Parent b \<in> tree_nodes ts"
    using Add_cases(1,2) [OF inv add.hyps(2)] add.hyps(3) by fastforce+
  from Add_cases(3) [OF inv add.hyps(2) this] add.hyps(3) obtain n where
    "tree_part ts' = tree_part (added ts b n)" "ts_calls ts' = ts_calls ts" "topo_inv ts'" "pref_inv ts'" by auto
  with add.IH show ?case by (simp add: tree_part_def added_def)
next
  case (poll ts vm pop V ts')
  then have inv: "topo_inv ts" "pref_inv ts" "params_valid (ts_params ts)" "Bag_Len V \<le> K (ts_params ts)" by simp_all
  from RecordPoll_ok [OF inv(1,2) poll.hyps(2-4) inv(3,4)] poll.hyps(6) obtain ds where
    "topo_inv ts'" "pref_inv ts'" and d: "decides ts ds ts'" by auto
  with poll.IH show ?case by (cases ds) (auto simp: decides_def)
qed

lemmas topo_reach_facts = topo_reach_inv [THEN conjunct1]
  topo_reach_inv [THEN conjunct2, THEN conjunct1]

section \<open>A concrete state\<close>

text \<open>Two conflicting blocks above the last accepted block.\<close>

definition demo_start :: Topological where
  "demo_start = projr (Topological_Initialize SnowballFactory False DefaultParameters 1 0)"

definition demo_block :: "ID \<Rightarrow> Block" where
  "demo_block x = \<lparr>block_ID = x, block_Parent = 1, block_Height = 1\<rparr>"

lemma demo_block_sel: "block_ID (demo_block x) = x" "block_Parent (demo_block x) = 1" "block_Height (demo_block x) = 1"
  by (simp_all add: demo_block_def)

definition demo_fork :: Topological where
  "demo_fork = fst (Topological_Add (fst (Topological_Add demo_start (demo_block 2))) (demo_block 3))"

definition demo_vm :: vm where
  "demo_vm = \<lparr>vm_acceptor = \<lambda>x. True, vm_accept = \<lambda>x. True, vm_reject = \<lambda>x. True\<rparr>"

lemma demo_env: "vm_ok demo_vm" "pop_ok Min" "bag_wf (Bag_Of [2, 3, 2])" "Bag_Len (Bag_Of [2, 3, 2 :: ID]) \<le> K DefaultParameters"
  by (simp_all add: vm_ok_def demo_vm_def pop_ok_def Bag_Len_mset Bag_mset_Of DefaultParameters_def)

lemma Add_reach:
  assumes r: "topo_reach f p L H ts" and fits: "block_fits ts b"
    and new: "ts_blocks ts (block_ID b) = None" "ts_blocks ts (block_Parent b) \<noteq> None"
  defines "ts' \<equiv> fst (Topological_Add ts b)"
  shows "topo_reach f p L H ts'" "ts_lastAcceptedID ts' = ts_lastAcceptedID ts"
    "ts_lastAcceptedHeight ts' = ts_lastAcceptedHeight ts"
    "ts_blocks ts' y = None \<longleftrightarrow> y \<noteq> block_ID b \<and> ts_blocks ts y = None"
proof -
  have inv: "topo_inv ts" "pref_inv ts" using topo_reach_inv [OF r] by blast+
  have "block_ID b \<notin> tree_nodes ts" "block_Parent b \<in> tree_nodes ts" using new inv(1) by (auto simp: tree_nodes_def)
  from Add_cases(3) [OF inv fits this] obtain n where a: "Topological_Add ts b = (ts', None)"
    and t: "tree_part ts' = tree_part (added ts b n)" by (auto simp: ts'_def)
  show "topo_reach f p L H ts'" by (rule topo_reach.add [OF r fits a])
  show "ts_lastAcceptedID ts' = ts_lastAcceptedID ts" "ts_lastAcceptedHeight ts' = ts_lastAcceptedHeight ts"
    "ts_blocks ts' y = None \<longleftrightarrow> y \<noteq> block_ID b \<and> ts_blocks ts y = None"
    using t new(2) by (auto simp: tree_part_def added_def split: if_splits)
qed

lemma demo_start_reach:
  "topo_reach SnowballFactory DefaultParameters 1 0 demo_start" "ts_lastAcceptedID demo_start = 1"
  "ts_lastAcceptedHeight demo_start = 0" "ts_blocks demo_start = [1 \<mapsto> new_snowmanBlock None]" "ts_preference demo_start = 1"
proof -
  have "Topological_Initialize SnowballFactory False DefaultParameters 1 0 = Inr demo_start"
    by (simp add: demo_start_def Topological_Initialize_def Parameters_Verify_def DefaultParameters_def)
  then show "topo_reach SnowballFactory DefaultParameters 1 0 demo_start" by (rule topo_reach.initialize)
qed (simp_all add: demo_start_def Topological_Initialize_def Parameters_Verify_def DefaultParameters_def)

lemma demo_reach:
  "topo_reach SnowballFactory DefaultParameters 1 0 demo_fork"
  "block_fits demo_fork (demo_block 2)" "ts_params demo_fork = DefaultParameters"
proof -
  note s0 = demo_start_reach(2-4)
  define s1 where "s1 = fst (Topological_Add demo_start (demo_block 2))"
  note a2 = Add_reach [OF demo_start_reach(1), of "demo_block 2", folded s1_def]
  have s1: "topo_reach SnowballFactory DefaultParameters 1 0 s1" "ts_lastAcceptedID s1 = 1"
    "ts_lastAcceptedHeight s1 = 0" "ts_blocks s1 y = None \<longleftrightarrow> y \<noteq> 2 \<and> y \<noteq> 1" for y
    using a2 s0 by (simp_all add: block_fits_def demo_block_def height_of_def)
  have fork: "demo_fork = fst (Topological_Add s1 (demo_block 3))" by (simp add: demo_fork_def s1_def)
  note a3 = Add_reach [OF s1(1), of "demo_block 3", folded fork]
  have s2: "topo_reach SnowballFactory DefaultParameters 1 0 demo_fork" "ts_lastAcceptedID demo_fork = 1"
    "ts_lastAcceptedHeight demo_fork = 0"
    using a3 s1(2,3) s1(4) [of 1] s1(4) [of 3] by (simp_all add: block_fits_def demo_block_def height_of_def)
  then show "topo_reach SnowballFactory DefaultParameters 1 0 demo_fork" "block_fits demo_fork (demo_block 2)"
    by (simp_all add: block_fits_def demo_block_def height_of_def)
  show "ts_params demo_fork = DefaultParameters" using topo_reach_inv [OF s2(1)] by blast
qed

section \<open>The properties\<close>

text \<open>
  C1. Every poll of a reachable state ends, without a panic and without an error as long as the
  virtual machine accepts and rejects blocks, and decides blocks consistently: the accepted
  blocks extend the chain of the last accepted block one height at a time, the blocks that remain are
  exactly the descendants of the new last accepted block, with their heights and children
  unchanged, and every other block is rejected exactly once, in the calls made.
\<close>

theorem topo_poll_decides:
  assumes "topo_reach f p L H ts" "vm_ok vm" "pop_ok pop" "bag_wf V" "Bag_Len V \<le> K p"
  shows "\<exists>ts' ds. Topological_RecordPoll pop vm ts V = Some (ts', None) \<and> topo_reach f p L H ts' \<and> decides ts ds ts'"
proof -
  note r = topo_reach_inv [OF assms(1)]
  with RecordPoll_ok [OF _ _ assms(2-4)] assms(5) obtain ts' ds where
    "Topological_RecordPoll pop vm ts V = Some (ts', None)" "decides ts ds ts'" by metis
  with topo_reach.poll [OF assms] show ?thesis by blast
qed

theorem topo_poll_decides_witness:
  "\<exists>ts' ds. Topological_RecordPoll Min demo_vm demo_fork (Bag_Of [2, 3, 2]) = Some (ts', None) \<and>
     topo_reach SnowballFactory DefaultParameters 1 0 ts' \<and> decides demo_fork ds ts'"
  using topo_poll_decides [OF demo_reach(1) demo_env] .

text \<open>
  C3. The preferences of a reachable state are one chain: the preferred blocks are the last
  accepted block and the blocks reached from it by following the preference of each block's snow
  tree, \<open>Preference\<close> is the end of that chain, and \<open>PreferenceAtHeight\<close> gives the block of the chain at a height.
\<close>

theorem topo_preference_exact:
  assumes "topo_reach f p L H ts"
  shows "(IsPreferred ts x \<longleftrightarrow> (ts_lastAcceptedID ts, x) \<in> (pref_edge ts)\<^sup>*) \<and>
    IsPreferred ts (Topological_Preference ts) \<and> pref_child ts (Topological_Preference ts) = None \<and>
    (PreferenceAtHeight ts h = Some x \<longleftrightarrow> IsPreferred ts x \<and> height_of ts x = h)"
proof -
  let ?L = "ts_lastAcceptedID ts" and ?R = "pref_edge ts"
  have inv: "topo_inv ts" "pref_inv ts" using topo_reach_inv [OF assms] by blast+
  note P = pref_invD [OF inv(2)]
  have pref: "IsPreferred ts y \<longleftrightarrow> (?L, y) \<in> ?R\<^sup>*" for y
    unfolding IsPreferred_def P(3) using rtrancl_eq_or_trancl [of ?L y ?R] by auto
  have above: "ts_lastAcceptedHeight ts < height_of ts y" if "y \<in> ts_preferredIDs ts" for y
    using that pref_trancl_below [OF inv(1)] bt.ht_below [of y ts ?L] unfolding P(3) by (force simp: height_of_def)
  have "PreferenceAtHeight ts h = Some x \<longleftrightarrow> IsPreferred ts x \<and> height_of ts x = h"
  proof (cases "h = ts_lastAcceptedHeight ts")
    case True
    then show ?thesis using above [of x] by (auto simp: PreferenceAtHeight_def IsPreferred_def height_of_def)
  next
    case False
    then show ?thesis using P(4) by (auto simp: PreferenceAtHeight_def IsPreferred_def heights_exact_def height_of_def)
  qed
  with pref P(1,2) show ?thesis by (simp add: Topological_Preference_def)
qed

theorem topo_preference_exact_witness:
  "IsPreferred demo_fork (Topological_Preference demo_fork) \<and> pref_child demo_fork (Topological_Preference demo_fork) = None"
  using topo_preference_exact [OF demo_reach(1)] by blast

text \<open>The choices of the snow tree of a block.\<close>

definition child_choices :: "Topological \<Rightarrow> ID \<Rightarrow> ID set" where
  "child_choices ts x = (case ts_blocks ts x of None \<Rightarrow> {} | Some n \<Rightarrow> (case sm_sb n of None \<Rightarrow> {} | Some sb \<Rightarrow> Tree_choices sb))"

lemma AddChild_choices:
  fixes b :: Block
  assumes "topo_inv ts" "ts_blocks ts p = Some n"
  defines "n' \<equiv> snowmanBlock_AddChild (ts_Factory ts) (ts_params ts) n b"
  shows "\<exists>sb'. sm_sb n' = Some sb' \<and> Tree_choices sb' = (case sm_sb n of None \<Rightarrow> {block_ID b}
    | Some sb \<Rightarrow> if \<not> Tree_Finalized sb \<and> agree (node_DecidedPrefix (tree_node sb)) (Tree_Preference sb) (block_ID b)
        then insert (block_ID b) (Tree_choices sb) else Tree_choices sb)"
proof (cases "sm_sb n")
  case None
  then show ?thesis by (simp add: n'_def snowmanBlock_AddChild_def Let_def NewTree_inv)
next
  case (Some sb)
  then have sb: "tree_inv sb" using topo_invD(2) [OF assms(1,2)] by (simp add: node_ok_def)
  show ?thesis using Some Tree_Add_facts(5) [OF sb, of "block_ID b"] Tree_Add_finalized [OF sb, of "block_ID b"]
    by (cases "Tree_Finalized sb") (simp_all add: n'_def snowmanBlock_AddChild_def Let_def)
qed

lemma Add_new:
  assumes "ts_blocks ts (block_ID b) = None" "ts_blocks ts (block_Parent b) = Some n"
  shows "Topological_Add ts b =
    (if ts_preference ts = block_Parent b
     then set_pref (added ts b n) (insert (block_ID b) (ts_preferredIDs ts))
       ((ts_preferredHeights ts)(block_Height b \<mapsto> block_ID b)) (block_ID b)
     else added ts b n, None)"
  using assms by (simp add: Topological_Add_def Processing_def Let_def added_def set_pref_def)

text \<open>The tree after a block was added, whatever happened to the preference.\<close>

lemma added_tree:
  assumes inv: "topo_inv ts" and new: "ts_blocks ts (block_ID b) = None" and n: "ts_blocks ts (block_Parent b) = Some n"
    and fits: "block_fits ts b" and t: "tree_part ts' = tree_part (added ts b n)"
  shows "LastAccepted ts' = LastAccepted ts" "NumProcessing ts' = NumProcessing ts + 1"
    "Processing ts' y \<longleftrightarrow> y = block_ID b \<or> Processing ts y" "GetParent ts' (block_ID b) = Some (block_Parent b)"
    "height_of ts' (block_ID b) = Suc (height_of ts (block_Parent b))"
    "block_kids ts' (block_ID b) = {}" "pref_child ts' (block_ID b) = None"
    "block_kids ts' (block_Parent b) = insert (block_ID b) (block_kids ts (block_Parent b))"
    "pref_child ts' (block_Parent b) = (case pref_child ts (block_Parent b) of None \<Rightarrow> Some (block_ID b) | Some c \<Rightarrow> Some c)"
    "GetParent ts' (block_Parent b) = GetParent ts (block_Parent b)"
    "height_of ts' (block_Parent b) = height_of ts (block_Parent b)"
    "child_choices ts' (block_Parent b) = (case sm_sb n of None \<Rightarrow> {block_ID b}
      | Some sb \<Rightarrow> if \<not> Tree_Finalized sb \<and> agree (node_DecidedPrefix (tree_node sb)) (Tree_Preference sb) (block_ID b)
          then insert (block_ID b) (child_choices ts (block_Parent b)) else child_choices ts (block_Parent b))"
    "y \<noteq> block_ID b \<Longrightarrow> y \<noteq> block_Parent b \<Longrightarrow> ts_blocks ts' y = ts_blocks ts y"
proof -
  let ?x = "block_ID b" and ?p = "block_Parent b" and ?n = "snowmanBlock_AddChild (ts_Factory ts) (ts_params ts) n b"
  note c = AddChild_ok [OF inv n new]
  have px: "?p \<noteq> ?x" using n new by auto
  have xL: "?x \<noteq> ts_lastAcceptedID ts" and h: "block_Height b = Suc (height_of ts ?p)" using fits n by (auto simp: block_fits_def)
  have L: "ts_lastAcceptedID ts' = ts_lastAcceptedID ts" "ts_lastAcceptedHeight ts' = ts_lastAcceptedHeight ts"
    and Bs: "ts_blocks ts' = (ts_blocks ts)(?p \<mapsto> ?n, ?x \<mapsto> new_snowmanBlock (Some b))"
    using t by (simp_all add: tree_part_def added_def)
  have B: "ts_blocks ts' ?x = Some (new_snowmanBlock (Some b))" "ts_blocks ts' ?p = Some ?n" using px by (simp_all add: Bs)
  show "y \<noteq> ?x \<Longrightarrow> y \<noteq> ?p \<Longrightarrow> ts_blocks ts' y = ts_blocks ts y" by (simp add: Bs)
  show "LastAccepted ts' = LastAccepted ts" "Processing ts' y \<longleftrightarrow> y = ?x \<or> Processing ts y"
    using n xL by (auto simp: LastAccepted_def Processing_def L Bs)
  have "dom (ts_blocks ts') = insert ?x (dom (ts_blocks ts))" using n by (auto simp: Bs)
  moreover have "?x \<notin> dom (ts_blocks ts)" using new by blast
  ultimately show "NumProcessing ts' = NumProcessing ts + 1" by (simp add: NumProcessing_def)
  show "GetParent ts' ?x = Some ?p" "block_kids ts' ?x = {}" "pref_child ts' ?x = None"
    by (simp_all add: GetParent_def block_kids_def pref_child_def B new_snowmanBlock_def)
  show "height_of ts' ?x = Suc (height_of ts ?p)" using xL h by (simp add: height_of_def L B new_snowmanBlock_def)
  show "block_kids ts' ?p = insert ?x (block_kids ts ?p)" by (simp add: block_kids_def B n c(2))
  show "pref_child ts' ?p = (case pref_child ts ?p of None \<Rightarrow> Some ?x | Some c \<Rightarrow> Some c)"
    using c(3) by (auto simp: pref_child_def B n split: option.splits)
  show "GetParent ts' ?p = GetParent ts ?p" "height_of ts' ?p = height_of ts ?p"
    by (simp_all add: GetParent_def height_of_def L B n c(1))
  show "child_choices ts' ?p = (case sm_sb n of None \<Rightarrow> {?x}
      | Some sb \<Rightarrow> if \<not> Tree_Finalized sb \<and> agree (node_DecidedPrefix (tree_node sb)) (Tree_Preference sb) ?x
          then insert ?x (child_choices ts ?p) else child_choices ts ?p)"
  proof -
    from AddChild_choices [OF inv n, of b] obtain sb' where sb': "sm_sb ?n = Some sb'" "Tree_choices sb' = (case sm_sb n of None \<Rightarrow> {?x}
        | Some sb \<Rightarrow> if \<not> Tree_Finalized sb \<and> agree (node_DecidedPrefix (tree_node sb)) (Tree_Preference sb) ?x
            then insert ?x (Tree_choices sb) else Tree_choices sb)" by blast
    have "child_choices ts' ?p = Tree_choices sb'" by (simp add: child_choices_def B(2) sb'(1))
    then show ?thesis unfolding sb'(2) by (cases "sm_sb n") (simp_all add: child_choices_def n)
  qed
qed

text \<open>The preferred chain after a block was added.\<close>

lemma added_preferred:
  assumes inv: "topo_inv ts" and new: "ts_blocks ts (block_ID b) = None" and n: "ts_blocks ts (block_Parent b) = Some n"
    and fits: "block_fits ts b" and ts': "Topological_Add ts b = (ts', None)"
  shows "if Topological_Preference ts = block_Parent b
    then Topological_Preference ts' = block_ID b \<and> (\<forall>y. IsPreferred ts' y \<longleftrightarrow> y = block_ID b \<or> IsPreferred ts y) \<and>
      (\<forall>h. PreferenceAtHeight ts' h = (if h = block_Height b then Some (block_ID b) else PreferenceAtHeight ts h))
    else Topological_Preference ts' = Topological_Preference ts \<and> IsPreferred ts' = IsPreferred ts \<and>
      PreferenceAtHeight ts' = PreferenceAtHeight ts"
proof -
  have "ts_lastAcceptedHeight ts \<le> height_of ts (block_Parent b)"
    using height_above [OF inv n] by (cases "block_Parent b = ts_lastAcceptedID ts") (auto simp: height_of_def)
  then have h: "block_Height b \<noteq> ts_lastAcceptedHeight ts" using fits n by (auto simp: block_fits_def)
  have keep: "ts_preferredIDs (added ts b n) = ts_preferredIDs ts" "ts_preferredHeights (added ts b n) = ts_preferredHeights ts"
    "ts_preference (added ts b n) = ts_preference ts" "ts_lastAcceptedID (added ts b n) = ts_lastAcceptedID ts"
    "ts_lastAcceptedHeight (added ts b n) = ts_lastAcceptedHeight ts" by (simp_all add: added_def)
  show ?thesis
  proof (cases "ts_preference ts = block_Parent b")
    case True
    then have "ts' = set_pref (added ts b n) (insert (block_ID b) (ts_preferredIDs ts))
        ((ts_preferredHeights ts)(block_Height b \<mapsto> block_ID b)) (block_ID b)" using ts' Add_new [OF new n] by simp
    then show ?thesis using True h by (simp add: Topological_Preference_def IsPreferred_def PreferenceAtHeight_def keep) blast
  next
    case False
    then have "ts' = added ts b n" using ts' Add_new [OF new n] by simp
    then show ?thesis using False by (simp add: Topological_Preference_def IsPreferred_def PreferenceAtHeight_def keep fun_eq_iff)
  qed
qed

text \<open>
  C5. Adding a block to a reachable state: a block already processing is refused as a duplicate and a
  block without its parent as an orphan, both without any change.  Otherwise the block is added as a new leaf: it has no
  children and its height is one above its parent's, it is one more child of its parent (the first child of a
  parent becomes its preferred child and only choice, a later one leaves the preferred child and becomes a choice unless the
  snow tree has decided against it), and every other block is kept as it is.  The preferred chain is extended by the block
  when its tip is the parent, and is kept otherwise.  Nothing is decided.
\<close>

theorem topo_add_exact:
  assumes "topo_reach f p L H ts" "block_fits ts b" "Topological_Add ts b = (ts', err)"
  shows "err = (if Processing ts (block_ID b) then Some errDuplicateAdd
       else if ts_blocks ts (block_Parent b) = None then Some errUnknownParentBlock else None) \<and>
    (if err \<noteq> None then ts' = ts
     else topo_reach f p L H ts' \<and> LastAccepted ts' = LastAccepted ts \<and> ts_calls ts' = ts_calls ts \<and>
       NumProcessing ts' = NumProcessing ts + 1 \<and> (\<forall>y. Processing ts' y \<longleftrightarrow> y = block_ID b \<or> Processing ts y) \<and>
       GetParent ts' (block_ID b) = Some (block_Parent b) \<and>
       height_of ts' (block_ID b) = Suc (height_of ts (block_Parent b)) \<and>
       block_kids ts' (block_ID b) = {} \<and> pref_child ts' (block_ID b) = None \<and>
       block_kids ts' (block_Parent b) = insert (block_ID b) (block_kids ts (block_Parent b)) \<and>
       pref_child ts' (block_Parent b) = (case pref_child ts (block_Parent b) of None \<Rightarrow> Some (block_ID b) | Some c \<Rightarrow> Some c) \<and>
       GetParent ts' (block_Parent b) = GetParent ts (block_Parent b) \<and>
       height_of ts' (block_Parent b) = height_of ts (block_Parent b) \<and>
       child_choices ts' (block_Parent b) = (case sm_sb (the (ts_blocks ts (block_Parent b))) of None \<Rightarrow> {block_ID b}
          | Some sb \<Rightarrow> if \<not> Tree_Finalized sb \<and> agree (node_DecidedPrefix (tree_node sb)) (Tree_Preference sb) (block_ID b)
              then insert (block_ID b) (child_choices ts (block_Parent b)) else child_choices ts (block_Parent b)) \<and>
       (\<forall>y. y \<noteq> block_ID b \<and> y \<noteq> block_Parent b \<longrightarrow> ts_blocks ts' y = ts_blocks ts y) \<and>
       (if Topological_Preference ts = block_Parent b
        then Topological_Preference ts' = block_ID b \<and>
          (\<forall>y. IsPreferred ts' y \<longleftrightarrow> y = block_ID b \<or> IsPreferred ts y) \<and>
          (\<forall>h. PreferenceAtHeight ts' h = (if h = block_Height b then Some (block_ID b) else PreferenceAtHeight ts h))
        else Topological_Preference ts' = Topological_Preference ts \<and> IsPreferred ts' = IsPreferred ts \<and>
          PreferenceAtHeight ts' = PreferenceAtHeight ts))"
proof -
  have inv: "topo_inv ts" "pref_inv ts" using topo_reach_inv [OF assms(1)] by blast+
  have N: "y \<in> tree_nodes ts \<longleftrightarrow> ts_blocks ts y \<noteq> None" for y using inv(1) by (auto simp: tree_nodes_def)
  have xL: "block_ID b \<noteq> ts_lastAcceptedID ts" using assms(2) by (simp add: block_fits_def)
  note c = Add_cases(1,2) [OF inv assms(2), unfolded N]
  consider "ts_blocks ts (block_ID b) \<noteq> None"
    | "ts_blocks ts (block_ID b) = None" "ts_blocks ts (block_Parent b) = None"
    | n where "ts_blocks ts (block_ID b) = None" "ts_blocks ts (block_Parent b) = Some n" by blast
  then show ?thesis
  proof cases
    case (3 n)
    note new = Add_new [OF 3]
    then have ts': "Topological_Add ts b = (ts', None)" and err: "err = None" using assms(3) by simp_all
    have "tree_part ts' = tree_part (added ts b n)" "ts_calls ts' = ts_calls ts" using new ts' by (auto simp: added_def set_pref_def tree_part_def)
    with added_tree [OF inv(1) 3 assms(2)] added_preferred [OF inv(1) 3 assms(2) ts'] topo_reach.add [OF assms(1,2) ts']
    show ?thesis using 3 err by (simp add: Processing_def)
  qed (use c xL assms(3) in \<open>simp_all add: Processing_def\<close>)
qed

theorem topo_add_exact_witness:
  "snd (Topological_Add demo_start (demo_block 2)) = None \<and>
   Topological_Preference (fst (Topological_Add demo_start (demo_block 2))) = 2 \<and>
   block_kids (fst (Topological_Add demo_start (demo_block 2))) 1 = {2} \<and>
   snd (Topological_Add demo_fork (demo_block 2)) =
     (if Processing demo_fork 2 then Some errDuplicateAdd
      else if ts_blocks demo_fork 1 = None then Some errUnknownParentBlock else None)"
proof -
  have "block_fits demo_start (demo_block 2)" using demo_start_reach by (simp add: block_fits_def demo_block_def height_of_def)
  note new = topo_add_exact [OF demo_start_reach(1) this surjective_pairing]
  have "Processing demo_start 2 = False" "ts_blocks demo_start 1 \<noteq> None" "block_kids demo_start 1 = {}" "Topological_Preference demo_start = 1"
    using demo_start_reach(2-5) by (simp_all add: Processing_def block_kids_def new_snowmanBlock_def Topological_Preference_def)
  note start = this and b = demo_block_sel [of 2]
  have err: "snd (Topological_Add demo_start (demo_block 2)) = None" using new start(1,2) unfolding b by auto
  then have "Topological_Preference (fst (Topological_Add demo_start (demo_block 2))) = 2"
    "block_kids (fst (Topological_Add demo_start (demo_block 2))) 1 = {2}" using new start(3,4) unfolding b by simp_all
  with err topo_add_exact [OF demo_reach(1,2) surjective_pairing] show ?thesis unfolding b by blast
qed

text \<open>
  C4. The log of a run: the last accepted block and its height are those of the latest \<open>Accept\<close> call (or
  of the start), each accepted block being one higher than the one before, and every processing
  block is above the last accepted height and has a parent, one lower, that is processing or the last
  accepted block.
\<close>

theorem topo_log_linear:
  assumes "topo_reach f p L H ts"
  shows "LastAccepted ts = (last (L # accepted_calls (ts_calls ts)), H + length (accepted_calls (ts_calls ts))) \<and>
    (Processing ts x \<longrightarrow> height_of ts x > snd (LastAccepted ts) \<and>
       (\<exists>q. GetParent ts x = Some q \<and> (q = fst (LastAccepted ts) \<or> Processing ts q) \<and>
          height_of ts x = Suc (height_of ts q)))"
proof -
  note r = topo_reach_inv [OF assms]
  have inv: "topo_inv ts" using r by blast
  have "height_of ts x > ts_lastAcceptedHeight ts \<and>
      (\<exists>q. GetParent ts x = Some q \<and> (q = ts_lastAcceptedID ts \<or> Processing ts q) \<and> height_of ts x = Suc (height_of ts q))"
    if "Processing ts x"
  proof -
    from that obtain n where n: "ts_blocks ts x = Some n" "x \<noteq> ts_lastAcceptedID ts"
      by (auto simp: Processing_def split: if_splits)
    have live: "\<not> ts_Decided ts n" using decided_iff [OF inv n(1)] n(2) by simp
    obtain b m where b: "sm_blk n = Some b" "ts_blocks ts (block_Parent b) = Some m"
      "height_of ts x = Suc (height_of ts (block_Parent b))" by (rule block_parent [OF inv n(1) live])
    then show ?thesis using height_above [OF inv n] n(1) by (auto simp: GetParent_def Processing_def)
  qed
  with r show ?thesis by (simp add: LastAccepted_def)
qed

theorem topo_log_linear_witness:
  "LastAccepted demo_fork =
     (last (1 # accepted_calls (ts_calls demo_fork)), length (accepted_calls (ts_calls demo_fork)))"
  using topo_log_linear [OF demo_reach(1)] by simp

text \<open>
  C2. The votes of a poll are applied transitively: the stack computed by the Kahn traversal holds,
  children first, exactly the blocks whose descendants received at least \<open>AlphaPreference\<close> votes, each
  with, for every child, the votes of the child and its descendants; and these blocks are a
  path that starts at the last accepted block.
\<close>

theorem topo_votes_transitive:
  assumes "topo_reach f p L H ts" "pop_ok pop" "bag_wf V" "Bag_Len V \<le> K p"
  shows "\<exists>ts' st. (do { ts \<leftarrow> calculateInDegree ts V; pushVotes pop ts }) = Some (ts', st) \<and>
    stack_exact ts (Bag_Count V) UNIV st \<and> vote_chain ts (rev st)"
proof -
  have r: "topo_inv ts" "params_valid (ts_params ts)" "ts_params ts = p" using topo_reach_inv [OF assms(1)] by auto
  have len: "Bag_Len V \<le> K (ts_params ts)" using assms(4) r(3) by simp
  obtain k l st where c: "(do { ts \<leftarrow> calculateInDegree ts V; pushVotes pop ts }) = Some (kahn_update ts k l, st)"
    "stack_exact ts (Bag_Count V) UNIV st" "vote_chain ts (rev st)"
    by (rule collect_ready [OF r(1) assms(2,3) r(2) len])
  then show ?thesis by blast
qed

theorem topo_votes_transitive_witness:
  "\<exists>ts' st. (do { ts \<leftarrow> calculateInDegree demo_fork (Bag_Of [2, 3, 2]); pushVotes Min ts }) = Some (ts', st) \<and>
    stack_exact demo_fork (Bag_Count (Bag_Of [2, 3, 2])) UNIV st \<and> vote_chain demo_fork (rev st)"
  using topo_votes_transitive [OF demo_reach(1) demo_env(2-4)] .

end
