(* ===== verification/Linked_List.thy ===== *)
theory Linked_List
  imports Prelude "HOL-Library.Monad_Syntax"
begin

text \<open>
  \<open>utils/linked/list.go\<close>: the doubly linked list with a sentinel node.  The elements are mutable
  objects that point to each other and to their list, so they live in an explicit heap: \<open>h_elem\<close> maps
  the addresses of the elements (the sentinels embedded in the lists included) and \<open>h_list\<close> the addresses
  of the lists.  A pointer is an optional address, \<open>None\<close> being nil; a result \<open>None\<close> of an
  operation is a nil dereference.  The lemmas show that the pointer updates implement the
  operations of functional lists, whatever else is in the heap.
\<close>

section \<open>The heap\<close>

type_synonym addr = nat

record 'a ListElement =
  el_next :: "addr option"
  el_prev :: "addr option"
  el_list :: "addr option"
  el_Value :: 'a

record List =
  ls_sentinel :: addr
  ls_length :: int

record 'a lheap =
  h_elem :: "addr \<rightharpoonup> 'a ListElement"
  h_list :: "addr \<rightharpoonup> List"
  h_fresh :: addr

text \<open>Reading and writing the fields of an object through a pointer.\<close>

definition rd :: "'a lheap \<Rightarrow> addr option \<Rightarrow> 'a ListElement option" where
  "rd h p = (case p of None \<Rightarrow> None | Some a \<Rightarrow> h_elem h a)"

definition wr :: "('a ListElement \<Rightarrow> 'a ListElement) \<Rightarrow> 'a lheap \<Rightarrow> addr option \<Rightarrow> 'a lheap option" where
  "wr f h p = (case p of None \<Rightarrow> None | Some a \<Rightarrow>
     (case h_elem h a of None \<Rightarrow> None | Some e \<Rightarrow> Some (h\<lparr>h_elem := (h_elem h)(a \<mapsto> f e)\<rparr>)))"

definition set_next :: "addr option \<Rightarrow> 'a lheap \<Rightarrow> addr option \<Rightarrow> 'a lheap option" where
  "set_next q = wr (\<lambda>e. e\<lparr>el_next := q\<rparr>)"

definition set_prev :: "addr option \<Rightarrow> 'a lheap \<Rightarrow> addr option \<Rightarrow> 'a lheap option" where
  "set_prev q = wr (\<lambda>e. e\<lparr>el_prev := q\<rparr>)"

definition set_list :: "addr option \<Rightarrow> 'a lheap \<Rightarrow> addr option \<Rightarrow> 'a lheap option" where
  "set_list q = wr (\<lambda>e. e\<lparr>el_list := q\<rparr>)"

definition set_Value :: "'a \<Rightarrow> 'a lheap \<Rightarrow> addr option \<Rightarrow> 'a lheap option" where
  "set_Value v = wr (\<lambda>e. e\<lparr>el_Value := v\<rparr>)"

definition add_length :: "int \<Rightarrow> 'a lheap \<Rightarrow> addr \<Rightarrow> 'a lheap option" where
  "add_length d h l = (case h_list h l of None \<Rightarrow> None
     | Some ls \<Rightarrow> Some (h\<lparr>h_list := (h_list h)(l \<mapsto> ls\<lparr>ls_length := ls_length ls + d\<rparr>)\<rparr>))"

text \<open>Allocating an element whose other fields are zero.\<close>

definition new_element :: "'a lheap \<Rightarrow> 'a \<Rightarrow> 'a lheap \<times> addr" where
  "new_element h v = (h\<lparr>h_elem := (h_elem h)(h_fresh h \<mapsto> \<lparr>el_next = None, el_prev = None, el_list = None, el_Value = v\<rparr>),
     h_fresh := h_fresh h + 1\<rparr>, h_fresh h)"

section \<open>The operations\<close>

definition Element_Next :: "'a lheap \<Rightarrow> addr \<Rightarrow> addr option option" where
  "Element_Next h e = do {
     el \<leftarrow> h_elem h e;
     (case el_list el of
        None \<Rightarrow> Some None
      | Some l \<Rightarrow> do { ls \<leftarrow> h_list h l; Some (if el_next el \<noteq> Some (ls_sentinel ls) then el_next el else None) }) }"

definition Element_Prev :: "'a lheap \<Rightarrow> addr \<Rightarrow> addr option option" where
  "Element_Prev h e = do {
     el \<leftarrow> h_elem h e;
     (case el_list el of
        None \<Rightarrow> Some None
      | Some l \<Rightarrow> do { ls \<leftarrow> h_list h l; Some (if el_prev el \<noteq> Some (ls_sentinel ls) then el_prev el else None) }) }"

definition NewList :: "'a lheap \<Rightarrow> 'a \<Rightarrow> 'a lheap \<times> addr" where
  "NewList h zero =
     (let s = h_fresh h; l = h_fresh h + 1
      in (h\<lparr>h_elem := (h_elem h)(s \<mapsto> \<lparr>el_next = Some s, el_prev = Some s, el_list = Some l, el_Value = zero\<rparr>),
           h_list := (h_list h)(l \<mapsto> \<lparr>ls_sentinel = s, ls_length = 0\<rparr>), h_fresh := h_fresh h + 2\<rparr>, l))"

definition List_Len :: "'a lheap \<Rightarrow> addr \<Rightarrow> int option" where
  "List_Len h l = do { ls \<leftarrow> h_list h l; Some (ls_length ls) }"

definition List_Front :: "'a lheap \<Rightarrow> addr \<Rightarrow> addr option option" where
  "List_Front h l = do {
     ls \<leftarrow> h_list h l;
     if ls_length ls = 0 then Some None else do { s \<leftarrow> h_elem h (ls_sentinel ls); Some (el_next s) } }"

definition List_Back :: "'a lheap \<Rightarrow> addr \<Rightarrow> addr option option" where
  "List_Back h l = do {
     ls \<leftarrow> h_list h l;
     if ls_length ls = 0 then Some None else do { s \<leftarrow> h_elem h (ls_sentinel ls); Some (el_prev s) } }"

definition List_Remove :: "'a lheap \<Rightarrow> addr \<Rightarrow> addr \<Rightarrow> 'a lheap option" where
  "List_Remove h l e = do {
     el \<leftarrow> h_elem h e;
     if el_list el \<noteq> Some l then Some h
     else do {
       el \<leftarrow> h_elem h e; h \<leftarrow> set_next (el_next el) h (el_prev el);
       el \<leftarrow> h_elem h e; h \<leftarrow> set_prev (el_prev el) h (el_next el);
       h \<leftarrow> set_next None h (Some e);
       h \<leftarrow> set_prev None h (Some e);
       h \<leftarrow> set_list None h (Some e);
       add_length (-1) h l } }"

definition insertAfter :: "'a lheap \<Rightarrow> addr \<Rightarrow> addr \<Rightarrow> addr option \<Rightarrow> 'a lheap option" where
  "insertAfter h l e location = do {
     el \<leftarrow> h_elem h e;
     if el_list el \<noteq> None then Some h
     else do {
       h \<leftarrow> set_prev location h (Some e);
       loc \<leftarrow> rd h location; h \<leftarrow> set_next (el_next loc) h (Some e);
       el \<leftarrow> h_elem h e; h \<leftarrow> set_next (Some e) h (el_prev el);
       el \<leftarrow> h_elem h e; h \<leftarrow> set_prev (Some e) h (el_next el);
       h \<leftarrow> set_list (Some l) h (Some e);
       add_length 1 h l } }"

definition List_PushFront :: "'a lheap \<Rightarrow> addr \<Rightarrow> addr \<Rightarrow> 'a lheap option" where
  "List_PushFront h l e = do { ls \<leftarrow> h_list h l; insertAfter h l e (Some (ls_sentinel ls)) }"

definition List_PushBack :: "'a lheap \<Rightarrow> addr \<Rightarrow> addr \<Rightarrow> 'a lheap option" where
  "List_PushBack h l e = do {
     ls \<leftarrow> h_list h l; s \<leftarrow> h_elem h (ls_sentinel ls); insertAfter h l e (el_prev s) }"

definition List_InsertBefore :: "'a lheap \<Rightarrow> addr \<Rightarrow> addr \<Rightarrow> addr \<Rightarrow> 'a lheap option" where
  "List_InsertBefore h l e location = do {
     loc \<leftarrow> h_elem h location;
     if el_list loc = Some l then insertAfter h l e (el_prev loc) else Some h }"

definition List_InsertAfter :: "'a lheap \<Rightarrow> addr \<Rightarrow> addr \<Rightarrow> addr \<Rightarrow> 'a lheap option" where
  "List_InsertAfter h l e location = do {
     loc \<leftarrow> h_elem h location;
     if el_list loc = Some l then insertAfter h l e (Some location) else Some h }"

definition moveAfter :: "'a lheap \<Rightarrow> addr \<Rightarrow> addr \<Rightarrow> addr option \<Rightarrow> 'a lheap option" where
  "moveAfter h l e location = do {
     el \<leftarrow> h_elem h e;
     if el_list el \<noteq> Some l then Some h
     else do {
       loc \<leftarrow> rd h location;
       if el_list loc \<noteq> Some l \<or> Some e = location then Some h
       else do {
         el \<leftarrow> h_elem h e; h \<leftarrow> set_next (el_next el) h (el_prev el);
         el \<leftarrow> h_elem h e; h \<leftarrow> set_prev (el_prev el) h (el_next el);
         h \<leftarrow> set_prev location h (Some e);
         loc \<leftarrow> rd h location; h \<leftarrow> set_next (el_next loc) h (Some e);
         el \<leftarrow> h_elem h e; h \<leftarrow> set_next (Some e) h (el_prev el);
         el \<leftarrow> h_elem h e; set_prev (Some e) h (el_next el) } } }"

definition List_MoveToFront :: "'a lheap \<Rightarrow> addr \<Rightarrow> addr \<Rightarrow> 'a lheap option" where
  "List_MoveToFront h l e = do {
     ls \<leftarrow> h_list h l; s \<leftarrow> h_elem h (ls_sentinel ls);
     if Some e \<noteq> el_next s then moveAfter h l e (Some (ls_sentinel ls)) else Some h }"

definition List_MoveToBack :: "'a lheap \<Rightarrow> addr \<Rightarrow> addr \<Rightarrow> 'a lheap option" where
  "List_MoveToBack h l e = do {
     ls \<leftarrow> h_list h l; s \<leftarrow> h_elem h (ls_sentinel ls); moveAfter h l e (el_prev s) }"

definition List_MoveBefore :: "'a lheap \<Rightarrow> addr \<Rightarrow> addr \<Rightarrow> addr \<Rightarrow> 'a lheap option" where
  "List_MoveBefore h l e location =
     (if e \<noteq> location then do { loc \<leftarrow> h_elem h location; moveAfter h l e (el_prev loc) } else Some h)"

definition List_MoveAfter :: "'a lheap \<Rightarrow> addr \<Rightarrow> addr \<Rightarrow> addr \<Rightarrow> 'a lheap option" where
  "List_MoveAfter h l e location = moveAfter h l e (Some location)"

text \<open>The functions of the package that allocate the element.\<close>

definition linked_PushFront :: "'a lheap \<Rightarrow> addr \<Rightarrow> 'a \<Rightarrow> 'a lheap option" where
  "linked_PushFront h l v = (let (h, e) = new_element h v in List_PushFront h l e)"

definition linked_PushBack :: "'a lheap \<Rightarrow> addr \<Rightarrow> 'a \<Rightarrow> 'a lheap option" where
  "linked_PushBack h l v = (let (h, e) = new_element h v in List_PushBack h l e)"

definition linked_InsertBefore :: "'a lheap \<Rightarrow> addr \<Rightarrow> 'a \<Rightarrow> addr \<Rightarrow> 'a lheap option" where
  "linked_InsertBefore h l v location = (let (h, e) = new_element h v in List_InsertBefore h l e location)"

definition linked_InsertAfter :: "'a lheap \<Rightarrow> addr \<Rightarrow> 'a \<Rightarrow> addr \<Rightarrow> 'a lheap option" where
  "linked_InsertAfter h l v location = (let (h, e) = new_element h v in List_InsertAfter h l e location)"

section \<open>Abstraction to lists\<close>

text \<open>The fields of the elements as maps of the heap, and the writes as total updates.\<close>

definition nx :: "'a lheap \<Rightarrow> addr \<Rightarrow> addr option" where
  "nx h a = (case h_elem h a of None \<Rightarrow> None | Some e \<Rightarrow> el_next e)"

definition pv :: "'a lheap \<Rightarrow> addr \<Rightarrow> addr option" where
  "pv h a = (case h_elem h a of None \<Rightarrow> None | Some e \<Rightarrow> el_prev e)"

definition ow :: "'a lheap \<Rightarrow> addr \<Rightarrow> addr option" where
  "ow h a = (case h_elem h a of None \<Rightarrow> None | Some e \<Rightarrow> el_list e)"

definition vl :: "'a lheap \<Rightarrow> addr \<Rightarrow> 'a option" where
  "vl h a = map_option el_Value (h_elem h a)"

definition upd :: "('a ListElement \<Rightarrow> 'a ListElement) \<Rightarrow> 'a lheap \<Rightarrow> addr \<Rightarrow> 'a lheap" where
  "upd f h a = h\<lparr>h_elem := (h_elem h)(a := map_option f (h_elem h a))\<rparr>"

definition upd_len :: "int \<Rightarrow> 'a lheap \<Rightarrow> addr \<Rightarrow> 'a lheap" where
  "upd_len d h l = h\<lparr>h_list := (h_list h)(l := map_option (\<lambda>ls. ls\<lparr>ls_length := ls_length ls + d\<rparr>) (h_list h l))\<rparr>"

lemma wr_upd: "wr f h (Some a) = (if h_elem h a = None then None else Some (upd f h a))"
  by (auto simp: wr_def upd_def split: option.splits)

lemma add_length_upd: "add_length d h l = (if h_list h l = None then None else Some (upd_len d h l))"
  by (auto simp: add_length_def upd_len_def split: option.splits)

lemma upd_simps [simp]:
  "h_elem (upd f h a) = (h_elem h)(a := map_option f (h_elem h a))" "h_list (upd f h a) = h_list h" "h_fresh (upd f h a) = h_fresh h"
  "h_elem (upd_len d h l) = h_elem h" "h_fresh (upd_len d h l) = h_fresh h"
  "h_list (upd_len d h l) = (h_list h)(l := map_option (\<lambda>ls. ls\<lparr>ls_length := ls_length ls + d\<rparr>) (h_list h l))"
  by (simp_all add: upd_def upd_len_def)

text \<open>Two heaps with the same fields; \<open>alters\<close> says how an operation changes the pointers.\<close>

definition alters :: "'a lheap \<Rightarrow> (addr \<Rightarrow> addr option) \<Rightarrow> (addr \<Rightarrow> addr option) \<Rightarrow> (addr \<Rightarrow> addr option) \<Rightarrow>
    (addr \<rightharpoonup> List) \<Rightarrow> 'a lheap \<Rightarrow> bool" where
  "alters h n p o' ls h' \<longleftrightarrow> nx h' = n \<and> pv h' = p \<and> ow h' = o' \<and> vl h' = vl h \<and> h_list h' = ls \<and>
     h_fresh h' = h_fresh h \<and> dom (h_elem h') = dom (h_elem h)"

text \<open>A ring of elements through the sentinel \<open>s\<close>, in terms of the next and the previous pointers.\<close>

definition link :: "(addr \<Rightarrow> addr option) \<Rightarrow> (addr \<Rightarrow> addr option) \<Rightarrow> addr \<Rightarrow> addr \<Rightarrow> bool" where
  "link n p a b \<longleftrightarrow> n a = Some b \<and> p b = Some a"

definition ring :: "(addr \<Rightarrow> addr option) \<Rightarrow> (addr \<Rightarrow> addr option) \<Rightarrow> addr \<Rightarrow> addr list \<Rightarrow> bool" where
  "ring n p s xs \<longleftrightarrow> distinct (s # xs) \<and> successively (link n p) (s # xs @ [s])"

definition list_at :: "'a lheap \<Rightarrow> addr \<Rightarrow> addr \<Rightarrow> addr list \<Rightarrow> bool" where
  "list_at h l s xs \<longleftrightarrow> h_list h l = Some \<lparr>ls_sentinel = s, ls_length = int (length xs)\<rparr> \<and>
     ring (nx h) (pv h) s xs \<and> (\<forall>x. ow h x = Some l \<longleftrightarrow> x \<in> set (s # xs))"

lemma ow_elem: "ow h x = Some l \<Longrightarrow> \<exists>e. h_elem h x = Some e \<and> el_list e = Some l \<and> nx h x = el_next e \<and> pv h x = el_prev e"
  by (auto simp: ow_def nx_def pv_def split: option.splits)

lemma successively_change:
  "successively (link n p) xs \<Longrightarrow> (\<And>a. a \<in> set (butlast xs) \<Longrightarrow> n' a = n a) \<Longrightarrow> (\<And>b. b \<in> set (tl xs) \<Longrightarrow> p' b = p b) \<Longrightarrow>
   successively (link n' p') xs"
proof (induction xs rule: induct_list012)
  case (3 x y zs)
  have "successively (link n' p') (y # zs)" using "3.prems" by (intro "3.IH"(2)) simp_all
  moreover have "link n' p' x y" using "3.prems" by (simp add: link_def)
  ultimately show ?case by simp
qed simp_all

lemma ring_split:
  assumes "ring n p s (as @ bs)"
  shows "link n p (last (s # as)) (hd (bs @ [s]))" "successively (link n p) (s # as)" "successively (link n p) (bs @ [s])"
proof -
  have "s # (as @ bs) @ [s] = (s # as) @ (bs @ [s])" by simp
  with assms have "successively (link n p) (s # as) \<and> successively (link n p) (bs @ [s]) \<and>
      link n p (last (s # as)) (hd (bs @ [s]))"
    unfolding ring_def by (metis list.distinct(1) snoc_eq_iff_butlast successively_append_iff)
  then show "link n p (last (s # as)) (hd (bs @ [s]))" "successively (link n p) (s # as)" "successively (link n p) (bs @ [s])" by simp_all
qed

lemma ring_join:
  assumes "distinct (s # as @ bs)" "successively (link n p) (s # as)" "successively (link n p) (bs @ [s])"
    "link n p (last (s # as)) (hd (bs @ [s]))"
  shows "ring n p s (as @ bs)"
proof -
  have "s # (as @ bs) @ [s] = (s # as) @ (bs @ [s])" by simp
  with assms show ?thesis
    unfolding ring_def by (metis list.distinct(1) snoc_eq_iff_butlast successively_append_iff)
qed

lemma ring_frame:
  assumes "ring n p s xs" "\<And>x. x \<in> set (s # xs) \<Longrightarrow> n' x = n x" "\<And>x. x \<in> set (s # xs) \<Longrightarrow> p' x = p x"
  shows "ring n' p' s xs"
proof -
  have sub: "set (butlast (s # xs @ [s])) = set (s # xs)" "set (tl (s # xs @ [s])) = set (s # xs)" by (auto simp: butlast_append)
  have "successively (link n p) (s # xs @ [s])" using assms(1) by (simp add: ring_def)
  then have "successively (link n' p') (s # xs @ [s])"
    by (rule successively_change) (use assms(2,3) in \<open>simp_all only: sub\<close>)
  then show ?thesis using assms(1) by (simp add: ring_def)
qed

lemma ring_ends:
  assumes "distinct (s # as @ bs)"
  shows "last (s # as) \<in> set (s # as)" "last (s # as) \<notin> set bs" "last (s # as) \<notin> set (butlast (s # as))"
    "hd (bs @ [s]) \<in> set (s # bs)" "hd (bs @ [s]) \<notin> set as" "hd (bs @ [s]) \<notin> set (tl (bs @ [s]))"
proof -
  have d: "distinct (s # as)" using assms by auto
  then have "distinct (butlast (s # as) @ [last (s # as)])" by (metis append_butlast_last_id list.distinct(1))
  then show "last (s # as) \<notin> set (butlast (s # as))" by simp
  show "last (s # as) \<in> set (s # as)" by (rule last_in_set) simp
  then show "last (s # as) \<notin> set bs" using assms by auto
  show "hd (bs @ [s]) \<in> set (s # bs)" "hd (bs @ [s]) \<notin> set as" "hd (bs @ [s]) \<notin> set (tl (bs @ [s]))"
    using assms by (cases bs; auto)+
qed

text \<open>Linking the two neighbours of an element with each other, and linking an element in between
  two neighbours.\<close>

lemma ring_unlink:
  assumes r: "ring n p s (as @ e # bs)"
    and n': "\<And>a. a \<noteq> e \<Longrightarrow> n' a = (n(last (s # as) \<mapsto> hd (bs @ [s]))) a"
    and p': "\<And>a. a \<noteq> e \<Longrightarrow> p' a = (p(hd (bs @ [s]) \<mapsto> last (s # as))) a"
  shows "ring n' p' s (as @ bs)"
proof -
  have d: "distinct (s # as @ bs)" "e \<notin> set (s # as @ bs)" using r by (auto simp: ring_def)
  note E = ring_ends [OF d(1)]
  have r1: "successively (link n p) (s # as)" using ring_split(2) [OF r] .
  have r2: "successively (link n p) (bs @ [s])" using ring_split(3) [OF r] by (cases bs) simp_all
  have e: "e \<noteq> last (s # as)" "e \<noteq> hd (bs @ [s])" using E(1,4) d(2) by auto
  show ?thesis
  proof (rule ring_join [OF d(1)])
    show "successively (link n' p') (s # as)"
    proof (rule successively_change [OF r1])
      show "n' a = n a" if "a \<in> set (butlast (s # as))" for a
        using that E(3) d(2) in_set_butlastD [OF that] by (subst n') (auto split: if_splits)
      show "p' b = p b" if "b \<in> set (tl (s # as))" for b using that E(5) d(2) by (subst p') auto
    qed
    show "successively (link n' p') (bs @ [s])"
    proof (rule successively_change [OF r2])
      show "n' a = n a" if "a \<in> set (butlast (bs @ [s]))" for a using that E(2) d(2) by (subst n') auto
      show "p' b = p b" if "b \<in> set (tl (bs @ [s]))" for b
        using that E(6) d(2) list.set_sel(2) [of "bs @ [s]" b] by (subst p') auto
    qed
    show "link n' p' (last (s # as)) (hd (bs @ [s]))" using e n' p' by (simp add: link_def)
  qed
qed

lemma ring_link:
  assumes r: "ring n p s (as @ bs)" and e: "e \<notin> set (s # as @ bs)"
    and n': "n' = n(last (s # as) \<mapsto> e, e \<mapsto> hd (bs @ [s]))" and p': "p' = p(e \<mapsto> last (s # as), hd (bs @ [s]) \<mapsto> e)"
  shows "ring n' p' s (as @ e # bs)"
proof -
  have d: "distinct (s # as @ bs)" using r by (simp add: ring_def)
  note E = ring_ends [OF d]
  have ne: "e \<noteq> last (s # as)" "e \<noteq> hd (bs @ [s])" using E(1,4) e by auto
  show ?thesis
  proof (rule ring_join)
    show "distinct (s # as @ e # bs)" using d e by auto
    show "successively (link n' p') (s # as)"
    proof (rule successively_change [OF ring_split(2) [OF r]])
      show "n' a = n a" if "a \<in> set (butlast (s # as))" for a
        using that E(3) e in_set_butlastD [OF that] by (auto simp: n')
      show "p' b = p b" if "b \<in> set (tl (s # as))" for b using that E(5) e by (auto simp: p')
    qed
    have "successively (link n' p') (bs @ [s])"
    proof (rule successively_change [OF ring_split(3) [OF r]])
      show "n' a = n a" if "a \<in> set (butlast (bs @ [s]))" for a using that E(2) e by (auto simp: n')
      show "p' b = p b" if "b \<in> set (tl (bs @ [s]))" for b
        using that E(6) e list.set_sel(2) [of "bs @ [s]" b] by (auto simp: p')
    qed
    moreover have "link n' p' e (hd (bs @ [s]))" using ne by (simp add: link_def n' p')
    ultimately show "successively (link n' p') ((e # bs) @ [s])" by (cases bs) simp_all
    show "link n' p' (last (s # as)) (hd ((e # bs) @ [s]))" using ne by (simp add: link_def n' p')
  qed
qed

section \<open>The operations implement lists\<close>

lemma upd_fields:
  assumes "h_elem h a \<noteq> None"
  shows "nx (upd (\<lambda>e. e\<lparr>el_next := q\<rparr>) h a) = (nx h)(a := q)" "pv (upd (\<lambda>e. e\<lparr>el_next := q\<rparr>) h a) = pv h"
    "ow (upd (\<lambda>e. e\<lparr>el_next := q\<rparr>) h a) = ow h" "vl (upd (\<lambda>e. e\<lparr>el_next := q\<rparr>) h a) = vl h"
    "nx (upd (\<lambda>e. e\<lparr>el_prev := q\<rparr>) h a) = nx h" "pv (upd (\<lambda>e. e\<lparr>el_prev := q\<rparr>) h a) = (pv h)(a := q)"
    "ow (upd (\<lambda>e. e\<lparr>el_prev := q\<rparr>) h a) = ow h" "vl (upd (\<lambda>e. e\<lparr>el_prev := q\<rparr>) h a) = vl h"
    "nx (upd (\<lambda>e. e\<lparr>el_list := q\<rparr>) h a) = nx h" "pv (upd (\<lambda>e. e\<lparr>el_list := q\<rparr>) h a) = pv h"
    "ow (upd (\<lambda>e. e\<lparr>el_list := q\<rparr>) h a) = (ow h)(a := q)" "vl (upd (\<lambda>e. e\<lparr>el_list := q\<rparr>) h a) = vl h"
    "dom (h_elem (upd f h a)) = dom (h_elem h)"
  using assms by (auto simp: nx_def pv_def ow_def vl_def fun_eq_iff dom_def split: option.splits)

lemma upd_len_fields:
  "nx (upd_len d h l) = nx h" "pv (upd_len d h l) = pv h" "ow (upd_len d h l) = ow h" "vl (upd_len d h l) = vl h"
  by (simp_all add: nx_def pv_def ow_def vl_def fun_eq_iff)

lemmas heap_simps = set_next_def set_prev_def set_list_def set_Value_def wr_upd add_length_upd rd_def upd_fields upd_len_fields

lemma upd_live: "h_elem (upd f h a) b = None \<longleftrightarrow> h_elem h b = None"
  by simp

lemma Remove_exec:
  assumes e: "ow h e = Some l" "nx h e = Some N" "pv h e = Some P" and live: "h_elem h N \<noteq> None" "h_elem h P \<noteq> None"
    and ne: "N \<noteq> e" "P \<noteq> e" and l: "h_list h l = Some ls"
  obtains h' where "List_Remove h l e = Some h'"
    "alters h ((nx h)(P \<mapsto> N, e := None)) ((pv h)(N \<mapsto> P, e := None)) ((ow h)(e := None))
       ((h_list h)(l \<mapsto> ls\<lparr>ls_length := ls_length ls - 1\<rparr>)) h'"
proof -
  from ow_elem [OF e(1)] e(2,3) obtain el where el: "h_elem h e = Some el" "el_list el = Some l" "el_next el = Some N" "el_prev el = Some P"
    by auto
  define h1 where "h1 = upd (\<lambda>e. e\<lparr>el_next := Some N\<rparr>) h P"
  define h2 where "h2 = upd (\<lambda>e. e\<lparr>el_prev := Some P\<rparr>) h1 N"
  define h3 where "h3 = upd (\<lambda>e. e\<lparr>el_next := None\<rparr>) h2 e"
  define h4 where "h4 = upd (\<lambda>e. e\<lparr>el_prev := None\<rparr>) h3 e"
  define h5 where "h5 = upd (\<lambda>e. e\<lparr>el_list := None\<rparr>) h4 e"
  have e1: "h_elem h1 e = Some el" using el ne by (simp add: h1_def)
  have live': "h_elem h1 N \<noteq> None" "h_elem h2 e \<noteq> None" "h_elem h3 e \<noteq> None" "h_elem h4 e \<noteq> None"
    using live el by (simp_all add: h1_def h2_def h3_def h4_def upd_live del: upd_simps(1))
  have l': "h_list h5 l = Some ls" "h_list h5 = h_list h" "h_fresh h5 = h_fresh h" using l by (simp_all add: h5_def h4_def h3_def h2_def h1_def)
  have "List_Remove h l e = Some (upd_len (-1) h5 l)"
    using el e1 live live' l'(1)
    by (simp add: List_Remove_def heap_simps h1_def [symmetric] h2_def [symmetric] h3_def [symmetric] h4_def [symmetric] h5_def [symmetric])
  moreover have "alters h ((nx h)(P \<mapsto> N, e := None)) ((pv h)(N \<mapsto> P, e := None)) ((ow h)(e := None))
       ((h_list h)(l \<mapsto> ls\<lparr>ls_length := ls_length ls - 1\<rparr>)) (upd_len (-1) h5 l)"
    using live live' el l' unfolding alters_def
    by (simp add: h5_def h4_def h3_def h2_def h1_def upd_fields upd_len_fields upd_live del: upd_simps(1))
  ultimately show thesis by (rule that)
qed

lemma insertAfter_exec:
  assumes e: "h_elem h e \<noteq> None" "ow h e = None" and loc: "nx h loc = Some N" "h_elem h loc \<noteq> None"
    and live: "h_elem h N \<noteq> None" and ne: "loc \<noteq> e" "N \<noteq> e" and l: "h_list h l = Some ls"
  obtains h' where "insertAfter h l e (Some loc) = Some h'"
    "alters h ((nx h)(loc \<mapsto> e, e \<mapsto> N)) ((pv h)(e \<mapsto> loc, N \<mapsto> e)) ((ow h)(e \<mapsto> l))
       ((h_list h)(l \<mapsto> ls\<lparr>ls_length := ls_length ls + 1\<rparr>)) h'"
proof -
  from e obtain el where el: "h_elem h e = Some el" "el_list el = None" by (auto simp: ow_def)
  from loc obtain lo where lo: "h_elem h loc = Some lo" "el_next lo = Some N" by (auto simp: nx_def)
  define h1 where "h1 = upd (\<lambda>e. e\<lparr>el_prev := Some loc\<rparr>) h e"
  define h2 where "h2 = upd (\<lambda>e. e\<lparr>el_next := Some N\<rparr>) h1 e"
  define h3 where "h3 = upd (\<lambda>x. x\<lparr>el_next := Some e\<rparr>) h2 loc"
  define h4 where "h4 = upd (\<lambda>x. x\<lparr>el_prev := Some e\<rparr>) h3 N"
  define h5 where "h5 = upd (\<lambda>e. e\<lparr>el_list := Some l\<rparr>) h4 e"
  have lo1: "h_elem h1 loc = Some lo" using lo ne by (simp add: h1_def)
  have e2: "\<exists>x. h_elem h2 e = Some x \<and> el_prev x = Some loc" using el by (simp add: h2_def h1_def)
  have e3: "\<exists>x. h_elem h3 e = Some x \<and> el_next x = Some N" using el ne by (simp add: h3_def h2_def h1_def)
  have live': "h_elem h1 e \<noteq> None" "h_elem h2 loc \<noteq> None" "h_elem h3 N \<noteq> None" "h_elem h4 e \<noteq> None"
    using live el lo by (simp_all add: h1_def h2_def h3_def h4_def upd_live del: upd_simps(1))
  have l': "h_list h5 l = Some ls" "h_list h5 = h_list h" "h_fresh h5 = h_fresh h" using l by (simp_all add: h5_def h4_def h3_def h2_def h1_def)
  have "insertAfter h l e (Some loc) = Some (upd_len 1 h5 l)"
    using el lo lo1 e2 e3 live live' l'(1)
    by (auto simp: insertAfter_def heap_simps h1_def [symmetric] h2_def [symmetric] h3_def [symmetric] h4_def [symmetric] h5_def [symmetric])
  moreover have "alters h ((nx h)(loc \<mapsto> e, e \<mapsto> N)) ((pv h)(e \<mapsto> loc, N \<mapsto> e)) ((ow h)(e \<mapsto> l))
       ((h_list h)(l \<mapsto> ls\<lparr>ls_length := ls_length ls + 1\<rparr>)) (upd_len 1 h5 l)"
    using live live' el l' lo ne unfolding alters_def
    by (simp add: h5_def h4_def h3_def h2_def h1_def upd_fields upd_len_fields upd_live fun_upd_twist del: upd_simps(1))
  ultimately show thesis by (rule that)
qed

lemma moveAfter_exec:
  assumes e: "ow h e = Some l" "nx h e = Some N" "pv h e = Some P" and loc: "ow h loc = Some l" "loc \<noteq> e"
    and M: "((nx h)(P \<mapsto> N)) loc = Some M" and live: "h_elem h N \<noteq> None" "h_elem h P \<noteq> None" "h_elem h M \<noteq> None"
    and ne: "N \<noteq> e" "P \<noteq> e" "M \<noteq> e"
  obtains h' where "moveAfter h l e (Some loc) = Some h'"
    "alters h ((nx h)(P \<mapsto> N, loc \<mapsto> e, e \<mapsto> M)) ((pv h)(N \<mapsto> P, e \<mapsto> loc, M \<mapsto> e)) (ow h) (h_list h) h'"
proof -
  from ow_elem [OF e(1)] e(2,3) obtain el where el: "h_elem h e = Some el" "el_list el = Some l" "el_next el = Some N" "el_prev el = Some P"
    by auto
  from ow_elem [OF loc(1)] obtain lo where lo: "h_elem h loc = Some lo" "el_list lo = Some l" by auto
  define h1 where "h1 = upd (\<lambda>e. e\<lparr>el_next := Some N\<rparr>) h P"
  define h2 where "h2 = upd (\<lambda>e. e\<lparr>el_prev := Some P\<rparr>) h1 N"
  define h3 where "h3 = upd (\<lambda>e. e\<lparr>el_prev := Some loc\<rparr>) h2 e"
  define h4 where "h4 = upd (\<lambda>e. e\<lparr>el_next := Some M\<rparr>) h3 e"
  define h5 where "h5 = upd (\<lambda>x. x\<lparr>el_next := Some e\<rparr>) h4 loc"
  define h6 where "h6 = upd (\<lambda>x. x\<lparr>el_prev := Some e\<rparr>) h5 M"
  have e1: "h_elem h1 e = Some el" using el ne by (simp add: h1_def)
  have live': "h_elem h1 N \<noteq> None" "h_elem h2 e \<noteq> None" "h_elem h3 e \<noteq> None" "h_elem h4 loc \<noteq> None" "h_elem h5 M \<noteq> None"
    using live el lo by (simp_all add: h1_def h2_def h3_def h4_def h5_def upd_live del: upd_simps(1))
  have nx3: "nx h3 loc = Some M" using M live live' by (simp add: h3_def h2_def h1_def upd_fields upd_live del: upd_simps(1))
  then have lo3: "\<exists>x. h_elem h3 loc = Some x \<and> el_next x = Some M" by (auto simp: nx_def split: option.splits)
  have e3: "\<exists>x. h_elem h3 e = Some x \<and> el_prev x = Some loc" using el ne by (simp add: h3_def h2_def h1_def)
  have e4: "\<exists>x. h_elem h4 e = Some x \<and> el_prev x = Some loc" using el ne by (simp add: h4_def h3_def h2_def h1_def)
  have e5: "\<exists>x. h_elem h5 e = Some x \<and> el_next x = Some M" using el ne loc(2) by (simp add: h5_def h4_def h3_def h2_def h1_def)
  have "moveAfter h l e (Some loc) = Some h6"
    using el lo e1 lo3 e3 e4 e5 live live' loc(2)
    by (auto simp: moveAfter_def heap_simps h1_def [symmetric] h2_def [symmetric] h3_def [symmetric] h4_def [symmetric] h5_def [symmetric] h6_def [symmetric])
  moreover have "alters h ((nx h)(P \<mapsto> N, loc \<mapsto> e, e \<mapsto> M)) ((pv h)(N \<mapsto> P, e \<mapsto> loc, M \<mapsto> e)) (ow h) (h_list h) h6"
    using live live' el lo loc(2) unfolding alters_def
    by (simp add: h6_def h5_def h4_def h3_def h2_def h1_def upd_fields upd_live fun_upd_twist del: upd_simps(1))
  ultimately show thesis by (rule that)
qed

text \<open>An operation on one list keeps the values and every other list.\<close>

definition keeps :: "addr \<Rightarrow> 'a lheap \<Rightarrow> 'a lheap \<Rightarrow> bool" where
  "keeps l h h' \<longleftrightarrow> vl h' = vl h \<and> h_fresh h' = h_fresh h \<and> dom (h_elem h') = dom (h_elem h) \<and>
     (\<forall>l'. l' \<noteq> l \<longrightarrow> h_list h' l' = h_list h l') \<and>
     (\<forall>x l'. l' \<noteq> l \<longrightarrow> (ow h' x = Some l' \<longleftrightarrow> ow h x = Some l') \<and>
        (ow h x = Some l' \<longrightarrow> nx h' x = nx h x \<and> pv h' x = pv h x))"

lemma keeps_other:
  assumes "keeps l h h'" "l' \<noteq> l" "list_at h l' s ys"
  shows "list_at h' l' s ys"
proof -
  have o: "ow h x = Some l' \<longleftrightarrow> x \<in> set (s # ys)" for x using assms(3) by (simp add: list_at_def)
  have same: "nx h' x = nx h x" "pv h' x = pv h x" if "x \<in> set (s # ys)" for x
    using assms(1,2) o [of x] that unfolding keeps_def by blast+
  have "ring (nx h') (pv h') s ys"
    by (rule ring_frame [of "nx h" "pv h"]) (use assms(3) same in \<open>simp_all only: list_at_def\<close>)
  then show ?thesis using assms unfolding list_at_def keeps_def by simp
qed

lemma list_at_elem:
  assumes "list_at h l s xs" "x \<in> set (s # xs)"
  shows "h_elem h x \<noteq> None" "ow h x = Some l"
  using assms ow_elem [of h x l] by (auto simp: list_at_def)

lemma keepsI:
  assumes "list_at h l s xs" "alters h n p o' ls h'"
    and "\<And>x. x \<notin> set (s # xs) \<Longrightarrow> x \<noteq> e \<Longrightarrow> n x = nx h x \<and> p x = pv h x \<and> o' x = ow h x"
    and "\<And>x. x \<in> insert e (set (s # xs)) \<Longrightarrow> o' x = None \<or> o' x = Some l" "ow h e = None \<or> ow h e = Some l"
    and "\<And>l'. l' \<noteq> l \<Longrightarrow> ls l' = h_list h l'"
  shows "keeps l h h'"
  unfolding keeps_def
proof (intro conjI allI impI)
  fix x l'
  assume l': "l' \<noteq> l"
  have o: "ow h x = Some l" if "x \<in> set (s # xs)" using list_at_elem(2) [OF assms(1) that] .
  show "ow h' x = Some l' \<longleftrightarrow> ow h x = Some l'"
    using assms(2,5) assms(3) [of x] assms(4) [of x] o l' by (cases "x \<in> insert e (set (s # xs))") (auto simp: alters_def)
  assume x: "ow h x = Some l'"
  then have "x \<notin> insert e (set (s # xs))" using o assms(5) l' by auto
  then show "nx h' x = nx h x" "pv h' x = pv h x" using assms(2) assms(3) [of x] by (auto simp: alters_def)
qed (use assms in \<open>simp_all add: alters_def\<close>)

lemma Remove_ok:
  assumes L: "list_at h l s (as @ e # bs)"
  obtains h' where "List_Remove h l e = Some h'" "list_at h' l s (as @ bs)" "keeps l h h'" "ow h' e = None"
proof -
  let ?P = "last (s # as)" and ?N = "hd (bs @ [s])"
  have r: "ring (nx h) (pv h) s (as @ e # bs)" and ls: "h_list h l = Some \<lparr>ls_sentinel = s, ls_length = int (length (as @ e # bs))\<rparr>"
    and o: "\<And>x. ow h x = Some l \<longleftrightarrow> x \<in> set (s # as @ e # bs)" using L by (simp_all add: list_at_def)
  have d: "distinct (s # as @ bs)" "e \<notin> set (s # as @ bs)" using r by (auto simp: ring_def)
  note E = ring_ends [OF d(1)]
  have PN: "?P \<in> set (s # as @ e # bs)" "?N \<in> set (s # as @ e # bs)" "?N \<noteq> e" "?P \<noteq> e" using E(1,4) d(2) by auto
  have "link (nx h) (pv h) ?P e" using ring_split(1) [OF r] by simp
  moreover have "link (nx h) (pv h) e ?N" using ring_split(1) [of "nx h" "pv h" s "as @ [e]" bs] r by simp
  ultimately have e: "nx h e = Some ?N" "pv h e = Some ?P" by (simp_all add: link_def)
  have oe: "ow h e = Some l" using o by simp
  obtain h' where h': "List_Remove h l e = Some h'"
    "alters h ((nx h)(?P \<mapsto> ?N, e := None)) ((pv h)(?N \<mapsto> ?P, e := None)) ((ow h)(e := None))
       ((h_list h)(l \<mapsto> \<lparr>ls_sentinel = s, ls_length = int (length (as @ e # bs))\<rparr>\<lparr>ls_length := int (length (as @ e # bs)) - 1\<rparr>)) h'"
    using Remove_exec [OF oe e list_at_elem(1) [OF L PN(2)] list_at_elem(1) [OF L PN(1)] PN(3,4) ls] by auto
  show thesis
  proof (rule that [OF h'(1)])
    have "ring (nx h') (pv h') s (as @ bs)" using h'(2) by (intro ring_unlink [OF r]) (auto simp: alters_def)
    then show "list_at h' l s (as @ bs)" using h'(2) o d(2) by (auto simp: list_at_def alters_def)
    show "ow h' e = None" using h'(2) by (simp add: alters_def)
    show "keeps l h h'"
    proof (rule keepsI [OF L h'(2), of e])
      fix x
      assume "x \<notin> set (s # as @ e # bs)" "x \<noteq> e"
      moreover from this have "x \<noteq> ?P" "x \<noteq> ?N" using PN(1,2) by metis+
      ultimately show "((nx h)(?P \<mapsto> ?N, e := None)) x = nx h x \<and> ((pv h)(?N \<mapsto> ?P, e := None)) x = pv h x \<and>
        ((ow h)(e := None)) x = ow h x" by simp
    qed (use o in auto)
  qed
qed

lemma insertAfter_ok:
  assumes L: "list_at h l s (as @ bs)" and e: "h_elem h e \<noteq> None" "ow h e = None"
  obtains h' where "insertAfter h l e (Some (last (s # as))) = Some h'" "list_at h' l s (as @ e # bs)" "keeps l h h'"
proof -
  let ?P = "last (s # as)" and ?N = "hd (bs @ [s])"
  have r: "ring (nx h) (pv h) s (as @ bs)" and ls: "h_list h l = Some \<lparr>ls_sentinel = s, ls_length = int (length (as @ bs))\<rparr>"
    and o: "\<And>x. ow h x = Some l \<longleftrightarrow> x \<in> set (s # as @ bs)" using L by (simp_all add: list_at_def)
  have d: "distinct (s # as @ bs)" using r by (simp add: ring_def)
  note E = ring_ends [OF d]
  have en: "e \<notin> set (s # as @ bs)" using o [of e] e(2) by simp
  have PN: "?P \<in> set (s # as @ bs)" "?N \<in> set (s # as @ bs)" "?P \<noteq> e" "?N \<noteq> e" using E(1,4) en by auto
  have P: "nx h ?P = Some ?N" using ring_split(1) [OF r] by (simp add: link_def)
  obtain h' where h': "insertAfter h l e (Some ?P) = Some h'"
    "alters h ((nx h)(?P \<mapsto> e, e \<mapsto> ?N)) ((pv h)(e \<mapsto> ?P, ?N \<mapsto> e)) ((ow h)(e \<mapsto> l))
       ((h_list h)(l \<mapsto> \<lparr>ls_sentinel = s, ls_length = int (length (as @ bs))\<rparr>\<lparr>ls_length := int (length (as @ bs)) + 1\<rparr>)) h'"
    using insertAfter_exec [OF e P list_at_elem(1) [OF L PN(1)] list_at_elem(1) [OF L PN(2)] PN(3,4) ls] by auto
  show thesis
  proof (rule that [OF h'(1)])
    have "ring (nx h') (pv h') s (as @ e # bs)" by (rule ring_link [OF r en]) (use h'(2) in \<open>simp_all add: alters_def\<close>)
    then show "list_at h' l s (as @ e # bs)" using h'(2) o by (auto simp: list_at_def alters_def)
    show "keeps l h h'"
    proof (rule keepsI [OF L h'(2), of e])
      fix x
      assume "x \<notin> set (s # as @ bs)" "x \<noteq> e"
      moreover from this have "x \<noteq> ?P" "x \<noteq> ?N" using PN(1,2) by metis+
      ultimately show "((nx h)(?P \<mapsto> e, e \<mapsto> ?N)) x = nx h x \<and> ((pv h)(e \<mapsto> ?P, ?N \<mapsto> e)) x = pv h x \<and>
        ((ow h)(e \<mapsto> l)) x = ow h x" by simp
    qed (use o e in auto)
  qed
qed

lemma moveAfter_ok:
  assumes L: "list_at h l s (as @ e # bs)" and split: "as @ bs = cs @ ds"
  obtains h' where "moveAfter h l e (Some (last (s # cs))) = Some h'" "list_at h' l s (cs @ e # ds)" "keeps l h h'"
proof -
  let ?P = "last (s # as)" and ?N = "hd (bs @ [s])" and ?loc = "last (s # cs)" and ?M = "hd (ds @ [s])"
  have r: "ring (nx h) (pv h) s (as @ e # bs)" and ls: "h_list h l = Some \<lparr>ls_sentinel = s, ls_length = int (length (as @ e # bs))\<rparr>"
    and o: "\<And>x. ow h x = Some l \<longleftrightarrow> x \<in> set (s # as @ e # bs)" using L by (simp_all add: list_at_def)
  have d: "distinct (s # as @ bs)" "e \<notin> set (s # as @ bs)" using r by (auto simp: ring_def)
  note E = ring_ends [OF d(1)] and F = ring_ends [OF d(1) [unfolded split]]
  have sets: "set (s # as @ bs) = set (s # cs @ ds)" by (simp only: split)
  have PN: "?P \<in> set (s # as @ bs)" "?N \<in> set (s # as @ bs)" using E(1,4) by auto
  have LM: "?loc \<in> set (s # as @ bs)" "?M \<in> set (s # as @ bs)" using F(1,4) unfolding sets by auto
  have ne: "?N \<noteq> e" "?P \<noteq> e" "?M \<noteq> e" "?loc \<noteq> e" using PN LM d(2) by metis+
  have mem: "?P \<in> set (s # as @ e # bs)" "?N \<in> set (s # as @ e # bs)" "?loc \<in> set (s # as @ e # bs)" "?M \<in> set (s # as @ e # bs)"
    using PN LM by auto
  have "link (nx h) (pv h) ?P e" using ring_split(1) [OF r] by simp
  moreover have "link (nx h) (pv h) e ?N" using ring_split(1) [of "nx h" "pv h" s "as @ [e]" bs] r by simp
  ultimately have e: "nx h e = Some ?N" "pv h e = Some ?P" by (simp_all add: link_def)
  have r1: "ring ((nx h)(?P \<mapsto> ?N)) ((pv h)(?N \<mapsto> ?P)) s (cs @ ds)" unfolding split [symmetric] by (rule ring_unlink [OF r]) simp_all
  have M: "((nx h)(?P \<mapsto> ?N)) ?loc = Some ?M" using ring_split(1) [OF r1] by (simp add: link_def)
  have oe: "ow h e = Some l" using o by simp
  obtain h' where h': "moveAfter h l e (Some ?loc) = Some h'"
    "alters h ((nx h)(?P \<mapsto> ?N, ?loc \<mapsto> e, e \<mapsto> ?M)) ((pv h)(?N \<mapsto> ?P, e \<mapsto> ?loc, ?M \<mapsto> e)) (ow h) (h_list h) h'"
    using moveAfter_exec [OF oe e list_at_elem(2) [OF L mem(3)] ne(4) M list_at_elem(1) [OF L mem(2)]
      list_at_elem(1) [OF L mem(1)] list_at_elem(1) [OF L mem(4)] ne(1-3)] by auto
  show thesis
  proof (rule that [OF h'(1)])
    have en: "e \<notin> set (s # cs @ ds)" using d(2) unfolding sets .
    have "ring (nx h') (pv h') s (cs @ e # ds)" by (rule ring_link [OF r1 en]) (use h'(2) in \<open>simp_all add: alters_def\<close>)
    moreover have "length (as @ e # bs) = length (cs @ e # ds)" using arg_cong [OF split, of length] by simp
    moreover have "set (s # as @ e # bs) = insert e (set (s # as @ bs))" "set (s # cs @ e # ds) = insert e (set (s # cs @ ds))" by auto
    then have "set (s # as @ e # bs) = set (s # cs @ e # ds)" by (simp only: sets)
    moreover have "ow h' = ow h" "h_list h' = h_list h" using h'(2) by (simp_all add: alters_def)
    ultimately show "list_at h' l s (cs @ e # ds)" using o ls unfolding list_at_def by metis
    show "keeps l h h'"
    proof (rule keepsI [OF L h'(2), of e])
      fix x
      assume "x \<notin> set (s # as @ e # bs)" "x \<noteq> e"
      moreover from this have "x \<noteq> ?P" "x \<noteq> ?N" "x \<noteq> ?loc" "x \<noteq> ?M" using mem by metis+
      ultimately show "((nx h)(?P \<mapsto> ?N, ?loc \<mapsto> e, e \<mapsto> ?M)) x = nx h x \<and> ((pv h)(?N \<mapsto> ?P, e \<mapsto> ?loc, ?M \<mapsto> e)) x = pv h x \<and>
        ow h x = ow h x" by simp
    qed (use o in auto)
  qed
qed

text \<open>An operation on the list \<open>l\<close> makes it the list \<open>ys\<close> and keeps everything else.\<close>

definition implements :: "'a lheap \<Rightarrow> addr \<Rightarrow> addr \<Rightarrow> 'a lheap option \<Rightarrow> addr list \<Rightarrow> bool" where
  "implements h l s r ys \<longleftrightarrow> (\<exists>h'. r = Some h' \<and> list_at h' l s ys \<and> keeps l h h')"

lemma list_at_sentinel:
  assumes L: "list_at h l s xs"
  shows "h_list h l = Some \<lparr>ls_sentinel = s, ls_length = int (length xs)\<rparr>"
    "\<exists>e. h_elem h s = Some e \<and> el_next e = Some (hd (xs @ [s])) \<and> el_prev e = Some (last (s # xs))"
proof -
  have r: "ring (nx h) (pv h) s xs" and o: "ow h s = Some l" using L by (simp_all add: list_at_def)
  have "link (nx h) (pv h) s (hd (xs @ [s]))" using ring_split(1) [of "nx h" "pv h" s "[]" xs] r by simp
  moreover have "link (nx h) (pv h) (last (s # xs)) s" using ring_split(1) [of "nx h" "pv h" s xs "[]"] r by simp
  ultimately show "\<exists>e. h_elem h s = Some e \<and> el_next e = Some (hd (xs @ [s])) \<and> el_prev e = Some (last (s # xs))"
    using ow_elem [OF o] by (auto simp: link_def)
  show "h_list h l = Some \<lparr>ls_sentinel = s, ls_length = int (length xs)\<rparr>" using L by (simp add: list_at_def)
qed

lemma list_at_neighbours:
  assumes L: "list_at h l s (as @ e # bs)"
  shows "\<exists>el. h_elem h e = Some el \<and> el_next el = Some (hd (bs @ [s])) \<and> el_prev el = Some (last (s # as)) \<and> el_list el = Some l"
    "e \<noteq> s" "e \<notin> set as" "e \<notin> set bs"
proof -
  have r: "ring (nx h) (pv h) s (as @ e # bs)" and o: "ow h e = Some l" using L by (simp_all add: list_at_def)
  have "link (nx h) (pv h) (last (s # as)) e" using ring_split(1) [OF r] by simp
  moreover have "link (nx h) (pv h) e (hd (bs @ [s]))" using ring_split(1) [of "nx h" "pv h" s "as @ [e]" bs] r by simp
  ultimately show "\<exists>el. h_elem h e = Some el \<and> el_next el = Some (hd (bs @ [s])) \<and> el_prev el = Some (last (s # as)) \<and> el_list el = Some l"
    using ow_elem [OF o] by (auto simp: link_def)
  show "e \<noteq> s" "e \<notin> set as" "e \<notin> set bs" using r by (auto simp: ring_def)
qed

lemma List_observers:
  assumes L: "list_at h l s xs"
  shows "List_Len h l = Some (int (length xs))"
    "List_Front h l = Some (case xs of [] \<Rightarrow> None | x # _ \<Rightarrow> Some x)"
    "List_Back h l = Some (if xs = [] then None else Some (last xs))"
  using list_at_sentinel [OF L]
  by (auto simp: List_Len_def List_Front_def List_Back_def split: list.splits)

lemma Element_observers:
  assumes L: "list_at h l s (as @ e # bs)"
  shows "Element_Next h e = Some (case bs of [] \<Rightarrow> None | x # _ \<Rightarrow> Some x)"
    "Element_Prev h e = Some (if as = [] then None else Some (last as))"
proof -
  note n = list_at_neighbours [OF L] and t = list_at_sentinel(1) [OF L]
  have r: "distinct (s # as @ e # bs)" using L by (simp add: list_at_def ring_def)
  from n(1) obtain el where el: "h_elem h e = Some el" "el_next el = Some (hd (bs @ [s]))" "el_prev el = Some (last (s # as))"
    "el_list el = Some l" by blast
  show "Element_Next h e = Some (case bs of [] \<Rightarrow> None | x # _ \<Rightarrow> Some x)"
    using el t r by (cases bs) (auto simp: Element_Next_def)
  have "as \<noteq> [] \<Longrightarrow> last as \<noteq> s" using r last_in_set [of as] by auto
  then show "Element_Prev h e = Some (if as = [] then None else Some (last as))"
    using el t by (auto simp: Element_Prev_def)
qed

lemma insertAfter_implements:
  assumes "list_at h l s (as @ bs)" "h_elem h e \<noteq> None" "ow h e = None"
  shows "implements h l s (insertAfter h l e (Some (last (s # as)))) (as @ e # bs)"
  by (rule insertAfter_ok [OF assms]) (simp add: implements_def)

lemma moveAfter_implements:
  assumes "list_at h l s (as @ e # bs)" "as @ bs = cs @ ds"
  shows "implements h l s (moveAfter h l e (Some (last (s # cs)))) (cs @ e # ds)"
  by (rule moveAfter_ok [OF assms]) (simp add: implements_def)

lemma List_pushes:
  assumes L: "list_at h l s xs" and e: "h_elem h e \<noteq> None" "ow h e = None"
  shows "implements h l s (List_PushFront h l e) (e # xs)" "implements h l s (List_PushBack h l e) (xs @ [e])"
proof -
  note t = list_at_sentinel [OF L]
  show "implements h l s (List_PushFront h l e) (e # xs)"
    using insertAfter_implements [of h l s "[]" xs e] L e t(1) by (simp add: List_PushFront_def)
  show "implements h l s (List_PushBack h l e) (xs @ [e])"
    using insertAfter_implements [of h l s xs "[]" e] L e t by (auto simp del: last.simps simp: List_PushBack_def)
qed

lemma List_inserts:
  assumes L: "list_at h l s (as @ loc # bs)" and e: "h_elem h e \<noteq> None" "ow h e = None"
  shows "implements h l s (List_InsertBefore h l e loc) (as @ e # loc # bs)"
    "implements h l s (List_InsertAfter h l e loc) (as @ loc # e # bs)"
proof -
  from list_at_neighbours(1) [OF L] obtain el where el: "h_elem h loc = Some el" "el_prev el = Some (last (s # as))" "el_list el = Some l"
    by blast
  show "implements h l s (List_InsertBefore h l e loc) (as @ e # loc # bs)"
    using insertAfter_implements [of h l s as "loc # bs" e] L e el by (simp add: List_InsertBefore_def)
  show "implements h l s (List_InsertAfter h l e loc) (as @ loc # e # bs)"
    using insertAfter_implements [of h l s "as @ [loc]" bs e] L e el by (simp add: List_InsertAfter_def)
qed

lemma keeps_refl: "keeps l h h"
  by (simp add: keeps_def)

lemma List_moves:
  assumes L: "list_at h l s (as @ e # bs)"
  shows "implements h l s (List_Remove h l e) (as @ bs)"
    "implements h l s (List_MoveToFront h l e) (e # as @ bs)" "implements h l s (List_MoveToBack h l e) (as @ bs @ [e])"
proof -
  note t = list_at_sentinel [OF L] and n = list_at_neighbours [OF L]
  show "implements h l s (List_Remove h l e) (as @ bs)" by (rule Remove_ok [OF L]) (simp add: implements_def)
  show "implements h l s (List_MoveToFront h l e) (e # as @ bs)"
  proof (cases "as = []")
    case True
    then show ?thesis using t L keeps_refl by (auto simp: List_MoveToFront_def implements_def)
  next
    case False
    then have "hd (as @ e # bs) \<noteq> e" using n(3) by (cases as) auto
    then show ?thesis using False t moveAfter_implements [OF L, of "[]" "as @ bs"] by (auto simp: List_MoveToFront_def)
  qed
  show "implements h l s (List_MoveToBack h l e) (as @ bs @ [e])"
  proof (cases "bs = []")
    case True
    then have "moveAfter h l e (Some e) = Some h" using n(1) by (auto simp: moveAfter_def rd_def)
    then show ?thesis using True t L keeps_refl by (auto simp: List_MoveToBack_def implements_def)
  next
    case False
    then have "last (s # as @ e # bs) = last (s # as @ bs)" by simp
    then show ?thesis using t moveAfter_implements [OF L, of "as @ bs" "[]"] by (auto simp: List_MoveToBack_def)
  qed
qed

lemma List_relative_moves:
  assumes L: "list_at h l s (as @ e # bs)" and split: "as @ bs = cs @ loc # ds"
  shows "implements h l s (List_MoveAfter h l e loc) (cs @ loc # e # ds)"
    "implements h l s (List_MoveBefore h l e loc) (cs @ e # loc # ds)"
proof -
  show "implements h l s (List_MoveAfter h l e loc) (cs @ loc # e # ds)"
    using moveAfter_implements [OF L, of "cs @ [loc]" ds] split by (simp add: List_MoveAfter_def)
  have ne: "e \<noteq> loc" using list_at_neighbours(3,4) [OF L] arg_cong [OF split, of set] by auto
  from split consider ys where "as = cs @ loc # ys" | "cs = as" "bs = loc # ds" | y ys where "cs = as @ y # ys" "bs = y # ys @ loc # ds"
    by (auto simp: append_eq_append_conv2 append_eq_Cons_conv Cons_eq_append_conv) (metis list.exhaust)
  then show "implements h l s (List_MoveBefore h l e loc) (cs @ e # loc # ds)"
  proof cases
    case (1 ys)
    with L have "list_at h l s (cs @ loc # ys @ e # bs)" by simp
    from list_at_neighbours(1) [OF this] show ?thesis
      using moveAfter_implements [OF L split] ne by (auto simp: List_MoveBefore_def)
  next
    case 2
    with L have "list_at h l s ((as @ [e]) @ loc # ds)" by simp
    from list_at_neighbours(1) [OF this] obtain el where "h_elem h loc = Some el" "el_prev el = Some e" by auto
    moreover have "moveAfter h l e (Some e) = Some h"
      using list_at_neighbours(1) [OF L] by (auto simp: moveAfter_def rd_def)
    ultimately show ?thesis using 2 L ne keeps_refl by (auto simp: List_MoveBefore_def implements_def)
  next
    case (3 y ys)
    with L have "list_at h l s ((as @ e # y # ys) @ loc # ds)" by simp
    from list_at_neighbours(1) [OF this] obtain el where "h_elem h loc = Some el" "el_prev el = Some (last (y # ys))" by auto
    then show ?thesis using moveAfter_implements [OF L split] ne 3 by (auto simp: List_MoveBefore_def)
  qed
qed

section \<open>Allocation\<close>

definition heap_ok :: "'a lheap \<Rightarrow> bool" where
  "heap_ok h \<longleftrightarrow> (\<forall>a. h_elem h a \<noteq> None \<longrightarrow> a < h_fresh h) \<and> (\<forall>l. h_list h l \<noteq> None \<longrightarrow> l < h_fresh h) \<and>
     (\<forall>x l. ow h x = Some l \<longrightarrow> h_list h l \<noteq> None)"

lemma new_element_ok:
  fixes h :: "'a lheap" and v :: 'a
  assumes "heap_ok h"
  defines "h' \<equiv> fst (new_element h v)" and "e \<equiv> snd (new_element h v)"
  shows "h_elem h' e \<noteq> None" "ow h' e = None" "vl h' = (vl h)(e \<mapsto> v)" "heap_ok h'" "e \<notin> dom (h_elem h)"
    "list_at h l s xs \<Longrightarrow> list_at h' l s xs"
proof -
  have fresh: "h_elem h (h_fresh h) = None" using assms(1) by (auto simp: heap_ok_def)
  show "h_elem h' e \<noteq> None" "ow h' e = None" "vl h' = (vl h)(e \<mapsto> v)" "e \<notin> dom (h_elem h)"
    using fresh by (auto simp: h'_def e_def new_element_def ow_def vl_def fun_eq_iff)
  have fields: "nx h' = nx h" "pv h' = pv h" "ow h' = ow h" "h_list h' = h_list h" "h_fresh h' = Suc (h_fresh h)"
    using fresh by (auto simp: h'_def new_element_def nx_def pv_def ow_def fun_eq_iff)
  show "list_at h l s xs \<Longrightarrow> list_at h' l s xs" by (simp add: list_at_def fields)
  have "a < Suc (h_fresh h)" if "h_elem h' a \<noteq> None" for a
    using that assms(1) by (cases "a = h_fresh h") (auto simp: h'_def new_element_def heap_ok_def less_Suc_eq)
  then show "heap_ok h'" using assms(1) unfolding heap_ok_def fields by (auto simp: less_Suc_eq)
qed

lemma NewList_ok:
  fixes h :: "'a lheap" and zero :: 'a
  assumes "heap_ok h"
  defines "h' \<equiv> fst (NewList h zero)" and "l \<equiv> snd (NewList h zero)"
  shows "list_at h' l (h_fresh h) []" "heap_ok h'" "l' \<noteq> l \<Longrightarrow> list_at h l' s xs \<Longrightarrow> list_at h' l' s xs"
proof -
  let ?s = "h_fresh h"
  have fresh: "h_elem h ?s = None" "h_list h (Suc ?s) = None" "\<And>x. ow h x \<noteq> Some (Suc ?s)"
    using assms(1) unfolding heap_ok_def by (metis lessI not_less_iff_gr_or_eq)+
  have h': "nx h' = (nx h)(?s \<mapsto> ?s)" "pv h' = (pv h)(?s \<mapsto> ?s)" "ow h' = (ow h)(?s \<mapsto> Suc ?s)" "h_fresh h' = ?s + 2"
    "h_list h' = (h_list h)(Suc ?s \<mapsto> \<lparr>ls_sentinel = ?s, ls_length = 0\<rparr>)" "l = Suc ?s"
    "dom (h_elem h') = insert ?s (dom (h_elem h))"
    by (auto simp: h'_def l_def NewList_def Let_def nx_def pv_def ow_def fun_eq_iff)
  show "list_at h' l ?s []" using fresh by (simp add: list_at_def ring_def link_def h')
  have "a < h_fresh h'" if "h_elem h' a \<noteq> None" for a
  proof -
    have "a \<in> insert ?s (dom (h_elem h))" using that h'(7) by blast
    then show ?thesis using assms(1) h'(4) unfolding heap_ok_def by fastforce
  qed
  then show "heap_ok h'" using assms(1) unfolding heap_ok_def h' by auto
  show "list_at h' l' s xs" if "l' \<noteq> l" "list_at h l' s xs"
  proof -
    have o: "\<And>x. ow h x = Some l' \<longleftrightarrow> x \<in> set (s # xs)" using that(2) by (simp add: list_at_def)
    have "?s \<notin> set (s # xs)" using list_at_elem(1) [OF that(2)] fresh(1) by metis
    then have same: "nx h' x = nx h x" "pv h' x = pv h x" if "x \<in> set (s # xs)" for x
      using that unfolding h'(1,2) by (metis fun_upd_other)+
    have "ring (nx h') (pv h') s xs"
      by (rule ring_frame [of "nx h" "pv h"]) (use that(2) same in \<open>simp_all only: list_at_def\<close>)
    moreover have "ow h' x = Some l' \<longleftrightarrow> x \<in> set (s # xs)" for x
      using o [of x] that(1) fresh(1) h'(6) by (auto simp: h'(3) ow_def)
    moreover have "h_list h' l' = h_list h l'" using that(1) by (simp add: h'(5,6))
    ultimately show ?thesis using that(2) unfolding list_at_def by simp
  qed
qed

section \<open>The guards\<close>

text \<open>A client holds a pointer to an element: an element in no list has nil pointers, and an element
  of a list is one of its elements (the sentinels are private to their lists).\<close>

definition client :: "'a lheap \<Rightarrow> addr \<Rightarrow> bool" where
  "client h e \<longleftrightarrow> h_elem h e \<noteq> None \<and> (case ow h e of None \<Rightarrow> nx h e = None \<and> pv h e = None
     | Some l \<Rightarrow> \<exists>s xs. list_at h l s xs \<and> e \<in> set xs)"

text \<open>The list operations that the methods implement.\<close>

definition list_insert_before :: "'a \<Rightarrow> 'a \<Rightarrow> 'a list \<Rightarrow> 'a list" where
  "list_insert_before e loc xs = takeWhile (\<lambda>x. x \<noteq> loc) xs @ e # dropWhile (\<lambda>x. x \<noteq> loc) xs"

definition list_insert_after :: "'a \<Rightarrow> 'a \<Rightarrow> 'a list \<Rightarrow> 'a list" where
  "list_insert_after e loc xs = takeWhile (\<lambda>x. x \<noteq> loc) xs @ loc # e # tl (dropWhile (\<lambda>x. x \<noteq> loc) xs)"

definition list_next :: "'a \<Rightarrow> 'a list \<Rightarrow> 'a option" where
  "list_next e xs = (case tl (dropWhile (\<lambda>x. x \<noteq> e) xs) of [] \<Rightarrow> None | x # _ \<Rightarrow> Some x)"

definition list_prev :: "'a \<Rightarrow> 'a list \<Rightarrow> 'a option" where
  "list_prev e xs = (let ys = takeWhile (\<lambda>x. x \<noteq> e) xs in if e \<notin> set xs \<or> ys = [] then None else Some (last ys))"

lemma while_split:
  assumes "e \<notin> set as"
  shows "takeWhile (\<lambda>x. x \<noteq> e) (as @ e # bs) = as" "dropWhile (\<lambda>x. x \<noteq> e) (as @ e # bs) = e # bs"
    "remove1 e (as @ e # bs) = as @ bs"
proof -
  have "x \<noteq> e" if "x \<in> set as" for x using assms that by blast
  then show "takeWhile (\<lambda>x. x \<noteq> e) (as @ e # bs) = as" "dropWhile (\<lambda>x. x \<noteq> e) (as @ e # bs) = e # bs"
    by (simp_all add: takeWhile_append2 dropWhile_append2)
  show "remove1 e (as @ e # bs) = as @ bs" using assms by (simp add: remove1_append)
qed

lemmas list_ops = list_insert_before_def list_insert_after_def list_next_def list_prev_def while_split

lemma list_at_unique:
  assumes "list_at h l s xs" "list_at h l s' ys"
  shows "set xs = set ys"
proof -
  have "s = s'" "distinct (s # xs)" "distinct (s' # ys)" "\<And>x. x \<in> set (s # xs) \<longleftrightarrow> x \<in> set (s' # ys)"
    using assms unfolding list_at_def ring_def by auto
  then show ?thesis by (metis distinct.simps(2) set_ConsD list.set_intros(2) subsetI subset_antisym)
qed

lemma list_at_client:
  assumes "list_at h l s xs" "client h e"
  shows "ow h e = Some l \<longleftrightarrow> e \<in> set xs" "h_elem h e \<noteq> None"
proof -
  show "h_elem h e \<noteq> None" using assms(2) by (simp add: client_def)
  show "ow h e = Some l \<longleftrightarrow> e \<in> set xs"
  proof
    assume "ow h e = Some l"
    then obtain s' ys where "list_at h l s' ys" "e \<in> set ys" using assms(2) by (auto simp: client_def)
    then show "e \<in> set xs" using list_at_unique [OF assms(1)] by blast
  qed (use list_at_elem(2) [OF assms(1)] in simp)
qed

lemma implements_same: "list_at h l s xs \<Longrightarrow> implements h l s (Some h) xs"
  by (simp add: implements_def keeps_refl)

text \<open>An element of another list, or of no list, is not removed or moved.\<close>

lemma foreign_element:
  assumes L: "list_at h l s xs" and e: "h_elem h e \<noteq> None" "ow h e \<noteq> Some l"
  shows "List_Remove h l e = Some h" "moveAfter h l e p = Some h" "List_MoveToFront h l e = Some h"
    "List_MoveToBack h l e = Some h"
proof -
  show "List_Remove h l e = Some h" and m: "moveAfter h l e p = Some h" for p
    using e by (auto simp: List_Remove_def moveAfter_def ow_def)
  show "List_MoveToFront h l e = Some h" "List_MoveToBack h l e = Some h"
    using list_at_sentinel [OF L] m by (auto simp: List_MoveToFront_def List_MoveToBack_def)
qed

text \<open>An element that is in a list already is not inserted.\<close>

lemma owned_element:
  assumes L: "list_at h l s xs" and e: "ow h e \<noteq> None"
  shows "insertAfter h l e p = Some h" "List_PushFront h l e = Some h" "List_PushBack h l e = Some h"
proof -
  show i: "insertAfter h l e p = Some h" for p
    using e by (auto simp: insertAfter_def ow_def split: option.splits)
  show "List_PushFront h l e = Some h" "List_PushBack h l e = Some h"
    using list_at_sentinel [OF L] i by (auto simp: List_PushFront_def List_PushBack_def)
qed

text \<open>An element of another list, or of no list, is no location.\<close>

lemma foreign_location:
  assumes "h_elem h loc \<noteq> None" "ow h loc \<noteq> Some l"
  shows "List_InsertBefore h l e loc = Some h" "List_InsertAfter h l e loc = Some h"
    "h_elem h e \<noteq> None \<Longrightarrow> List_MoveAfter h l e loc = Some h"
  using assms by (auto simp: List_InsertBefore_def List_InsertAfter_def List_MoveAfter_def moveAfter_def rd_def ow_def)

text \<open>\<open>MoveBefore\<close> reads the element before the location: in another list that element is one of the
  other list, or its sentinel; an element in no list has none.\<close>

lemma MoveBefore_foreign:
  assumes L: "list_at h l s xs" and e: "e \<in> set xs" and loc: "client h loc" "loc \<notin> set xs"
  shows "List_MoveBefore h l e loc = (if ow h loc = None then None else Some h)"
proof -
  have ne: "e \<noteq> loc" using e loc(2) by auto
  obtain el lc where el: "h_elem h e = Some el" "el_list el = Some l" and lc: "h_elem h loc = Some lc"
    using list_at_elem [OF L, of e] e list_at_client(2) [OF L loc(1)] by (auto simp: ow_def)
  show ?thesis
  proof (cases "ow h loc")
    case None
    then have "el_prev lc = None" using loc(1) lc by (simp add: client_def pv_def)
    then show ?thesis using None ne el lc by (simp add: List_MoveBefore_def moveAfter_def rd_def)
  next
    case (Some l')
    then obtain s' ys where L': "list_at h l' s' ys" "loc \<in> set ys" using loc(1) by (auto simp: client_def)
    from split_list [OF L'(2)] obtain as bs where ys: "ys = as @ loc # bs" by blast
    have "l' \<noteq> l" using Some list_at_client(1) [OF L loc(1)] loc(2) by auto
    moreover have "el_prev lc = Some (last (s' # as))" using list_at_neighbours(1) [of h l' s' as loc bs] L'(1) ys lc by auto
    moreover have "last (s' # as) \<in> set (s' # ys)" using last_in_set [of "s' # as"] ys by auto
    then have "h_elem h (last (s' # as)) \<noteq> None" "ow h (last (s' # as)) = Some l'" using list_at_elem [OF L'(1)] by blast+
    ultimately show ?thesis using Some ne el lc
      by (auto simp: List_MoveBefore_def moveAfter_def rd_def ow_def simp del: last.simps)
  qed
qed

lemma client_moves:
  assumes L: "list_at h l s xs" and e: "client h e"
  shows "implements h l s (List_Remove h l e) (remove1 e xs)"
    "implements h l s (List_MoveToFront h l e) (if e \<in> set xs then e # remove1 e xs else xs)"
    "implements h l s (List_MoveToBack h l e) (if e \<in> set xs then remove1 e xs @ [e] else xs)"
proof -
  consider as bs where "xs = as @ e # bs" "e \<notin> set as" | "e \<notin> set xs" using split_list_first [of e xs] by blast
  then have "implements h l s (List_Remove h l e) (remove1 e xs) \<and>
    implements h l s (List_MoveToFront h l e) (if e \<in> set xs then e # remove1 e xs else xs) \<and>
    implements h l s (List_MoveToBack h l e) (if e \<in> set xs then remove1 e xs @ [e] else xs)"
  proof cases
    case 1
    then show ?thesis using List_moves [of h l s as e bs] L by (simp add: while_split)
  next
    case 2
    then show ?thesis using foreign_element [OF L] list_at_client [OF L e] implements_same [OF L]
      by (simp add: remove1_idem)
  qed
  then show "implements h l s (List_Remove h l e) (remove1 e xs)"
    "implements h l s (List_MoveToFront h l e) (if e \<in> set xs then e # remove1 e xs else xs)"
    "implements h l s (List_MoveToBack h l e) (if e \<in> set xs then remove1 e xs @ [e] else xs)" by blast+
qed

lemma client_inner_moves:
  assumes L: "list_at h l s xs" and e: "e \<in> set xs" "loc \<in> set xs" "e \<noteq> loc"
  shows "implements h l s (List_MoveAfter h l e loc) (list_insert_after e loc (remove1 e xs))"
    "implements h l s (List_MoveBefore h l e loc) (list_insert_before e loc (remove1 e xs))"
proof -
  from split_list_first [OF e(1)] obtain as bs where xs: "xs = as @ e # bs" "e \<notin> set as" by blast
  then have "loc \<in> set (as @ bs)" using e(2,3) by auto
  from split_list_first [OF this] obtain cs ds where split: "as @ bs = cs @ loc # ds" "loc \<notin> set cs" by blast
  note m = List_relative_moves [OF L [unfolded xs(1)] split(1)]
  have "remove1 e xs = cs @ loc # ds" using xs split(1) by (simp add: while_split)
  then show "implements h l s (List_MoveAfter h l e loc) (list_insert_after e loc (remove1 e xs))"
    "implements h l s (List_MoveBefore h l e loc) (list_insert_before e loc (remove1 e xs))"
    using m split(2) by (simp_all add: list_ops)
qed

lemma client_relative_moves:
  assumes L: "list_at h l s xs" and c: "client h e" "client h loc"
  shows "implements h l s (List_MoveAfter h l e loc)
      (if e \<in> set xs \<and> loc \<in> set xs \<and> e \<noteq> loc then list_insert_after e loc (remove1 e xs) else xs)"
    "if e \<in> set xs \<and> ow h loc = None then List_MoveBefore h l e loc = None
     else implements h l s (List_MoveBefore h l e loc)
       (if e \<in> set xs \<and> loc \<in> set xs \<and> e \<noteq> loc then list_insert_before e loc (remove1 e xs) else xs)"
proof -
  note E = list_at_client [OF L c(1)] and C = list_at_client [OF L c(2)] and same = implements_same [OF L]
  consider "e \<notin> set xs" | "e \<in> set xs" "loc \<notin> set xs" | "e \<in> set xs" "e = loc" | "e \<in> set xs" "loc \<in> set xs" "e \<noteq> loc" by blast
  then have "implements h l s (List_MoveAfter h l e loc)
      (if e \<in> set xs \<and> loc \<in> set xs \<and> e \<noteq> loc then list_insert_after e loc (remove1 e xs) else xs) \<and>
    (if e \<in> set xs \<and> ow h loc = None then List_MoveBefore h l e loc = None
     else implements h l s (List_MoveBefore h l e loc)
       (if e \<in> set xs \<and> loc \<in> set xs \<and> e \<noteq> loc then list_insert_before e loc (remove1 e xs) else xs))"
  proof cases
    case 1
    then have m: "moveAfter h l e p = Some h" for p using E foreign_element(2) [OF L] by blast
    from C(2) obtain lc where lc: "h_elem h loc = Some lc" by blast
    show ?thesis using 1 same by (simp add: List_MoveAfter_def List_MoveBefore_def m lc)
  next
    case 2
    have o: "ow h loc \<noteq> Some l" using C(1) 2(2) by blast
    show ?thesis using foreign_location(3) [OF C(2) o E(2)] MoveBefore_foreign [OF L 2(1) c(2) 2(2)] 2 same by simp
  next
    case 3
    have "moveAfter h l e (Some e) = Some h" using E 3 by (auto simp: moveAfter_def rd_def ow_def)
    moreover have "ow h e = Some l" using E(1) 3(1) by blast
    ultimately show ?thesis using 3 same by (simp add: List_MoveAfter_def List_MoveBefore_def)
  next
    case 4
    moreover have "ow h loc = Some l" using C(1) 4(2) by blast
    ultimately show ?thesis using client_inner_moves [OF L 4] by simp
  qed
  then show "implements h l s (List_MoveAfter h l e loc)
      (if e \<in> set xs \<and> loc \<in> set xs \<and> e \<noteq> loc then list_insert_after e loc (remove1 e xs) else xs)"
    "if e \<in> set xs \<and> ow h loc = None then List_MoveBefore h l e loc = None
     else implements h l s (List_MoveBefore h l e loc)
       (if e \<in> set xs \<and> loc \<in> set xs \<and> e \<noteq> loc then list_insert_before e loc (remove1 e xs) else xs)" by blast+
qed

lemma client_inserts:
  assumes L: "list_at h l s xs" and c: "client h e" "client h loc"
  shows "implements h l s (List_PushFront h l e) (if ow h e = None then e # xs else xs)"
    "implements h l s (List_PushBack h l e) (if ow h e = None then xs @ [e] else xs)"
    "implements h l s (List_InsertBefore h l e loc) (if ow h e = None \<and> loc \<in> set xs then list_insert_before e loc xs else xs)"
    "implements h l s (List_InsertAfter h l e loc) (if ow h e = None \<and> loc \<in> set xs then list_insert_after e loc xs else xs)"
proof -
  note E = list_at_client(2) [OF L c(1)] and C = list_at_client [OF L c(2)] and same = implements_same [OF L]
  show "implements h l s (List_PushFront h l e) (if ow h e = None then e # xs else xs)"
    "implements h l s (List_PushBack h l e) (if ow h e = None then xs @ [e] else xs)"
    using List_pushes [OF L E] owned_element(2,3) [OF L] same by auto
  consider as bs where "ow h e = None" "xs = as @ loc # bs" "loc \<notin> set as" | "ow h e \<noteq> None" | "loc \<notin> set xs"
    using split_list_first [of loc xs] by blast
  then have "implements h l s (List_InsertBefore h l e loc)
      (if ow h e = None \<and> loc \<in> set xs then list_insert_before e loc xs else xs) \<and>
    implements h l s (List_InsertAfter h l e loc) (if ow h e = None \<and> loc \<in> set xs then list_insert_after e loc xs else xs)"
  proof cases
    case 1
    then show ?thesis using List_inserts [of h l s as loc bs e] L E by (simp add: list_ops)
  next
    case 2
    obtain lc where "h_elem h loc = Some lc" using C(2) by blast
    then show ?thesis using 2 same owned_element(1) [OF L 2] by (auto simp: List_InsertBefore_def List_InsertAfter_def)
  next
    case 3
    then have "ow h loc \<noteq> Some l" using C(1) by blast
    then show ?thesis using 3 same foreign_location(1,2) [OF C(2)] by simp
  qed
  then show "implements h l s (List_InsertBefore h l e loc) (if ow h e = None \<and> loc \<in> set xs then list_insert_before e loc xs else xs)"
    "implements h l s (List_InsertAfter h l e loc) (if ow h e = None \<and> loc \<in> set xs then list_insert_after e loc xs else xs)"
    by blast+
qed

lemma client_observers:
  assumes L: "list_at h l s xs" and e: "client h e" "ow h e = Some l \<or> ow h e = None"
  shows "Element_Next h e = Some (list_next e xs)" "Element_Prev h e = Some (list_prev e xs)"
proof -
  note E = list_at_client [OF L e(1)]
  consider as bs where "xs = as @ e # bs" "e \<notin> set as" | "e \<notin> set xs" using split_list_first [of e xs] by blast
  then have "Element_Next h e = Some (list_next e xs) \<and> Element_Prev h e = Some (list_prev e xs)"
  proof cases
    case 1
    then show ?thesis using Element_observers [of h l s as e bs] L by (simp add: list_ops Let_def split: list.splits)
  next
    case 2
    then have o: "ow h e = None" using e(2) E(1) by blast
    obtain el where el: "h_elem h e = Some el" using E(2) by blast
    have "list_next e xs = None" using 2 unfolding list_next_def by (induction xs) auto
    then show ?thesis using 2 o el by (simp add: Element_Next_def Element_Prev_def list_prev_def ow_def)
  qed
  then show "Element_Next h e = Some (list_next e xs)" "Element_Prev h e = Some (list_prev e xs)" by blast+
qed

section \<open>The property\<close>

text \<open>
  C22. The pointer operations of the linked list implement the operations of lists, on a list of any
  length, for any elements \<open>e\<close> and \<open>loc\<close> that a client holds: each is in this list, in another list or
  in none. Removing and moving \<open>e\<close> change the list exactly when \<open>e\<close> is in it (and, for the moves
  relative to \<open>loc\<close>, when \<open>loc\<close> is another element of it), pushing and inserting \<open>e\<close> exactly when
  \<open>e\<close> is in no list (and \<open>loc\<close> is in this one), and all values and all other lists of the heap are
  kept. No operation dereferences nil but one: \<open>MoveBefore\<close> does when \<open>e\<close> is in the list and \<open>loc\<close> in
  no list. The observers return the length, the ends (nil for the empty list), and the neighbours of
  an element of the list (nil at the ends, and nil for an element in no list).
\<close>

theorem linked_list_implements_lists:
  assumes "list_at h l s xs" "client h e" "client h loc"
  shows "implements h l s (List_Remove h l e) (remove1 e xs) \<and>
    implements h l s (List_MoveToFront h l e) (if e \<in> set xs then e # remove1 e xs else xs) \<and>
    implements h l s (List_MoveToBack h l e) (if e \<in> set xs then remove1 e xs @ [e] else xs) \<and>
    implements h l s (List_MoveAfter h l e loc)
      (if e \<in> set xs \<and> loc \<in> set xs \<and> e \<noteq> loc then list_insert_after e loc (remove1 e xs) else xs) \<and>
    (if e \<in> set xs \<and> ow h loc = None then List_MoveBefore h l e loc = None
     else implements h l s (List_MoveBefore h l e loc)
       (if e \<in> set xs \<and> loc \<in> set xs \<and> e \<noteq> loc then list_insert_before e loc (remove1 e xs) else xs)) \<and>
    implements h l s (List_PushFront h l e) (if ow h e = None then e # xs else xs) \<and>
    implements h l s (List_PushBack h l e) (if ow h e = None then xs @ [e] else xs) \<and>
    implements h l s (List_InsertBefore h l e loc)
      (if ow h e = None \<and> loc \<in> set xs then list_insert_before e loc xs else xs) \<and>
    implements h l s (List_InsertAfter h l e loc)
      (if ow h e = None \<and> loc \<in> set xs then list_insert_after e loc xs else xs) \<and>
    (ow h e = Some l \<or> ow h e = None \<longrightarrow>
      Element_Next h e = Some (list_next e xs) \<and> Element_Prev h e = Some (list_prev e xs)) \<and>
    List_Len h l = Some (int (length xs)) \<and>
    List_Front h l = Some (if xs = [] then None else Some (hd xs)) \<and>
    List_Back h l = Some (if xs = [] then None else Some (last xs))"
proof -
  note m = client_moves [OF assms(1,2)] client_relative_moves [OF assms] client_inserts [OF assms]
  have f: "List_Front h l = Some (if xs = [] then None else Some (hd xs))"
    using List_observers(2) [OF assms(1)] by (simp split: list.splits)
  show ?thesis
    by (intro conjI impI m f List_observers(1,3) [OF assms(1)] client_observers [OF assms(1,2)])
qed

text \<open>A heap with a list of two elements, a list of one element, an empty list and a free element.\<close>

definition demo_heap :: "nat lheap" where
  "demo_heap = \<lparr>h_elem = [0 \<mapsto> \<lparr>el_next = Some 2, el_prev = Some 3, el_list = Some 1, el_Value = 0\<rparr>,
       2 \<mapsto> \<lparr>el_next = Some 3, el_prev = Some 0, el_list = Some 1, el_Value = 7\<rparr>,
       3 \<mapsto> \<lparr>el_next = Some 0, el_prev = Some 2, el_list = Some 1, el_Value = 8\<rparr>,
       4 \<mapsto> \<lparr>el_next = None, el_prev = None, el_list = None, el_Value = 9\<rparr>,
       5 \<mapsto> \<lparr>el_next = Some 7, el_prev = Some 7, el_list = Some 6, el_Value = 0\<rparr>,
       7 \<mapsto> \<lparr>el_next = Some 5, el_prev = Some 5, el_list = Some 6, el_Value = 1\<rparr>,
       8 \<mapsto> \<lparr>el_next = Some 8, el_prev = Some 8, el_list = Some 9, el_Value = 0\<rparr>],
     h_list = [1 \<mapsto> \<lparr>ls_sentinel = 0, ls_length = 2\<rparr>, 6 \<mapsto> \<lparr>ls_sentinel = 5, ls_length = 1\<rparr>,
       9 \<mapsto> \<lparr>ls_sentinel = 8, ls_length = 0\<rparr>], h_fresh = 10\<rparr>"

lemma demo_heap_lists:
  "list_at demo_heap 1 0 [2, 3]" "list_at demo_heap 6 5 [7]" "list_at demo_heap 9 8 []" "client demo_heap 4"
  by (auto simp: list_at_def ring_def link_def nx_def pv_def ow_def client_def demo_heap_def split: if_splits option.splits)

lemma demo_heap_clients: "client demo_heap 2" "client demo_heap 3" "client demo_heap 7"
proof -
  have "ow demo_heap 2 = Some 1" "ow demo_heap 3 = Some 1" "ow demo_heap 7 = Some 6"
    "h_elem demo_heap 2 \<noteq> None" "h_elem demo_heap 3 \<noteq> None" "h_elem demo_heap 7 \<noteq> None"
    by (simp_all add: demo_heap_def ow_def)
  moreover have "2 \<in> set [2, 3 :: nat]" "3 \<in> set [2, 3 :: nat]" "7 \<in> set [7 :: nat]" by simp_all
  ultimately show "client demo_heap 2" "client demo_heap 3" "client demo_heap 7"
    using demo_heap_lists(1,2) unfolding client_def option.case by fastforce+
qed

theorem linked_list_implements_lists_witness:
  "implements demo_heap 1 0 (List_Remove demo_heap 1 2) [3] \<and> implements demo_heap 1 0 (List_MoveAfter demo_heap 1 2 3) [3, 2] \<and>
   implements demo_heap 1 0 (List_InsertBefore demo_heap 1 4 2) [4, 2, 3] \<and> List_MoveBefore demo_heap 1 2 4 = None \<and>
   implements demo_heap 6 5 (List_Remove demo_heap 6 7) [] \<and> implements demo_heap 6 5 (List_Remove demo_heap 6 2) [7] \<and>
   implements demo_heap 9 8 (List_PushBack demo_heap 9 4) [4] \<and> List_Front demo_heap 9 = Some None"
proof -
  note th = linked_list_implements_lists and L = demo_heap_lists(1-3) and C = demo_heap_lists(4) demo_heap_clients
  have o: "ow demo_heap 4 = None" by (simp add: demo_heap_def ow_def)
  have "implements demo_heap 1 0 (List_Remove demo_heap 1 2) [3]" "implements demo_heap 1 0 (List_MoveAfter demo_heap 1 2 3) [3, 2]"
    using th [OF L(1) C(2,3)] by (simp_all add: list_insert_after_def)
  moreover have "implements demo_heap 1 0 (List_InsertBefore demo_heap 1 4 2) [4, 2, 3]"
    using th [OF L(1) C(1,2)] o by (simp add: list_insert_before_def)
  moreover have "List_MoveBefore demo_heap 1 2 4 = None" using th [OF L(1) C(2,1)] o by simp
  moreover have "implements demo_heap 6 5 (List_Remove demo_heap 6 7) []" using th [OF L(2) C(4,1)] by simp
  moreover have "implements demo_heap 6 5 (List_Remove demo_heap 6 2) [7]" using th [OF L(2) C(2,1)] by simp
  moreover have "implements demo_heap 9 8 (List_PushBack demo_heap 9 4) [4]" "List_Front demo_heap 9 = Some None"
    using th [OF L(3) C(1,1)] o by simp_all
  ultimately show ?thesis by blast
qed

end
