(* ===== verification/Linked_Hashmap.thy ===== *)
theory Linked_Hashmap
  imports Linked_List
begin

text \<open>
  \<open>utils/linked/hashmap.go\<close>: the hash map that remembers the insertion order of its keys, on top of the
  linked list of its entries, with a free list of elements to reuse.  The locale \<open>ordered_map\<close> is the
  interface the clients rely on, and its interpretation shows that the pointer structure
  provides it.
\<close>

section \<open>The map\<close>

record 'k Hashmap =
  lh_entryMap :: "'k \<rightharpoonup> addr"
  lh_entryList :: addr
  lh_freeList :: "addr list"

type_synonym ('k, 'v) hheap = "('k \<times> 'v) lheap"

fun new_elements :: "('k, 'v) hheap \<Rightarrow> 'k \<times> 'v \<Rightarrow> nat \<Rightarrow> ('k, 'v) hheap \<times> addr list" where
  "new_elements h zero 0 = (h, [])"
| "new_elements h zero (Suc n) = (let (h, e) = new_element h zero; (h, es) = new_elements h zero n in (h, e # es))"

definition NewHashmapWithSize :: "('k, 'v) hheap \<Rightarrow> 'k \<times> 'v \<Rightarrow> nat \<Rightarrow> ('k, 'v) hheap \<times> 'k Hashmap" where
  "NewHashmapWithSize h zero initialSize =
     (let (h, l) = NewList h zero; (h, free) = new_elements h zero initialSize
      in (h, \<lparr>lh_entryMap = Map.empty, lh_entryList = l, lh_freeList = free\<rparr>))"

definition NewHashmap :: "('k, 'v) hheap \<Rightarrow> 'k \<times> 'v \<Rightarrow> ('k, 'v) hheap \<times> 'k Hashmap" where
  "NewHashmap h zero = NewHashmapWithSize h zero 0"

definition Hashmap_Put :: "'k \<times> 'v \<Rightarrow> ('k, 'v) hheap \<Rightarrow> 'k Hashmap \<Rightarrow> 'k \<Rightarrow> 'v \<Rightarrow> (('k, 'v) hheap \<times> 'k Hashmap) option" where
  "Hashmap_Put zero h lh key v =
     (case lh_entryMap lh key of
        Some e \<Rightarrow> do {
          h \<leftarrow> List_MoveToBack h (lh_entryList lh) e;
          h \<leftarrow> set_Value (key, v) h (Some e);
          Some (h, lh) }
      | None \<Rightarrow>
          let (h, lh, e) =
            (if lh_freeList lh \<noteq> []
             then (h, lh\<lparr>lh_freeList := butlast (lh_freeList lh)\<rparr>, last (lh_freeList lh))
             else let (h, e) = new_element h zero in (h, lh, e))
          in do {
            h \<leftarrow> set_Value (key, v) h (Some e);
            h \<leftarrow> List_PushBack h (lh_entryList lh) e;
            Some (h, lh\<lparr>lh_entryMap := (lh_entryMap lh)(key \<mapsto> e)\<rparr>) })"

definition Hashmap_Get :: "('k, 'v) hheap \<Rightarrow> 'k Hashmap \<Rightarrow> 'k \<Rightarrow> 'v option option" where
  "Hashmap_Get h lh key =
     (case lh_entryMap lh key of
        Some e \<Rightarrow> do { el \<leftarrow> h_elem h e; Some (Some (snd (el_Value el))) }
      | None \<Rightarrow> Some None)"

definition Hashmap_remove :: "'k \<times> 'v \<Rightarrow> ('k, 'v) hheap \<Rightarrow> 'k Hashmap \<Rightarrow> addr \<Rightarrow> (('k, 'v) hheap \<times> 'k Hashmap) option" where
  "Hashmap_remove zero h lh e = do {
     el \<leftarrow> h_elem h e;
     h \<leftarrow> List_Remove h (lh_entryList lh) e;
     h \<leftarrow> set_Value zero h (Some e);
     Some (h, lh\<lparr>lh_entryMap := (lh_entryMap lh)(fst (el_Value el) := None), lh_freeList := lh_freeList lh @ [e]\<rparr>) }"

definition Hashmap_Delete :: "'k \<times> 'v \<Rightarrow> ('k, 'v) hheap \<Rightarrow> 'k Hashmap \<Rightarrow> 'k \<Rightarrow> (('k, 'v) hheap \<times> 'k Hashmap \<times> bool) option" where
  "Hashmap_Delete zero h lh key =
     (case lh_entryMap lh key of
        Some e \<Rightarrow> do { (h, lh) \<leftarrow> Hashmap_remove zero h lh e; Some (h, lh, True) }
      | None \<Rightarrow> Some (h, lh, False))"

text \<open>\<open>order\<close> is the order in which the Go map yields its elements.\<close>

fun Hashmap_Clear :: "'k \<times> 'v \<Rightarrow> ('k, 'v) hheap \<Rightarrow> 'k Hashmap \<Rightarrow> addr list \<Rightarrow> (('k, 'v) hheap \<times> 'k Hashmap) option" where
  "Hashmap_Clear zero h lh [] = Some (h, lh)"
| "Hashmap_Clear zero h lh (e # order) = do { (h, lh) \<leftarrow> Hashmap_remove zero h lh e; Hashmap_Clear zero h lh order }"

definition Hashmap_Len :: "'k Hashmap \<Rightarrow> int" where
  "Hashmap_Len lh = int (card (dom (lh_entryMap lh)))"

definition Hashmap_Oldest :: "('k, 'v) hheap \<Rightarrow> 'k Hashmap \<Rightarrow> ('k \<times> 'v) option option" where
  "Hashmap_Oldest h lh = do {
     e \<leftarrow> List_Front h (lh_entryList lh);
     (case e of None \<Rightarrow> Some None | Some e \<Rightarrow> do { el \<leftarrow> h_elem h e; Some (Some (el_Value el)) }) }"

definition Hashmap_Newest :: "('k, 'v) hheap \<Rightarrow> 'k Hashmap \<Rightarrow> ('k \<times> 'v) option option" where
  "Hashmap_Newest h lh = do {
     e \<leftarrow> List_Back h (lh_entryList lh);
     (case e of None \<Rightarrow> Some None | Some e \<Rightarrow> do { el \<leftarrow> h_elem h e; Some (Some (el_Value el)) }) }"

section \<open>The iterator\<close>

record ('k, 'v) Iterator =
  it_keyValue :: "'k \<times> 'v"
  it_next :: "addr option"
  it_initialized :: bool
  it_exhausted :: bool

definition NewIterator :: "'k \<times> 'v \<Rightarrow> ('k, 'v) Iterator" where
  "NewIterator zero = \<lparr>it_keyValue = zero, it_next = None, it_initialized = False, it_exhausted = False\<rparr>"

definition Iterator_Next :: "'k \<times> 'v \<Rightarrow> ('k, 'v) hheap \<Rightarrow> 'k Hashmap \<Rightarrow> ('k, 'v) Iterator \<Rightarrow> (('k, 'v) Iterator \<times> bool) option" where
  "Iterator_Next zero h lh it =
     (let done = (\<lambda>it. it\<lparr>it_keyValue := zero, it_next := None\<rparr>);
          advance = (\<lambda>it. case it_next it of
             None \<Rightarrow> None
           | Some a \<Rightarrow> do {
               el \<leftarrow> h_elem h a;
               n \<leftarrow> Element_Next h a;
               Some (it\<lparr>it_keyValue := el_Value el, it_next := n, it_exhausted := n = None\<rparr>, True) })
      in if it_exhausted it then Some (done it, False)
         else if \<not> it_initialized it then do {
           oldest \<leftarrow> List_Front h (lh_entryList lh);
           (case oldest of
              None \<Rightarrow> Some (done (it\<lparr>it_initialized := True, it_exhausted := True\<rparr>), False)
            | Some a \<Rightarrow> advance (it\<lparr>it_initialized := True, it_next := Some a\<rparr>)) }
         else advance it)"

section \<open>Abstraction\<close>

definition hm_at :: "('k, 'v) hheap \<Rightarrow> 'k Hashmap \<Rightarrow> addr \<Rightarrow> addr list \<Rightarrow> ('k \<times> 'v) list \<Rightarrow> bool" where
  "hm_at h lh s xs kvs \<longleftrightarrow> heap_ok h \<and> list_at h (lh_entryList lh) s xs \<and> map (vl h) xs = map Some kvs \<and>
     distinct (map fst kvs) \<and> lh_entryMap lh = map_of (zip (map fst kvs) xs) \<and> distinct (lh_freeList lh) \<and>
     (\<forall>e \<in> set (lh_freeList lh). h_elem h e \<noteq> None \<and> ow h e = None)"

definition hm_rep :: "('k, 'v) hheap \<times> 'k Hashmap \<Rightarrow> ('k \<times> 'v) list \<Rightarrow> bool" where
  "hm_rep st kvs \<longleftrightarrow> (\<exists>s xs. hm_at (fst st) (snd st) s xs kvs)"

lemma keeps_frame:
  assumes k: "keeps l h h'" and ok: "heap_ok h" and L0: "list_at h l s xs" and L: "list_at h' l s ys"
  shows "heap_ok h'" "ow h x = None \<Longrightarrow> x \<notin> set (s # ys) \<Longrightarrow> ow h' x = None" "vl h' = vl h"
    "h_elem h' x = None \<longleftrightarrow> h_elem h x = None"
proof -
  have d: "dom (h_elem h') = dom (h_elem h)" and f: "h_fresh h' = h_fresh h"
    and hl: "\<And>l'. l' \<noteq> l \<Longrightarrow> h_list h' l' = h_list h l'"
    and o: "\<And>x l'. l' \<noteq> l \<Longrightarrow> ow h' x = Some l' \<longleftrightarrow> ow h x = Some l'" using k by (auto simp: keeps_def)
  show live: "h_elem h' x = None \<longleftrightarrow> h_elem h x = None" for x using d by blast
  show "vl h' = vl h" using k by (simp add: keeps_def)
  have members: "ow h' x = Some l \<longleftrightarrow> x \<in> set (s # ys)" for x using L by (simp add: list_at_def)
  show "ow h' x = None" if "ow h x = None" "x \<notin> set (s # ys)"
    using members [of x] that o [of _ x] by (cases "ow h' x") auto
  have lists: "h_list h l \<noteq> None" "h_list h' l \<noteq> None" using L0 L by (simp_all add: list_at_def)
  then have same: "h_list h' l' = None \<longleftrightarrow> h_list h l' = None" for l' using hl [of l'] by (cases "l' = l") auto
  have "h_list h l' \<noteq> None" if "ow h' x = Some l'" for x l'
    using that lists(1) o [of l' x] ok by (cases "l' = l") (auto simp: heap_ok_def)
  then show "heap_ok h'" using ok by (simp add: heap_ok_def live f same)
qed

text \<open>Writing the value of an element.\<close>

lemma set_Value_ok:
  assumes "h_elem h e \<noteq> None"
  obtains h' where "set_Value v h (Some e) = Some h'" "vl h' = (vl h)(e \<mapsto> v)"
    "\<And>l s xs. list_at h' l s xs = list_at h l s xs" "heap_ok h' = heap_ok h" "ow h' = ow h"
    "\<And>x. h_elem h' x = None \<longleftrightarrow> h_elem h x = None"
proof -
  let ?h = "upd (\<lambda>e. e\<lparr>el_Value := v\<rparr>) h e"
  have f: "nx ?h = nx h" "pv ?h = pv h" "ow ?h = ow h"
    using assms by (auto simp: nx_def pv_def ow_def fun_eq_iff split: option.splits)
  have live: "h_elem ?h x = None \<longleftrightarrow> h_elem h x = None" for x by simp
  show thesis
  proof (rule that [of ?h])
    show "set_Value v h (Some e) = Some ?h" using assms by (simp add: set_Value_def wr_upd)
    show "vl ?h = (vl h)(e \<mapsto> v)" using assms by (auto simp: vl_def fun_eq_iff)
    show "list_at ?h l s xs = list_at h l s xs" for l s xs by (simp add: list_at_def f)
    show "heap_ok ?h = heap_ok h" unfolding heap_ok_def f live by simp
  qed (use f live in auto)
qed

lemma map_of_zip_move:
  assumes "length ks = length xs" "length ks' = length xs'" "distinct (ks @ k # ks')"
  shows "map_of (zip (ks @ ks' @ [k]) (xs @ xs' @ [e])) = map_of (zip (ks @ k # ks') (xs @ e # xs'))"
proof (rule map_of_inject_set [THEN iffD2])
  show "distinct (map fst (zip (ks @ ks' @ [k]) (xs @ xs' @ [e])))" "distinct (map fst (zip (ks @ k # ks') (xs @ e # xs')))"
    using assms by simp_all
  show "set (zip (ks @ ks' @ [k]) (xs @ xs' @ [e])) = set (zip (ks @ k # ks') (xs @ e # xs'))" using assms by auto
qed

lemma hm_lookup:
  assumes "hm_at h lh s xs kvs"
  shows "length xs = length kvs" "lh_entryMap lh k = None \<longleftrightarrow> k \<notin> fst ` set kvs"
    "lh_entryMap lh k = Some e \<Longrightarrow> \<exists>ka kb as bs v. kvs = ka @ (k, v) # kb \<and> xs = as @ e # bs \<and> length ka = length as \<and>
       length kb = length bs \<and> vl h e = Some (k, v) \<and> map (vl h) as = map Some ka \<and> map (vl h) bs = map Some kb"
proof -
  have m: "map (vl h) xs = map Some kvs" "lh_entryMap lh = map_of (zip (map fst kvs) xs)" using assms by (simp_all add: hm_at_def)
  show len: "length xs = length kvs" using m(1) by (metis length_map)
  show "lh_entryMap lh k = None \<longleftrightarrow> k \<notin> fst ` set kvs" using len by (simp add: m(2) map_of_zip_is_None)
  assume "lh_entryMap lh k = Some e"
  then have "(k, e) \<in> set (zip (map fst kvs) xs)" by (simp add: m(2) map_of_SomeD)
  then obtain i where i: "i < length kvs" "fst (kvs ! i) = k" "xs ! i = e" using len by (auto simp: in_set_zip)
  have v: "vl h e = Some (kvs ! i)" using m(1) i len by (metis nth_map)
  have kvs: "kvs = take i kvs @ (k, snd (kvs ! i)) # drop (Suc i) kvs"
    using i by (metis id_take_nth_drop prod.collapse)
  have xs: "xs = take i xs @ e # drop (Suc i) xs" using i len by (metis id_take_nth_drop)
  have "map (vl h) (take i xs) = map Some (take i kvs)" "map (vl h) (drop (Suc i) xs) = map Some (drop (Suc i) kvs)"
    using m(1) by (metis take_map, metis drop_map)
  with kvs xs v i len show "\<exists>ka kb as bs v. kvs = ka @ (k, v) # kb \<and> xs = as @ e # bs \<and> length ka = length as \<and>
       length kb = length bs \<and> vl h e = Some (k, v) \<and> map (vl h) as = map Some ka \<and> map (vl h) bs = map Some kb"
    by (intro exI [of _ "take i kvs"] exI [of _ "drop (Suc i) kvs"] exI [of _ "take i xs"] exI [of _ "drop (Suc i) xs"]
        exI [of _ "snd (kvs ! i)"]) auto
qed

definition drop_key :: "'k \<Rightarrow> ('k \<times> 'v) list \<Rightarrow> ('k \<times> 'v) list" where
  "drop_key k kvs = filter (\<lambda>e. fst e \<noteq> k) kvs"

lemma drop_key_split: "distinct (map fst (ka @ (k, v) # kb)) \<Longrightarrow> drop_key k (ka @ (k, v) # kb) = ka @ kb"
proof -
  assume "distinct (map fst (ka @ (k, v) # kb))"
  then have "\<forall>e \<in> set ka. fst e \<noteq> k" "\<forall>e \<in> set kb. fst e \<noteq> k" by (force simp: image_iff)+
  then show ?thesis by (simp add: drop_key_def filter_id_conv)
qed

lemma drop_key_absent: "k \<notin> fst ` set kvs \<Longrightarrow> drop_key k kvs = kvs"
  by (force simp: drop_key_def filter_id_conv image_iff)

lemma free_outside:
  "list_at h l s xs \<Longrightarrow> ow h x = None \<Longrightarrow> x \<notin> set (s # xs)"
  using list_at_elem(2) [of h l s xs x] by auto

lemma Put_existing:
  assumes hm: "hm_at h lh s xs kvs" and e: "lh_entryMap lh k = Some e"
  obtains h' xs' where "Hashmap_Put zero h lh k v = Some (h', lh)" "hm_at h' lh s xs' (drop_key k kvs @ [(k, v)])"
proof -
  from hm_lookup(3) [OF hm e] obtain ka kb as bs w where sp: "kvs = ka @ (k, w) # kb" "xs = as @ e # bs"
    "length ka = length as" "length kb = length bs" "map (vl h) as = map Some ka" "map (vl h) bs = map Some kb" by blast
  have H: "heap_ok h" "list_at h (lh_entryList lh) s xs" "distinct (map fst kvs)"
    "lh_entryMap lh = map_of (zip (map fst kvs) xs)" "distinct (lh_freeList lh)"
    "\<And>f. f \<in> set (lh_freeList lh) \<Longrightarrow> h_elem h f \<noteq> None \<and> ow h f = None" using hm by (simp_all add: hm_at_def)
  from List_moves(3) [OF H(2) [unfolded sp]] obtain h1 where h1: "List_MoveToBack h (lh_entryList lh) e = Some h1"
    "list_at h1 (lh_entryList lh) s (as @ bs @ [e])" "keeps (lh_entryList lh) h h1" by (auto simp: implements_def)
  note F = keeps_frame [OF h1(3) H(1,2) h1(2)]
  have "h_elem h1 e \<noteq> None" using list_at_elem(1) [OF h1(2)] by simp
  from set_Value_ok [OF this, of "(k, v)"] obtain h2 where h2: "set_Value (k, v) h1 (Some e) = Some h2"
    "vl h2 = (vl h1)(e \<mapsto> (k, v))" "\<And>l s xs. list_at h2 l s xs = list_at h1 l s xs" "heap_ok h2 = heap_ok h1" "ow h2 = ow h1"
    "\<And>x. h_elem h2 x = None \<longleftrightarrow> h_elem h1 x = None" by metis
  have ne: "e \<notin> set as" "e \<notin> set bs" using list_at_neighbours(3,4) [OF H(2) [unfolded sp]] .
  have out: "f \<notin> set (s # as @ bs @ [e])" if "f \<in> set (lh_freeList lh)" for f
    using free_outside [OF H(2)] H(6) [OF that] sp(2) by auto
  have dk: "drop_key k kvs @ [(k, v)] = ka @ kb @ [(k, v)]" using drop_key_split [of ka k w kb] H(3) unfolding sp(1) by simp
  show thesis
  proof (rule that)
    show "Hashmap_Put zero h lh k v = Some (h2, lh)" using e h1(1) h2(1) by (simp add: Hashmap_Put_def)
    have "map (vl h2) (as @ bs @ [e]) = map Some (ka @ kb @ [(k, v)])"
      using sp(5,6) ne by (simp add: h2(2) F(3))
    moreover have "map_of (zip (map fst (ka @ kb @ [(k, v)])) (as @ bs @ [e])) = lh_entryMap lh"
      using map_of_zip_move [of "map fst ka" as "map fst kb" bs k e] H(3,4) sp by simp
    moreover have "distinct (map fst (ka @ kb @ [(k, v)]))" using H(3) sp(1) by auto
    ultimately show "hm_at h2 lh s (as @ bs @ [e]) (drop_key k kvs @ [(k, v)])"
      using h1(2) h2(3-6) F(1,2,4) H(5,6) out unfolding hm_at_def dk by metis
  qed
qed

text \<open>The element a new key gets: the last free one, or a freshly allocated one.\<close>

lemma Put_element:
  assumes hm: "hm_at h lh s xs kvs"
  obtains h1 lh1 e where "(if lh_freeList lh \<noteq> [] then (h, lh\<lparr>lh_freeList := butlast (lh_freeList lh)\<rparr>, last (lh_freeList lh))
      else let (h, e) = new_element h zero in (h, lh, e)) = (h1, lh1, e)"
    "heap_ok h1" "list_at h1 (lh_entryList lh) s xs" "h_elem h1 e \<noteq> None" "ow h1 e = None" "map (vl h1) xs = map (vl h) xs"
    "lh_entryMap lh1 = lh_entryMap lh" "lh_entryList lh1 = lh_entryList lh" "distinct (lh_freeList lh1)" "e \<notin> set (lh_freeList lh1)"
    "\<And>f. f \<in> set (lh_freeList lh1) \<Longrightarrow> h_elem h1 f \<noteq> None \<and> ow h1 f = None"
proof -
  have H: "heap_ok h" "list_at h (lh_entryList lh) s xs" "distinct (lh_freeList lh)"
    "\<And>f. f \<in> set (lh_freeList lh) \<Longrightarrow> h_elem h f \<noteq> None \<and> ow h f = None" using hm by (simp_all add: hm_at_def)
  show thesis
  proof (cases "lh_freeList lh = []")
    case True
    note n = new_element_ok [OF H(1), where v = zero]
    have "e \<noteq> snd (new_element h zero)" if "e \<in> set xs" for e
      using n(5) list_at_elem(1) [OF H(2)] that by auto
    then show thesis
      by (intro that [of "fst (new_element h zero)" lh "snd (new_element h zero)"])
        (use True n H in \<open>simp_all add: case_prod_unfold Let_def\<close>)
  next
    case False
    have "distinct (butlast (lh_freeList lh) @ [last (lh_freeList lh)])" using H(3) False by simp
    then have "last (lh_freeList lh) \<notin> set (butlast (lh_freeList lh))" by simp
    with False H show thesis
      by (intro that [of h "lh\<lparr>lh_freeList := butlast (lh_freeList lh)\<rparr>" "last (lh_freeList lh)"])
        (simp_all add: distinct_butlast in_set_butlastD)
  qed
qed

lemma Put_new:
  assumes hm: "hm_at h lh s xs kvs" and new: "lh_entryMap lh k = None"
  obtains h' lh' xs' where "Hashmap_Put zero h lh k v = Some (h', lh')" "hm_at h' lh' s xs' (drop_key k kvs @ [(k, v)])"
    "lh_entryList lh' = lh_entryList lh"
proof -
  let ?l = "lh_entryList lh"
  obtain h1 lh1 e where A: "(if lh_freeList lh \<noteq> [] then (h, lh\<lparr>lh_freeList := butlast (lh_freeList lh)\<rparr>, last (lh_freeList lh))
      else let (h, e) = new_element h zero in (h, lh, e)) = (h1, lh1, e)"
    "heap_ok h1" "list_at h1 ?l s xs" "h_elem h1 e \<noteq> None" "ow h1 e = None" "map (vl h1) xs = map (vl h) xs"
    "lh_entryMap lh1 = lh_entryMap lh" "lh_entryList lh1 = lh_entryList lh" "distinct (lh_freeList lh1)" "e \<notin> set (lh_freeList lh1)"
    "\<And>f. f \<in> set (lh_freeList lh1) \<Longrightarrow> h_elem h1 f \<noteq> None \<and> ow h1 f = None" by (rule Put_element [OF hm]) blast
  from set_Value_ok [OF A(4), of "(k, v)"] obtain h2 where h2: "set_Value (k, v) h1 (Some e) = Some h2"
    "vl h2 = (vl h1)(e \<mapsto> (k, v))" "\<And>l s xs. list_at h2 l s xs = list_at h1 l s xs" "heap_ok h2 = heap_ok h1" "ow h2 = ow h1"
    "\<And>x. h_elem h2 x = None \<longleftrightarrow> h_elem h1 x = None" by metis
  have L2: "list_at h2 ?l s xs" "h_elem h2 e \<noteq> None" "ow h2 e = None" using A(3-5) h2(3,5,6) by auto
  from List_pushes(2) [OF L2] obtain h3 where h3: "List_PushBack h2 ?l e = Some h3" "list_at h3 ?l s (xs @ [e])" "keeps ?l h2 h3"
    by (auto simp: implements_def)
  note F = keeps_frame [OF h3(3) _ L2(1) h3(2)]
  have ok2: "heap_ok h2" using h2(4) A(2) by simp
  have out: "f \<notin> set (s # xs @ [e])" if "f \<in> set (lh_freeList lh1)" for f
    using free_outside [OF A(3)] A(10) A(11) [OF that] that by auto
  have ex: "e \<notin> set xs" using free_outside [OF A(3,5)] by simp
  have H: "map (vl h) xs = map Some kvs" "distinct (map fst kvs)" "lh_entryMap lh = map_of (zip (map fst kvs) xs)"
    using hm by (simp_all add: hm_at_def)
  have len: "length xs = length kvs" by (rule hm_lookup(1) [OF hm])
  have kn: "k \<notin> fst ` set kvs" using hm_lookup(2) [OF hm] new by simp
  let ?lh = "lh1\<lparr>lh_entryMap := (lh_entryMap lh1)(k \<mapsto> e)\<rparr>"
  show thesis
  proof (rule that)
    show "Hashmap_Put zero h lh k v = Some (h3, ?lh)"
      unfolding Hashmap_Put_def new option.case A(1) using h2(1) h3(1) A(8) by (simp add: Let_def)
    have "map (vl h3) xs = map (vl h1) xs" unfolding F(3) [OF ok2] h2(2) using ex by (rule map_fun_upd)
    then have "map (vl h3) (xs @ [e]) = map Some (kvs @ [(k, v)])"
      using F(3) [OF ok2] h2(2) A(6) H(1) by simp
    moreover have "(lh_entryMap lh1)(k \<mapsto> e) = map_of (zip (map fst (kvs @ [(k, v)])) (xs @ [e]))"
    proof -
      have "k \<notin> dom (map_of (zip (map fst kvs) xs))" using len kn by (simp add: domIff map_of_zip_is_None)
      then show ?thesis using H(3) A(7) len by (simp add: map_add_upd_left)
    qed
    moreover have "distinct (map fst (kvs @ [(k, v)]))" using H(2) kn by simp
    moreover have "h_elem h3 f \<noteq> None \<and> ow h3 f = None" if "f \<in> set (lh_freeList lh1)" for f
      using F(2,4) [OF ok2, of f] A(11) [OF that] h2(5,6) out [OF that] by auto
    ultimately show "hm_at h3 ?lh s (xs @ [e]) (drop_key k kvs @ [(k, v)])"
      using F(1) [OF ok2] h3(2) A(8,9) unfolding hm_at_def drop_key_absent [OF kn] by simp
    show "lh_entryList ?lh = lh_entryList lh" using A(8) by simp
  qed
qed

lemma Hashmap_Put_ok:
  assumes "hm_rep (h, lh) kvs"
  shows "\<exists>st. Hashmap_Put zero h lh k v = Some st \<and> hm_rep st (drop_key k kvs @ [(k, v)])"
proof -
  obtain s xs where hm: "hm_at h lh s xs kvs" using assms by (auto simp: hm_rep_def)
  show ?thesis
  proof (cases "lh_entryMap lh k")
    case None
    show ?thesis by (rule Put_new [OF hm None, of zero v]) (auto simp: hm_rep_def)
  next
    case (Some e)
    show ?thesis by (rule Put_existing [OF hm Some, of zero v]) (auto simp: hm_rep_def)
  qed
qed

lemma hm_value:
  assumes hm: "hm_at h lh s xs kvs" and e: "lh_entryMap lh k = Some e"
  shows "\<exists>el v. h_elem h e = Some el \<and> el_Value el = (k, v) \<and> map_of kvs k = Some v"
proof -
  from hm_lookup(3) [OF hm e] obtain ka kb v where kvs: "kvs = ka @ (k, v) # kb" and v: "vl h e = Some (k, v)" by blast
  have "distinct (map fst kvs)" using hm by (simp add: hm_at_def)
  then have "map_of kvs k = Some v" by (rule map_of_is_SomeI) (simp add: kvs)
  with v show ?thesis by (auto simp: vl_def)
qed

lemma Hashmap_Get_ok:
  assumes "hm_rep (h, lh) kvs"
  shows "Hashmap_Get h lh k = Some (map_of kvs k)"
proof -
  obtain s xs where hm: "hm_at h lh s xs kvs" using assms by (auto simp: hm_rep_def)
  show ?thesis
  proof (cases "lh_entryMap lh k")
    case None
    then have "map_of kvs k = None" using hm_lookup(2) [OF hm] by (simp add: map_of_eq_None_iff)
    with None show ?thesis by (simp add: Hashmap_Get_def)
  next
    case (Some e)
    from hm_value [OF hm Some] Some show ?thesis by (auto simp: Hashmap_Get_def)
  qed
qed

lemma map_add_drop: "A k = None \<Longrightarrow> B k = None \<Longrightarrow> B ++ A = (B(k \<mapsto> e) ++ A)(k := None)"
  by (auto simp: fun_eq_iff map_add_def split: option.splits)

lemma map_of_zip_drop:
  assumes "length ks = length xs" "length ks' = length xs'" "distinct (ks @ k # ks')"
  shows "map_of (zip (ks @ ks') (xs @ xs')) = (map_of (zip (ks @ k # ks') (xs @ e # xs')))(k := None)"
proof -
  have "map_of (zip ks xs) k = None" "map_of (zip ks' xs') k = None"
    using assms by (auto simp: map_of_zip_is_None)
  from map_add_drop [of "map_of (zip ks xs)" k "map_of (zip ks' xs')", OF this] assms(1,2) show ?thesis by simp
qed

lemma remove_ok:
  assumes hm: "hm_at h lh s xs kvs" and e: "lh_entryMap lh k = Some e"
  obtains h' lh' xs' where "Hashmap_remove zero h lh e = Some (h', lh')" "hm_at h' lh' s xs' (drop_key k kvs)"
    "lh_entryMap lh' = (lh_entryMap lh)(k := None)" "lh_entryList lh' = lh_entryList lh"
proof -
  let ?l = "lh_entryList lh"
  from hm_lookup(3) [OF hm e] obtain ka kb as bs w where sp: "kvs = ka @ (k, w) # kb" "xs = as @ e # bs"
    "length ka = length as" "length kb = length bs" "map (vl h) as = map Some ka" "map (vl h) bs = map Some kb" by blast
  have H: "heap_ok h" "list_at h ?l s xs" "distinct (map fst kvs)"
    "lh_entryMap lh = map_of (zip (map fst kvs) xs)" "distinct (lh_freeList lh)"
    "\<And>f. f \<in> set (lh_freeList lh) \<Longrightarrow> h_elem h f \<noteq> None \<and> ow h f = None" using hm by (simp_all add: hm_at_def)
  obtain el v where el: "h_elem h e = Some el" "el_Value el = (k, v)" using hm_value [OF hm e] by blast
  from Remove_ok [OF H(2) [unfolded sp]] obtain h1 where h1: "List_Remove h ?l e = Some h1"
    "list_at h1 ?l s (as @ bs)" "keeps ?l h h1" "ow h1 e = None" by blast
  note F = keeps_frame [OF h1(3) H(1,2) h1(2)]
  have "h_elem h1 e \<noteq> None" using F(4) el(1) by simp
  from set_Value_ok [OF this, of zero] obtain h2 where h2: "set_Value zero h1 (Some e) = Some h2"
    "vl h2 = (vl h1)(e \<mapsto> zero)" "\<And>l s xs. list_at h2 l s xs = list_at h1 l s xs" "heap_ok h2 = heap_ok h1" "ow h2 = ow h1"
    "\<And>x. h_elem h2 x = None \<longleftrightarrow> h_elem h1 x = None" by metis
  have ne: "e \<notin> set (as @ bs)" using list_at_neighbours(3,4) [OF H(2) [unfolded sp]] by simp
  have out: "f \<notin> set (s # as @ e # bs)" if "f \<in> set (lh_freeList lh)" for f
    using free_outside [OF H(2)] H(6) [OF that] unfolding sp(2) by blast
  have dk: "drop_key k kvs = ka @ kb" using drop_key_split [of ka k w kb] H(3) unfolding sp(1) by simp
  let ?lh = "lh\<lparr>lh_entryMap := (lh_entryMap lh)(k := None), lh_freeList := lh_freeList lh @ [e]\<rparr>"
  show thesis
  proof (rule that [of h2 ?lh "as @ bs"])
    show "Hashmap_remove zero h lh e = Some (h2, ?lh)" using el h1(1) h2(1) by (simp add: Hashmap_remove_def)
    have "map (vl h2) (as @ bs) = map (vl h1) (as @ bs)" unfolding h2(2) using ne by (rule map_fun_upd)
    then have "map (vl h2) (as @ bs) = map Some (ka @ kb)" using sp(5,6) by (simp add: F(3))
    moreover have "(lh_entryMap lh)(k := None) = map_of (zip (map fst (ka @ kb)) (as @ bs))"
      using map_of_zip_drop [of "map fst ka" as "map fst kb" bs k e] H(3,4) sp by simp
    moreover have "distinct (map fst (ka @ kb))" using H(3) sp(1) by auto
    moreover have "h_elem h2 f \<noteq> None \<and> ow h2 f = None" if "f \<in> set (lh_freeList lh @ [e])" for f
    proof (cases "f = e")
      case True
      then show ?thesis using h1(4) h2(5,6) F(4) [of e] el(1) by simp
    next
      case False
      then have "f \<in> set (lh_freeList lh)" using that by simp
      from H(6) [OF this] out [OF this] F(2) [of f] F(4) [of f] h2(5,6) show ?thesis by auto
    qed
    moreover have "distinct (lh_freeList lh @ [e])" using H(5) out by auto
    ultimately show "hm_at h2 ?lh s (as @ bs) (drop_key k kvs)"
      using F(1) h1(2) h2(3,4) unfolding hm_at_def dk by simp
  qed simp_all
qed

lemma Hashmap_Delete_ok:
  assumes "hm_rep (h, lh) kvs"
  shows "\<exists>h' lh'. Hashmap_Delete zero h lh k = Some (h', lh', k \<in> fst ` set kvs) \<and> hm_rep (h', lh') (drop_key k kvs)"
proof -
  obtain s xs where hm: "hm_at h lh s xs kvs" using assms by (auto simp: hm_rep_def)
  show ?thesis
  proof (cases "lh_entryMap lh k")
    case None
    then have "k \<notin> fst ` set kvs" using hm_lookup(2) [OF hm] by simp
    with None assms show ?thesis by (simp add: Hashmap_Delete_def drop_key_absent)
  next
    case (Some e)
    then have k: "k \<in> fst ` set kvs" using hm_lookup(2) [OF hm, of k] by auto
    obtain h' lh' xs' where "Hashmap_remove zero h lh e = Some (h', lh')" "hm_at h' lh' s xs' (drop_key k kvs)"
      by (rule remove_ok [OF hm Some])
    then show ?thesis using Some k by (auto simp: Hashmap_Delete_def hm_rep_def)
  qed
qed

lemma Hashmap_observers:
  assumes "hm_rep (h, lh) kvs"
  shows "Hashmap_Len lh = int (length kvs)"
    "Hashmap_Oldest h lh = Some (case kvs of [] \<Rightarrow> None | kv # _ \<Rightarrow> Some kv)"
    "Hashmap_Newest h lh = Some (if kvs = [] then None else Some (last kvs))"
proof -
  obtain s xs where hm: "hm_at h lh s xs kvs" using assms by (auto simp: hm_rep_def)
  then have H: "list_at h (lh_entryList lh) s xs" "map (vl h) xs = map Some kvs" "distinct (map fst kvs)"
    "lh_entryMap lh = map_of (zip (map fst kvs) xs)" by (simp_all add: hm_at_def)
  have len: "length xs = length kvs" by (rule hm_lookup(1) [OF hm])
  have "card (fst ` set kvs) = length kvs" using H(3) by (metis distinct_card length_map list.set_map)
  then show "Hashmap_Len lh = int (length kvs)" using H(4) len by (simp add: Hashmap_Len_def dom_map_of_zip)
  note O = List_observers [OF H(1)]
  show "Hashmap_Oldest h lh = Some (case kvs of [] \<Rightarrow> None | kv # _ \<Rightarrow> Some kv)"
    using O(2) H(2) len by (cases xs; cases kvs) (auto simp: Hashmap_Oldest_def vl_def)
  show "Hashmap_Newest h lh = Some (if kvs = [] then None else Some (last kvs))"
  proof (cases "xs = []")
    case True
    then show ?thesis using O(3) len by (simp add: Hashmap_Newest_def)
  next
    case False
    then have "vl h (last xs) = Some (last kvs)" using H(2) len by (metis last_map length_0_conv)
    with False show ?thesis using O(3) len by (auto simp: Hashmap_Newest_def vl_def)
  qed
qed

lemma new_elements_ok:
  assumes "heap_ok h" "new_elements h zero n = (h', es)"
  shows "heap_ok h' \<and> distinct es \<and> (\<forall>e \<in> set es. h_elem h' e \<noteq> None \<and> ow h' e = None \<and> h_elem h e = None) \<and>
    (\<forall>a. h_elem h a \<noteq> None \<longrightarrow> h_elem h' a \<noteq> None \<and> ow h' a = ow h a) \<and> (\<forall>l s xs. list_at h l s xs \<longrightarrow> list_at h' l s xs)"
  using assms
proof (induction n arbitrary: h h' es)
  case (Suc n)
  let ?h1 = "fst (new_element h zero)" and ?e = "snd (new_element h zero)"
  note n = new_element_ok [OF Suc.prems(1), where v = zero]
  obtain fs where r: "new_elements ?h1 zero n = (h', fs)" "es = ?e # fs"
    using Suc.prems(2) by (auto simp: Let_def split: prod.splits)
  note IH = Suc.IH [OF n(4) r(1)]
  have old: "h_elem ?h1 a \<noteq> None \<and> ow ?h1 a = ow h a" if "h_elem h a \<noteq> None" for a
    using that n(5) by (auto simp: new_element_def ow_def)
  have "h_elem ?h1 a = None \<Longrightarrow> h_elem h a = None" for a using old by blast
  moreover have "?e \<notin> set fs"
  proof
    assume "?e \<in> set fs"
    then have "h_elem ?h1 ?e = None" using IH by simp
    with n(1) show False by simp
  qed
  moreover have "h_elem h' ?e \<noteq> None \<and> ow h' ?e = None \<and> h_elem h ?e = None" using IH n(1,2,5) by auto
  ultimately show ?case using IH old n(6) unfolding r(2) by auto
qed simp

lemma NewHashmap_ok:
  assumes "heap_ok h"
  shows "hm_rep (NewHashmapWithSize h zero n) []" "hm_rep (NewHashmap h zero) []"
proof -
  show "hm_rep (NewHashmapWithSize h zero n) []" for n
  proof -
    note l = NewList_ok [OF assms, where zero = zero]
    obtain h' es where n: "new_elements (fst (NewList h zero)) zero n = (h', es)" by fastforce
    note e = new_elements_ok [OF l(2) n]
    have "list_at h' (snd (NewList h zero)) (h_fresh h) []" using e l(1) by blast
    with e have "hm_at h' \<lparr>lh_entryMap = Map.empty, lh_entryList = snd (NewList h zero), lh_freeList = es\<rparr> (h_fresh h) [] []"
      by (simp add: hm_at_def)
    then show ?thesis by (auto simp: NewHashmapWithSize_def case_prod_unfold Let_def n hm_rep_def)
  qed
  then show "hm_rep (NewHashmap h zero) []" by (simp add: NewHashmap_def)
qed

lemma ran_drop:
  assumes "m k = Some e" "\<And>k'. m k' = Some e \<Longrightarrow> k' = k"
  shows "ran (m(k := None)) = ran m - {e}"
proof -
  have "b \<in> ran (m(k := None))" if "m a = Some b" "b \<noteq> e" for a b
    using that assms(1) by (intro ranI [of _ a]) auto
  moreover have "b \<in> ran m \<and> b \<noteq> e" if "(m(k := None)) a = Some b" for a b
  proof -
    have a: "a \<noteq> k" "m a = Some b" using that by (auto split: if_splits)
    with assms(2) [of a] show ?thesis by (metis ranI)
  qed
  ultimately show ?thesis unfolding ran_def by blast
qed

lemma Hashmap_Clear_ok:
  assumes "hm_at h lh s xs kvs" "distinct order" "set order = ran (lh_entryMap lh)"
  shows "\<exists>st. Hashmap_Clear zero h lh order = Some st \<and> hm_rep st []"
  using assms
proof (induction order arbitrary: h lh xs kvs)
  case Nil
  have "kvs = []"
  proof (rule ccontr)
    assume "kvs \<noteq> []"
    then have "fst (hd kvs) \<in> fst ` set kvs" by simp
    then obtain e where "lh_entryMap lh (fst (hd kvs)) = Some e" using hm_lookup(2) [OF Nil.prems(1)] by blast
    then show False using Nil.prems(3) by (auto simp: ran_def)
  qed
  with Nil.prems(1) show ?case by (auto simp: hm_rep_def)
next
  case (Cons e order)
  have "e \<in> ran (lh_entryMap lh)" using Cons.prems(3) by force
  then obtain k where k: "lh_entryMap lh k = Some e" unfolding ran_def by blast
  obtain h' lh' xs' where r: "Hashmap_remove zero h lh e = Some (h', lh')" "hm_at h' lh' s xs' (drop_key k kvs)"
    "lh_entryMap lh' = (lh_entryMap lh)(k := None)" by (rule remove_ok [OF Cons.prems(1) k])
  have inj: "k' = k" if "lh_entryMap lh k' = Some e" for k'
    using hm_lookup(3) [OF Cons.prems(1) that] hm_lookup(3) [OF Cons.prems(1) k] by auto
  have "set order = ran (lh_entryMap lh) - {e}" using Cons.prems(2,3) by auto
  also have "\<dots> = ran (lh_entryMap lh')" unfolding r(3) using ran_drop [where m = "lh_entryMap lh" and k = k and e = e] k inj by blast
  finally show ?case using Cons.IH [OF r(2)] Cons.prems(2) r(1) by simp
qed

text \<open>An iterator with the entries it has still to visit.\<close>

definition iter_at :: "('k, 'v) hheap \<Rightarrow> 'k Hashmap \<Rightarrow> ('k, 'v) Iterator \<Rightarrow> ('k \<times> 'v) list \<Rightarrow> bool" where
  "iter_at h lh it rest \<longleftrightarrow> (if it_exhausted it then rest = []
     else if \<not> it_initialized it then hm_rep (h, lh) rest
     else \<exists>s as e bs. list_at h (lh_entryList lh) s (as @ e # bs) \<and> it_next it = Some e \<and> map (vl h) (e # bs) = map Some rest)"

lemma iter_advance:
  assumes L: "list_at h (lh_entryList lh) s (as @ e # bs)" and v: "map (vl h) (e # bs) = map Some (kv # rest)"
    and it: "it_next it = Some e" "it_initialized it" "\<not> it_exhausted it"
  shows "\<exists>it'. Iterator_Next zero h lh it = Some (it', True) \<and> it_keyValue it' = kv \<and> iter_at h lh it' rest"
proof -
  obtain el where el: "h_elem h e = Some el" "el_Value el = kv" using v by (auto simp: vl_def)
  let ?n = "case bs of [] \<Rightarrow> None | x # _ \<Rightarrow> Some x"
  let ?it = "it\<lparr>it_keyValue := kv, it_next := ?n, it_exhausted := ?n = None\<rparr>"
  have "Iterator_Next zero h lh it = Some (?it, True)"
    using el it Element_observers(1) [OF L] by (simp add: Iterator_Next_def Let_def)
  moreover have "iter_at h lh ?it rest"
  proof (cases bs)
    case Nil
    then show ?thesis using v by (simp add: iter_at_def)
  next
    case (Cons x cs)
    then have "list_at h (lh_entryList lh) s ((as @ [e]) @ x # cs)" using L by simp
    moreover have "map (vl h) (x # cs) = map Some rest" using v Cons by simp
    ultimately have "\<exists>s as e bs. list_at h (lh_entryList lh) s (as @ e # bs) \<and> it_next ?it = Some e \<and> map (vl h) (e # bs) = map Some rest"
      by (intro exI [of _ s] exI [of _ "as @ [e]"] exI [of _ x] exI [of _ cs]) (simp add: Cons)
    then show ?thesis using Cons it(2) by (simp add: iter_at_def)
  qed
  ultimately show ?thesis by simp
qed

lemma Iterator_Next_ok:
  assumes "iter_at h lh it rest"
  shows "(case rest of
      [] \<Rightarrow> \<exists>it'. Iterator_Next zero h lh it = Some (it', False)
    | kv # rest' \<Rightarrow> \<exists>it'. Iterator_Next zero h lh it = Some (it', True) \<and> it_keyValue it' = kv \<and> iter_at h lh it' rest')"
proof (cases "it_exhausted it")
  case True
  then show ?thesis using assms by (simp add: iter_at_def Iterator_Next_def Let_def)
next
  case False
  show ?thesis
  proof (cases "it_initialized it")
    case True
    with False assms obtain s as e bs where L: "list_at h (lh_entryList lh) s (as @ e # bs)" "it_next it = Some e"
      "map (vl h) (e # bs) = map Some rest" by (auto simp: iter_at_def)
    then obtain kv rest' where "rest = kv # rest'" by (cases rest) auto
    with iter_advance [OF L(1) _ L(2) True False] L(3) show ?thesis by auto
  next
    case init: False
    with False assms obtain s xs where hm: "hm_at h lh s xs rest" by (auto simp: iter_at_def hm_rep_def)
    then have L: "list_at h (lh_entryList lh) s xs" "map (vl h) xs = map Some rest" by (simp_all add: hm_at_def)
    show ?thesis
    proof (cases xs)
      case Nil
      then show ?thesis using L False init List_observers(2) [OF L(1)] by (simp add: Iterator_Next_def Let_def)
    next
      case (Cons x ys)
      then obtain kv rest' where r: "rest = kv # rest'" using L(2) by (cases rest) auto
      let ?it = "it\<lparr>it_initialized := True, it_next := Some x\<rparr>"
      have "Iterator_Next zero h lh it = Iterator_Next zero h lh ?it"
        using False init List_observers(2) [OF L(1)] Cons by (simp add: Iterator_Next_def Let_def)
      with iter_advance [of h lh s "[]" x ys kv rest' ?it] L False r Cons show ?thesis by simp
    qed
  qed
qed

section \<open>The interface\<close>

text \<open>A map that keeps its entries in the order of their last insertion.\<close>

locale ordered_map =
  fixes rep :: "'s \<Rightarrow> ('k \<times> 'v) list \<Rightarrow> bool" and put :: "'s \<Rightarrow> 'k \<Rightarrow> 'v \<Rightarrow> 's option"
    and get :: "'s \<Rightarrow> 'k \<Rightarrow> 'v option option" and del :: "'s \<Rightarrow> 'k \<Rightarrow> ('s \<times> bool) option"
  assumes rep_distinct: "rep s kvs \<Longrightarrow> distinct (map fst kvs)"
    and rep_put: "rep s kvs \<Longrightarrow> \<exists>s'. put s k v = Some s' \<and> rep s' (drop_key k kvs @ [(k, v)])"
    and rep_get: "rep s kvs \<Longrightarrow> get s k = Some (map_of kvs k)"
    and rep_del: "rep s kvs \<Longrightarrow> \<exists>s'. del s k = Some (s', k \<in> fst ` set kvs) \<and> rep s' (drop_key k kvs)"
begin

lemma map_of_drop: "map_of (drop_key k kvs) = (map_of kvs)(k := None)"
  by (induction kvs) (auto simp: drop_key_def fun_eq_iff)

lemma put_get:
  assumes "rep s kvs" "put s k v = Some s'"
  shows "get s' k' = Some (if k' = k then Some v else map_of kvs k')"
proof -
  from rep_put [OF assms(1), of k v] assms(2) have "rep s' (drop_key k kvs @ [(k, v)])" by auto
  from rep_get [OF this, of k'] show ?thesis by (auto simp: map_add_def map_of_drop split: option.splits)
qed

lemma del_get:
  assumes "rep s kvs" "del s k = Some (s', b)"
  shows "get s' k' = Some (if k' = k then None else map_of kvs k')" "b \<longleftrightarrow> get s k \<noteq> Some None"
proof -
  from rep_del [OF assms(1), of k] assms(2) have r: "rep s' (drop_key k kvs)" "b \<longleftrightarrow> k \<in> fst ` set kvs" by auto
  from rep_get [OF r(1), of k'] show "get s' k' = Some (if k' = k then None else map_of kvs k')" by (simp add: map_of_drop)
  show "b \<longleftrightarrow> get s k \<noteq> Some None" using r(2) rep_get [OF assms(1), of k] by (simp add: map_of_eq_None_iff)
qed

end

interpretation lhm: ordered_map hm_rep "\<lambda>(h, lh). Hashmap_Put zero h lh" "\<lambda>(h, lh). Hashmap_Get h lh"
  "\<lambda>(h, lh) k. map_option (\<lambda>(h, lh, b). ((h, lh), b)) (Hashmap_Delete zero h lh k)" for zero :: "'k \<times> 'v"
proof
  fix st :: "('k, 'v) hheap \<times> 'k Hashmap" and kvs k v
  assume r: "hm_rep st kvs"
  obtain h lh where st: "st = (h, lh)" by (cases st) auto
  note r' = r [unfolded st]
  show "distinct (map fst kvs)" using r by (auto simp: hm_rep_def hm_at_def)
  show "\<exists>s'. (case st of (h, lh) \<Rightarrow> Hashmap_Put zero h lh) k v = Some s' \<and> hm_rep s' (drop_key k kvs @ [(k, v)])"
    using Hashmap_Put_ok [OF r', of zero k v] by (simp add: st)
  show "(case st of (h, lh) \<Rightarrow> Hashmap_Get h lh) k = Some (map_of kvs k)" using Hashmap_Get_ok [OF r'] by (simp add: st)
  show "\<exists>s'. (case st of (h, lh) \<Rightarrow> \<lambda>k. map_option (\<lambda>(h, lh, b). ((h, lh), b)) (Hashmap_Delete zero h lh k)) k =
      Some (s', k \<in> fst ` set kvs) \<and> hm_rep s' (drop_key k kvs)"
    using Hashmap_Delete_ok [OF r', of zero k] by (auto simp: st)
qed

section \<open>The properties\<close>

text \<open>
  C23. The linked hash map implements a map with insertion order: from a state that represents a
  list of entries with distinct keys, inserting moves or appends the key to the end, deleting
  removes it and tells whether it was present, \<open>Len\<close>, \<open>Oldest\<close> and \<open>Newest\<close> read the list, and a new
  iterator visits the entries from oldest to newest, each call of \<open>Next\<close> yielding the next entry
  until none is left; no operation dereferences nil.
\<close>

theorem linked_hashmap_ordered:
  assumes "hm_rep (h, lh) kvs"
  shows "(\<exists>st. Hashmap_Put zero h lh k v = Some st \<and> hm_rep st (drop_key k kvs @ [(k, v)])) \<and>
    (\<exists>h' lh'. Hashmap_Delete zero h lh k = Some (h', lh', k \<in> fst ` set kvs) \<and> hm_rep (h', lh') (drop_key k kvs)) \<and>
    Hashmap_Len lh = int (length kvs) \<and>
    Hashmap_Oldest h lh = Some (case kvs of [] \<Rightarrow> None | kv # _ \<Rightarrow> Some kv) \<and>
    Hashmap_Newest h lh = Some (if kvs = [] then None else Some (last kvs)) \<and>
    iter_at h lh (NewIterator zero) kvs \<and>
    (iter_at h lh it [] \<longrightarrow> (\<exists>it'. Iterator_Next zero h lh it = Some (it', False))) \<and>
    (iter_at h lh it (kv # rest) \<longrightarrow>
       (\<exists>it'. Iterator_Next zero h lh it = Some (it', True) \<and> it_keyValue it' = kv \<and> iter_at h lh it' rest))"
proof -
  have "iter_at h lh (NewIterator zero) kvs" using assms by (simp add: iter_at_def NewIterator_def)
  then show ?thesis
    using Hashmap_Put_ok [OF assms] Hashmap_Delete_ok [OF assms] Hashmap_observers [OF assms]
      Iterator_Next_ok [of h lh it "[]" zero] Iterator_Next_ok [of h lh it "kv # rest" zero] by simp
qed

definition empty_heap :: "(nat \<times> nat) lheap" where
  "empty_heap = \<lparr>h_elem = Map.empty, h_list = Map.empty, h_fresh = 0\<rparr>"

lemma empty_heap_ok: "heap_ok empty_heap"
  by (simp add: empty_heap_def heap_ok_def ow_def)

theorem linked_hashmap_ordered_witness:
  "\<exists>st. Hashmap_Put (0, 0) (fst (NewHashmap empty_heap (0, 0))) (snd (NewHashmap empty_heap (0, 0))) 4 5 = Some st \<and>
     hm_rep st [(4, 5)]"
proof -
  have "hm_rep (fst (NewHashmap empty_heap (0, 0)), snd (NewHashmap empty_heap (0, 0))) []"
    using NewHashmap_ok(2) [OF empty_heap_ok] by simp
  from linked_hashmap_ordered [OF this, of "(0, 0)" 4 5 undefined undefined undefined] show ?thesis
    by (simp add: drop_key_def)
qed

text \<open>
  C24. Round trip of the linked hash map: after inserting a value \<open>Get\<close> returns it for that key and the
  old value for every other key, and after deleting a key \<open>Get\<close> finds every key but that one.
\<close>

theorem linked_hashmap_lookup:
  assumes "hm_rep (h, lh) kvs"
  shows "(\<exists>h' lh'. Hashmap_Put zero h lh k v = Some (h', lh') \<and>
      Hashmap_Get h' lh' k' = (if k' = k then Some (Some v) else Hashmap_Get h lh k')) \<and>
    (\<exists>h' lh' b. Hashmap_Delete zero h lh k = Some (h', lh', b) \<and> (b \<longleftrightarrow> Hashmap_Get h lh k \<noteq> Some None) \<and>
      Hashmap_Get h' lh' k' = (if k' = k then Some None else Hashmap_Get h lh k'))"
proof -
  have get: "Hashmap_Get h lh k' = Some (map_of kvs k')" by (rule Hashmap_Get_ok [OF assms])
  from Hashmap_Put_ok [OF assms, of zero k v] obtain h1 lh1 where p: "Hashmap_Put zero h lh k v = Some (h1, lh1)" by auto
  from Hashmap_Delete_ok [OF assms, of zero k] obtain h2 lh2 b where d: "Hashmap_Delete zero h lh k = Some (h2, lh2, b)" by auto
  have "Hashmap_Get h1 lh1 k' = (if k' = k then Some (Some v) else Hashmap_Get h lh k')"
    using lhm.put_get [OF assms, of zero k v "(h1, lh1)" k'] p get by simp
  moreover have "Hashmap_Get h2 lh2 k' = (if k' = k then Some None else Hashmap_Get h lh k')" "b \<longleftrightarrow> Hashmap_Get h lh k \<noteq> Some None"
    using lhm.del_get [OF assms, of zero k "(h2, lh2)" b] d get by auto
  ultimately show ?thesis using p d by blast
qed

theorem linked_hashmap_lookup_witness:
  "\<exists>h' lh'. Hashmap_Put (0, 0) (fst (NewHashmap empty_heap (0, 0))) (snd (NewHashmap empty_heap (0, 0))) 4 5 = Some (h', lh') \<and>
     Hashmap_Get h' lh' 4 = Some (Some 5)"
proof -
  have "hm_rep (fst (NewHashmap empty_heap (0, 0)), snd (NewHashmap empty_heap (0, 0))) []"
    using NewHashmap_ok(2) [OF empty_heap_ok] by simp
  from linked_hashmap_lookup [OF this, of "(0, 0)" 4 5 4] show ?thesis by simp
qed

end
