(* ===== verification/Poll_Graph.thy ===== *)
theory Poll_Graph
  imports Ids Bag "HOL-Library.Monad_Syntax"
begin

text \<open>
  \<open>snow/consensus/snowman/poll/graph.go\<close>: the graph of the blocks a poll received votes for, and the
  transitive votes.

  A \<open>*voteVertex\<close> is the identifier of its block: the pointers are looked up in the map
  \<open>id2Vertex\<close>, which holds every vertex.  \<open>getParent\<close> is a method of the interface
  \<open>BlockTraversal\<close> and a parameter here.  Go iterates over a map in any order: the iteration order of a
  range over a map is the parameter \<open>iter\<close>, which enumerates the keys.  A callback passed to a traversal is
  a function on the state it captures.
\<close>

record voteVertex =
  vv_parent :: "ID option"
  vv_descendants :: "ID list"

type_synonym vertices = "ID \<rightharpoonup> voteVertex"
type_synonym parents = "ID \<Rightarrow> ID option"

record voteGraph =
  vg_store :: vertices
  vg_vertexCount :: int
  vg_leaves :: "ID list"
  vg_roots :: "ID list"

definition new_voteVertex :: voteVertex where
  "new_voteVertex = \<lparr>vv_parent = None, vv_descendants = []\<rparr>"

lemma card_fresh_key:
  fixes m :: "'a::finite \<rightharpoonup> 'b"
  assumes "m x = None"
  shows "card (- insert x (dom m)) < card (- dom m)"
  using assms by (intro psubset_card_mono) auto

function addIDAndAncestorsToGraph :: "parents \<Rightarrow> ID \<Rightarrow> vertices \<Rightarrow> vertices" where
  "addIDAndAncestorsToGraph getParent x id2Vertex =
     (case id2Vertex x of
        Some _ \<Rightarrow> id2Vertex
      | None \<Rightarrow>
          let id2Vertex' = id2Vertex(x \<mapsto> new_voteVertex) in
          case getParent x of
            None \<Rightarrow> id2Vertex'
          | Some parent \<Rightarrow> addIDAndAncestorsToGraph getParent parent id2Vertex')"
  by pat_completeness auto
termination
  by (relation "measure (\<lambda>(_, _, m). card (- dom m))") (simp_all add: card_fresh_key)

declare addIDAndAncestorsToGraph.simps [simp del]

text \<open>One round of the loop of \<open>buildVoteGraph\<close> over the vertices: \<open>v.parent = u\<close>, then
  \<open>u.descendants = append(u.descendants, v)\<close>.\<close>

definition linkVertex :: "parents \<Rightarrow> ID \<Rightarrow> vertices \<times> ID list \<Rightarrow> vertices \<times> ID list" where
  "linkVertex getParent x = (\<lambda>(id2Vertex, roots).
     case getParent x of
       None \<Rightarrow> (id2Vertex, roots @ [x])
     | Some parent \<Rightarrow>
         if parent \<in> dom id2Vertex then
           let m = id2Vertex(x := map_option (vv_parent_update (\<lambda>_. Some parent)) (id2Vertex x));
               m' = m(parent := map_option (vv_descendants_update (\<lambda>ds. ds @ [x])) (m parent)) in
           (m', roots)
         else (id2Vertex, roots @ [x]))"

definition findLeaves :: "(ID set \<Rightarrow> ID list) \<Rightarrow> vertices \<Rightarrow> ID list" where
  "findLeaves iter idToVertex =
     filter (\<lambda>x. case idToVertex x of Some v \<Rightarrow> vv_descendants v = [] | None \<Rightarrow> False) (iter (dom idToVertex))"

definition buildVoteGraph :: "(ID set \<Rightarrow> ID list) \<Rightarrow> parents \<Rightarrow> ID Bag \<Rightarrow> voteGraph" where
  "buildVoteGraph iter getParent votes =
     (let id2Vertex = fold (addIDAndAncestorsToGraph getParent) (Bag_List votes) Map.empty;
          (linked, roots) = fold (linkVertex getParent) (iter (dom id2Vertex)) (id2Vertex, []) in
      \<lparr>vg_store = linked, vg_vertexCount = int (card (dom linked)),
       vg_leaves = findLeaves iter linked, vg_roots = roots\<rparr>)"

text \<open>\<open>traverse\<close> of the vertices of a list, one after the other; the result is the order in which the
  callback is invoked.  A recursion without end gives no value.\<close>

partial_function (option) vertex_traverse :: "vertices \<Rightarrow> ID list \<Rightarrow> ID list option" where
  "vertex_traverse m xs =
     (case xs of
        [] \<Rightarrow> Some []
      | x # rest \<Rightarrow> do {
          v \<leftarrow> m x;
          below \<leftarrow> vertex_traverse m (vv_descendants v);
          others \<leftarrow> vertex_traverse m rest;
          Some (x # below @ others)
        })"

definition voteGraph_traverse :: "voteGraph \<Rightarrow> ID list option" where
  "voteGraph_traverse vg = vertex_traverse (vg_store vg) (vg_roots vg)"

text \<open>The inner and the outer loop of \<open>topologicalSortTraversal\<close>.  A missing key of \<open>childCount\<close>
  reads as zero.\<close>

definition count_get :: "(ID \<rightharpoonup> int) \<Rightarrow> ID \<Rightarrow> int" where
  "count_get c x = (case c x of Some n \<Rightarrow> n | None \<Rightarrow> 0)"

fun visitLeaves ::
  "vertices \<Rightarrow> (ID \<Rightarrow> 's \<Rightarrow> 's) \<Rightarrow> ID list \<Rightarrow> (ID \<rightharpoonup> int) \<times> ID list \<times> 's \<Rightarrow> ((ID \<rightharpoonup> int) \<times> ID list \<times> 's) option"
where
  "visitLeaves m f [] st = Some st"
| "visitLeaves m f (leaf # leaves) (childCount, newLeaves, s) =
     (case m leaf of
        None \<Rightarrow> None
      | Some v \<Rightarrow>
          (case vv_parent v of
             None \<Rightarrow> visitLeaves m f leaves (childCount, newLeaves, f leaf s)
           | Some p \<Rightarrow>
               let childCount' = childCount(p \<mapsto> count_get childCount p - 1) in
               visitLeaves m f leaves
                 (childCount', if count_get childCount' p = 0 then newLeaves @ [p] else newLeaves, f leaf s)))"

partial_function (option) sortLoop ::
  "vertices \<Rightarrow> (ID \<Rightarrow> 's \<Rightarrow> 's) \<Rightarrow> (ID \<rightharpoonup> int) \<Rightarrow> ID list \<Rightarrow> 's \<Rightarrow> 's option" where
  "sortLoop m f childCount leaves s =
     (if leaves = [] then Some s
      else do {
        (childCount', newLeaves, s') \<leftarrow> visitLeaves m f leaves (childCount, [], s);
        sortLoop m f childCount' newLeaves s'
      })"

definition topologicalSortTraversal :: "voteGraph \<Rightarrow> (ID \<Rightarrow> 's \<Rightarrow> 's) \<Rightarrow> 's \<Rightarrow> 's option" where
  "topologicalSortTraversal vg f s = do {
     visited \<leftarrow> voteGraph_traverse vg;
     let childCount = fold (\<lambda>x c. c(x \<mapsto> int (length (vv_descendants (the (vg_store vg x)))))) visited Map.empty;
     sortLoop (vg_store vg) f childCount (vg_leaves vg) s
   }"

definition computeTransitiveVoteCountGraph :: "voteGraph \<Rightarrow> ID Bag \<Rightarrow> ID Bag option" where
  "computeTransitiveVoteCountGraph graph votes =
     topologicalSortTraversal graph
       (\<lambda>x transitiveClosureVotes.
          case vg_store graph x of
            None \<Rightarrow> transitiveClosureVotes
          | Some v \<Rightarrow>
              (case vv_parent v of
                 None \<Rightarrow> transitiveClosureVotes
               | Some p \<Rightarrow> Bag_AddCount transitiveClosureVotes p (Bag_Count transitiveClosureVotes x)))
       (Bag_Clone votes)"

section \<open>The parent relation and the votes for the descendants\<close>

definition parent_rel :: "parents \<Rightarrow> (ID \<times> ID) set" where
  "parent_rel gp = {(x, p). gp x = Some p}"

definition acyclic_parents :: "parents \<Rightarrow> bool" where
  "acyclic_parents gp \<longleftrightarrow> acyclic (parent_rel gp)"

text \<open>The blocks that build on \<open>x\<close>, itself included, and the votes for them.\<close>

definition descendants :: "parents \<Rightarrow> ID \<Rightarrow> ID set" where
  "descendants gp x = {y. (y, x) \<in> (parent_rel gp)\<^sup>*}"

definition transitive_votes :: "parents \<Rightarrow> ID Bag \<Rightarrow> ID \<Rightarrow> int" where
  "transitive_votes gp b x = (\<Sum>y \<in> descendants gp x. Bag_Count b y)"

text \<open>The blocks of the graph: those voted for and their ancestors; the children of a block in it.\<close>

definition voted :: "parents \<Rightarrow> ID Bag \<Rightarrow> ID set" where
  "voted gp b = {x. \<exists>y \<in> set (Bag_List b). y \<in> descendants gp x}"

definition kids_of :: "parents \<Rightarrow> ID \<Rightarrow> ID set" where
  "kids_of gp x = {c. gp c = Some x}"

lemma acyclic_parents_induct [consumes 1, case_names less]:
  assumes "acyclic_parents gp"
    and "\<And>x. (\<And>c. gp c = Some x \<Longrightarrow> P c) \<Longrightarrow> P x"
  shows "P x"
proof -
  have "wf ((parent_rel gp))"
    using assms(1) by (intro finite_acyclic_wf) (auto simp: acyclic_parents_def)
  then show ?thesis
    by (induction x rule: wf_induct_rule) (auto intro: assms(2) simp: parent_rel_def)
qed

lemma acyclic_parents_climb [consumes 1, case_names less]:
  assumes "acyclic_parents gp"
    and "\<And>x. (\<And>p. gp x = Some p \<Longrightarrow> P p) \<Longrightarrow> P x"
  shows "P x"
proof -
  have "wf ((parent_rel gp)\<inverse>)"
    using assms(1) by (intro finite_acyclic_wf_converse) (auto simp: acyclic_parents_def)
  then show ?thesis
    by (induction x rule: wf_induct_rule) (auto intro: assms(2) simp: parent_rel_def)
qed

lemma descendants_refl [simp]: "x \<in> descendants gp x"
  by (simp add: descendants_def)

lemma descendants_step: "gp x = Some p \<Longrightarrow> y \<in> descendants gp x \<Longrightarrow> y \<in> descendants gp p"
  by (auto simp: descendants_def parent_rel_def intro: rtrancl.rtrancl_into_rtrancl)

lemma descendants_up: "y \<in> descendants gp p \<Longrightarrow> y = p \<or> (\<exists>q. gp y = Some q \<and> q \<in> descendants gp p)"
  unfolding descendants_def by (auto simp: parent_rel_def elim: converse_rtranclE)

lemma descendants_unfold: "descendants gp x = insert x (\<Union>c \<in> kids_of gp x. descendants gp c)"
proof -
  have "(y, x) \<in> (parent_rel gp)\<^sup>* \<Longrightarrow> y = x \<or> (\<exists>c \<in> kids_of gp x. (y, c) \<in> (parent_rel gp)\<^sup>*)" for y
    by (erule rtranclE) (auto simp: kids_of_def parent_rel_def)
  then have "descendants gp x \<subseteq> insert x (\<Union>c \<in> kids_of gp x. descendants gp c)"
    unfolding descendants_def by blast
  then show ?thesis using descendants_step [of gp] by (auto simp: kids_of_def)
qed

text \<open>The ancestors of a block form a chain.\<close>

lemma descendants_chain:
  assumes "y \<in> descendants gp a" "y \<in> descendants gp b"
  shows "a \<in> descendants gp b \<or> b \<in> descendants gp a"
proof -
  have "single_valued (parent_rel gp)" by (auto simp: single_valued_def parent_rel_def)
  then show ?thesis
    using single_valued_confluent [of "parent_rel gp" y a b] assms by (auto simp: descendants_def)
qed

lemma descendants_antisym:
  assumes "acyclic_parents gp" "x \<in> descendants gp y" "y \<in> descendants gp x"
  shows "x = y"
  using acyclic_impl_antisym_rtrancl [of "parent_rel gp"] assms
  by (auto simp: acyclic_parents_def descendants_def antisym_def)

lemma kid_not_ancestor:
  assumes "acyclic_parents gp" "gp c = Some x"
  shows "x \<notin> descendants gp c"
proof
  assume "x \<in> descendants gp c"
  then have "(c, c) \<in> (parent_rel gp)\<^sup>+"
    using assms(2) by (auto simp: descendants_def parent_rel_def intro: rtrancl_into_trancl2)
  then show False using assms(1) by (simp add: acyclic_parents_def acyclic_def)
qed

lemma siblings_disjoint:
  assumes "acyclic_parents gp" "c \<in> kids_of gp x" "d \<in> kids_of gp x" "c \<noteq> d"
  shows "descendants gp c \<inter> descendants gp d = {}"
proof -
  have "False" if "a \<in> descendants gp b" "gp a = Some x" "gp b = Some x" "a \<noteq> b" for a b
    using descendants_up [OF that(1)] that kid_not_ancestor [OF assms(1) that(3)] by auto
  with descendants_chain [of _ gp c d] assms show ?thesis by (fastforce simp: kids_of_def)
qed

text \<open>The transitive votes of a block are its own and those of its children.\<close>

lemma transitive_votes_unfold:
  assumes "acyclic_parents gp"
  shows "transitive_votes gp b x = Bag_Count b x + (\<Sum>c \<in> kids_of gp x. transitive_votes gp b c)"
proof -
  have "x \<notin> (\<Union>c \<in> kids_of gp x. descendants gp c)"
    using kid_not_ancestor [OF assms] by (auto simp: kids_of_def)
  moreover have "sum (Bag_Count b) (\<Union>c \<in> kids_of gp x. descendants gp c) =
      (\<Sum>c \<in> kids_of gp x. transitive_votes gp b c)"
    unfolding transitive_votes_def using siblings_disjoint [OF assms]
    by (subst sum.UNION_disjoint) (auto dest: siblings_disjoint [OF assms])
  ultimately show ?thesis
    unfolding transitive_votes_def by (subst descendants_unfold) (simp add: transitive_votes_def)
qed

section \<open>The graph that is built\<close>

definition iter_ok :: "(ID set \<Rightarrow> ID list) \<Rightarrow> bool" where
  "iter_ok iter \<longleftrightarrow> (\<forall>S. set (iter S) = S \<and> distinct (iter S))"

definition graph_vertices :: "parents \<Rightarrow> ID set \<Rightarrow> ID list \<Rightarrow> vertices" where
  "graph_vertices gp D xs = (\<lambda>x. if x \<in> D then
     Some \<lparr>vv_parent = if x \<in> set xs then gp x else None, vv_descendants = filter (\<lambda>c. gp c = Some x) xs\<rparr>
     else None)"

definition upward_closed :: "parents \<Rightarrow> ID set \<Rightarrow> bool" where
  "upward_closed gp D \<longleftrightarrow> (\<forall>x \<in> D. \<forall>p. gp x = Some p \<longrightarrow> p \<in> D)"

lemma upward_closedD: "upward_closed gp D \<Longrightarrow> x \<in> D \<Longrightarrow> gp x = Some p \<Longrightarrow> p \<in> D"
  by (simp add: upward_closed_def)

lemma upward_closed_descendants:
  assumes "upward_closed gp D" "x \<in> D" "x \<in> descendants gp p"
  shows "p \<in> D"
proof -
  have "(x, p) \<in> (parent_rel gp)\<^sup>*" using assms(3) by (simp add: descendants_def)
  then show ?thesis
    using assms(1,2) by (induction rule: rtrancl_induct) (auto simp: parent_rel_def upward_closed_def)
qed

lemma upward_closed_voted: "upward_closed gp (voted gp b)"
  by (auto simp: upward_closed_def voted_def intro: descendants_step)

lemma addIDAndAncestors_dom:
  assumes "\<forall>y \<in> dom m. \<forall>p. gp y = Some p \<longrightarrow> p \<in> dom m \<or> p = x"
  shows "dom (addIDAndAncestorsToGraph gp x m) = dom m \<union> {p. x \<in> descendants gp p}"
  using assms
proof (induction gp x m rule: addIDAndAncestorsToGraph.induct)
  case (1 gp x m)
  show ?case
  proof (cases "m x")
    case None
    show ?thesis
    proof (cases "gp x")
      case None
      then have "{p. x \<in> descendants gp p} = {x}" using descendants_up by fastforce
      with \<open>m x = None\<close> None show ?thesis by (subst addIDAndAncestorsToGraph.simps) simp
    next
      case (Some p)
      then have "{q. x \<in> descendants gp q} = insert x {q. p \<in> descendants gp q}"
        using descendants_up [of x gp] by (auto simp: descendants_def parent_rel_def intro: converse_rtrancl_into_rtrancl)
      moreover have "dom (addIDAndAncestorsToGraph gp p (m(x \<mapsto> new_voteVertex))) =
          dom (m(x \<mapsto> new_voteVertex)) \<union> {q. p \<in> descendants gp q}"
        by (rule "1.IH" [OF \<open>m x = None\<close> refl Some])
          (use Some 1(2) in \<open>auto simp del: dom_fun_upd simp add: dom_def split: if_splits\<close>)
      ultimately show ?thesis
        using \<open>m x = None\<close> Some by (subst addIDAndAncestorsToGraph.simps) (simp add: Let_def)
    qed
  next
    case (Some v)
    then have "upward_closed gp (dom m)" using 1(2) by (auto simp: upward_closed_def)
    then have "{p. x \<in> descendants gp p} \<subseteq> dom m" using Some upward_closed_descendants by blast
    with Some show ?thesis by (subst addIDAndAncestorsToGraph.simps) auto
  qed
qed

lemma addIDAndAncestors_new:
  assumes "\<forall>v \<in> ran m. v = new_voteVertex"
  shows "\<forall>v \<in> ran (addIDAndAncestorsToGraph gp x m). v = new_voteVertex"
  using assms
proof (induction gp x m rule: addIDAndAncestorsToGraph.induct)
  case (1 gp x m)
  have "\<forall>v \<in> ran (addIDAndAncestorsToGraph gp p (m(x \<mapsto> new_voteVertex))). v = new_voteVertex"
    if "m x = None" "gp x = Some p" for p
    by (rule "1.IH" [OF that(1) refl that(2)]) (use 1(2) in \<open>auto simp: ran_def split: if_splits\<close>)
  with 1(2) show ?case
    by (subst addIDAndAncestorsToGraph.simps) (simp split: option.splits add: Let_def ran_map_upd)
qed

lemma addAll_graph:
  "fold (addIDAndAncestorsToGraph gp) ids Map.empty =
     graph_vertices gp {p. \<exists>y \<in> set ids. y \<in> descendants gp p} []"
proof -
  let ?m = "\<lambda>ids. fold (addIDAndAncestorsToGraph gp) ids Map.empty"
  have dom: "dom (?m ids) = {p. \<exists>y \<in> set ids. y \<in> descendants gp p}" for ids
  proof (induction ids rule: rev_induct)
    case (snoc x ids)
    have "upward_closed gp (dom (?m ids))" unfolding snoc
      by (auto simp: upward_closed_def intro: descendants_step)
    then show ?case using snoc addIDAndAncestors_dom [of "?m ids" gp x] by (auto simp: upward_closed_def)
  qed simp
  have new: "\<forall>v \<in> ran (?m ids). v = new_voteVertex" for ids
    by (induction ids rule: rev_induct) (simp_all add: addIDAndAncestors_new)
  show ?thesis
  proof
    fix x
    show "?m ids x = graph_vertices gp {p. \<exists>y \<in> set ids. y \<in> descendants gp p} [] x"
    proof (cases "?m ids x")
      case None
      then have "x \<notin> dom (?m ids)" by auto
      with None show ?thesis unfolding dom by (auto simp: graph_vertices_def)
    next
      case (Some v)
      then have "x \<in> dom (?m ids)" "v = new_voteVertex" using new [of ids] by (auto simp: ran_def)
      with Some show ?thesis unfolding dom by (auto simp: graph_vertices_def new_voteVertex_def)
    qed
  qed
qed

lemma linkVertex_graph:
  assumes "upward_closed gp D" "set xs \<subseteq> D"
  shows "fold (linkVertex gp) xs (graph_vertices gp D [], []) =
    (graph_vertices gp D xs, filter (\<lambda>c. gp c = None) xs)"
  using assms(2)
proof (induction xs rule: rev_induct)
  case (snoc x xs)
  show ?case
  proof (cases "gp x")
    case (Some p)
    then have "p \<in> D" using upward_closedD [OF assms(1), of x p] snoc.prems by simp
    with Some snoc show ?thesis
      by (auto simp: linkVertex_def Let_def graph_vertices_def dom_def fun_eq_iff)
  qed (use snoc in \<open>auto simp: linkVertex_def graph_vertices_def fun_eq_iff\<close>)
qed simp

lemma dom_graph_vertices [simp]: "dom (graph_vertices gp D xs) = D"
  by (auto simp: graph_vertices_def split: if_splits)

text \<open>The graph of a bag of votes: every block voted for and every ancestor is a vertex, linked to its
  parent and its children.\<close>

lemma buildVoteGraph_eq:
  assumes "iter_ok iter"
  shows "buildVoteGraph iter gp b =
    (let D = voted gp b; xs = iter D in
     \<lparr>vg_store = graph_vertices gp D xs, vg_vertexCount = int (card D),
      vg_leaves = filter (\<lambda>x. kids_of gp x \<inter> D = {}) xs, vg_roots = filter (\<lambda>c. gp c = None) xs\<rparr>)"
proof -
  have xs: "set (iter (voted gp b)) = voted gp b" using assms by (simp add: iter_ok_def)
  have "{p. \<exists>y \<in> set (Bag_List b). y \<in> descendants gp p} = voted gp b" by (auto simp: voted_def)
  moreover have "findLeaves iter (graph_vertices gp (voted gp b) (iter (voted gp b))) =
      filter (\<lambda>x. kids_of gp x \<inter> voted gp b = {}) (iter (voted gp b))"
    unfolding findLeaves_def dom_graph_vertices
    by (rule filter_cong) (auto simp: xs graph_vertices_def filter_empty_conv kids_of_def)
  ultimately show ?thesis
    using linkVertex_graph [OF upward_closed_voted, of "iter (voted gp b)" gp b] xs
    by (simp add: buildVoteGraph_def addAll_graph Let_def)
qed

section \<open>The traversals\<close>

lemma vertex_traverse_Nil [simp]: "vertex_traverse m [] = Some []"
  by (subst vertex_traverse.simps) simp

lemma vertex_traverse_Cons:
  "vertex_traverse m (x # rest) = do {
     v \<leftarrow> m x;
     below \<leftarrow> vertex_traverse m (vv_descendants v);
     others \<leftarrow> vertex_traverse m rest;
     Some (x # below @ others) }"
  by (subst vertex_traverse.simps) simp

definition in_graph :: "parents \<Rightarrow> ID set \<Rightarrow> ID \<Rightarrow> ID set" where
  "in_graph gp D x = descendants gp x \<inter> D"

lemma in_graph_unfold:
  assumes "upward_closed gp D" "x \<in> D"
  shows "in_graph gp D x = insert x (\<Union>c \<in> kids_of gp x \<inter> D. in_graph gp D c)"
proof -
  have "c \<in> D" if "c \<in> kids_of gp x" "y \<in> descendants gp c" "y \<in> D" for c y
    using upward_closed_descendants [OF assms(1) that(3,2)] .
  then show ?thesis
    unfolding in_graph_def descendants_unfold [of gp x] using assms(2) by blast
qed

text \<open>The traversal returns and visits the vertices of the list and everything that builds on them.\<close>

lemma vertex_traverse_list:
  assumes "\<And>x. x \<in> set xs \<Longrightarrow> \<exists>v ys. m x = Some v \<and> vertex_traverse m (vv_descendants v) = Some ys \<and>
    insert x (set ys) = S x"
  shows "\<exists>ys. vertex_traverse m xs = Some ys \<and> set ys = (\<Union>x \<in> set xs. S x)"
  using assms
proof (induction xs)
  case (Cons x xs)
  from Cons.prems [of x] obtain v ys where v: "m x = Some v" "vertex_traverse m (vv_descendants v) = Some ys"
    "insert x (set ys) = S x" by auto
  from Cons obtain zs where "vertex_traverse m xs = Some zs" "set zs = (\<Union>x \<in> set xs. S x)" by auto
  with v show ?case by (simp add: vertex_traverse_Cons) blast
qed simp

lemma vertex_traverse_total:
  assumes "acyclic_parents gp" "upward_closed gp D" "set xs = D" "x \<in> D"
  shows "\<exists>v ys. graph_vertices gp D xs x = Some v \<and>
    vertex_traverse (graph_vertices gp D xs) (vv_descendants v) = Some ys \<and> insert x (set ys) = in_graph gp D x"
  using assms(1,4)
proof (induction x rule: acyclic_parents_induct)
  case (less x)
  let ?ds = "filter (\<lambda>c. gp c = Some x) xs"
  have ds: "set ?ds = kids_of gp x \<inter> D" using assms(3) by (auto simp: kids_of_def)
  then obtain ys where "vertex_traverse (graph_vertices gp D xs) ?ds = Some ys"
    "set ys = (\<Union>c \<in> set ?ds. in_graph gp D c)"
    using vertex_traverse_list [of ?ds "graph_vertices gp D xs" "in_graph gp D"] less.IH by (auto simp: kids_of_def)
  then show ?case
    using less.prems assms(3) ds in_graph_unfold [OF assms(2) less.prems] by (simp add: graph_vertices_def)
qed

lemma root_exists:
  assumes "acyclic_parents gp" "upward_closed gp D" "x \<in> D"
  shows "\<exists>r \<in> D. gp r = None \<and> x \<in> descendants gp r"
  using assms(1,3)
proof (induction x rule: acyclic_parents_climb)
  case (less x)
  show ?case
  proof (cases "gp x")
    case (Some p)
    with less upward_closedD [OF assms(2), of x p] obtain r where "r \<in> D" "gp r = None" "p \<in> descendants gp r"
      by auto
    moreover have "x \<in> descendants gp p" using Some descendants_step by force
    ultimately show ?thesis by (auto simp: descendants_def)
  qed (use less in auto)
qed

lemma voteGraph_traverse_all:
  assumes "acyclic_parents gp" "iter_ok iter"
  shows "\<exists>ys. voteGraph_traverse (buildVoteGraph iter gp b) = Some ys \<and> set ys = voted gp b"
proof -
  let ?D = "voted gp b"
  have xs: "set (iter ?D) = ?D" using assms(2) by (simp add: iter_ok_def)
  let ?rs = "filter (\<lambda>c. gp c = None) (iter ?D)"
  have "\<exists>ys. vertex_traverse (graph_vertices gp ?D (iter ?D)) ?rs = Some ys \<and>
      set ys = (\<Union>x \<in> set ?rs. in_graph gp ?D x)"
    by (rule vertex_traverse_list)
       (use vertex_traverse_total [OF assms(1) upward_closed_voted xs] xs in auto)
  moreover have "(\<Union>x \<in> set ?rs. in_graph gp ?D x) = ?D"
    using root_exists [OF assms(1) upward_closed_voted, of _ b] xs by (auto simp: in_graph_def)
  ultimately show ?thesis by (simp add: voteGraph_traverse_def buildVoteGraph_eq [OF assms(2)] Let_def)
qed

section \<open>The transitive votes\<close>

text \<open>\<open>Done\<close> are the vertices the sort visited, \<open>ready\<close> those whose children are visited, each one
  waiting in one of the two lists.\<close>

definition sort_inv ::
  "parents \<Rightarrow> ID Bag \<Rightarrow> ID set \<Rightarrow> (ID \<rightharpoonup> int) \<Rightarrow> ID list \<Rightarrow> ID Bag \<Rightarrow> bool" where
  "sort_inv gp b Done cc ready t \<longleftrightarrow>
     (let D = voted gp b in
      Done \<subseteq> D \<and> (\<forall>x \<in> Done. kids_of gp x \<inter> D \<subseteq> Done) \<and> distinct ready \<and> set ready = {x \<in> D - Done. kids_of gp x \<inter> D \<subseteq> Done} \<and>
      (\<forall>x \<in> D. count_get cc x = int (card (kids_of gp x \<inter> D - Done))) \<and> bag_wf t \<and>
      (\<forall>x. Bag_Count t x = Bag_Count b x + (\<Sum>c \<in> kids_of gp x \<inter> Done. transitive_votes gp b c)))"

definition push_to_parent :: "parents \<Rightarrow> ID \<Rightarrow> ID Bag \<Rightarrow> ID Bag" where
  "push_to_parent gp x t = (case gp x of None \<Rightarrow> t | Some p \<Rightarrow> Bag_AddCount t p (Bag_Count t x))"

lemma transitive_votes_nonneg: "bag_wf b \<Longrightarrow> 0 \<le> transitive_votes gp b x"
  by (simp add: transitive_votes_def sum_nonneg bag_wf_Count_nonneg)

lemma Count_unlisted: "x \<notin> set (Bag_List b) \<Longrightarrow> Bag_Count b x = 0"
  by (auto simp: Bag_List_def Bag_Count_def map_of_eq_None_iff split: option.splits)
     (metis map_of_SomeD fst_conv image_eqI)

lemma transitive_votes_unvoted: "x \<notin> voted gp b \<Longrightarrow> transitive_votes gp b x = 0"
  unfolding transitive_votes_def by (rule sum.neutral) (auto simp: voted_def intro: Count_unlisted)

lemma transitive_votes_voted_kids:
  assumes "acyclic_parents gp" "kids_of gp x \<inter> voted gp b \<subseteq> Done"
  shows "transitive_votes gp b x = Bag_Count b x + (\<Sum>c \<in> kids_of gp x \<inter> Done. transitive_votes gp b c)"
proof -
  have "(\<Sum>c \<in> kids_of gp x. transitive_votes gp b c) = (\<Sum>c \<in> kids_of gp x \<inter> Done. transitive_votes gp b c)"
    by (rule sum.mono_neutral_right) (use assms(2) in \<open>auto intro: transitive_votes_unvoted\<close>)
  then show ?thesis unfolding transitive_votes_unfold [OF assms(1), of b x] by simp
qed

lemma sort_invD:
  assumes "sort_inv gp b Done cc ready t"
  shows "Done \<subseteq> voted gp b" "distinct ready" "x \<in> set ready \<longleftrightarrow> x \<in> voted gp b - Done \<and> kids_of gp x \<inter> voted gp b \<subseteq> Done"
    "x \<in> voted gp b \<Longrightarrow> count_get cc x = int (card (kids_of gp x \<inter> voted gp b - Done))" "bag_wf t"
    "Bag_Count t x = Bag_Count b x + (\<Sum>c \<in> kids_of gp x \<inter> Done. transitive_votes gp b c)"
    "x \<in> Done \<Longrightarrow> kids_of gp x \<inter> voted gp b \<subseteq> Done"
  using assms by (auto simp: sort_inv_def Let_def)

lemma kids_unique: "c \<in> kids_of gp x \<Longrightarrow> c \<in> kids_of gp y \<Longrightarrow> x = y"
  by (simp add: kids_of_def)

text \<open>Visiting a vertex that is ready: its count is final, and it is pushed to the parent.\<close>

lemma push_to_parent_count:
  assumes "acyclic_parents gp" "bag_wf b" "sort_inv gp b Done cc (x # ready) t"
  shows "Bag_Count (push_to_parent gp x t) y =
    Bag_Count b y + (\<Sum>c \<in> kids_of gp y \<inter> insert x Done. transitive_votes gp b c)"
proof -
  note inv = sort_invD [OF assms(3)]
  have "x \<in> voted gp b - Done" "kids_of gp x \<inter> voted gp b \<subseteq> Done" using inv(3) [of x] by auto
  then have tx: "Bag_Count t x = transitive_votes gp b x"
    using inv(6) [of x] transitive_votes_voted_kids [OF assms(1)] by simp
  have nn: "0 \<le> transitive_votes gp b x" using transitive_votes_nonneg [OF assms(2)] .
  show ?thesis
  proof (cases "x \<in> kids_of gp y")
    case True
    then have "kids_of gp y \<inter> insert x Done = insert x (kids_of gp y \<inter> Done)" "gp x = Some y"
      by (auto simp: kids_of_def)
    moreover have "x \<notin> Done" using \<open>x \<in> voted gp b - Done\<close> by simp
    ultimately show ?thesis
      using inv(6) [of y] tx nn by (simp add: push_to_parent_def Bag_Count_AddCount)
  next
    case False
    then have "kids_of gp y \<inter> insert x Done = kids_of gp y \<inter> Done" by auto
    moreover have "gp x \<noteq> Some y" using False by (simp add: kids_of_def)
    ultimately show ?thesis
      using inv(6) [of y] by (auto simp: push_to_parent_def Bag_Count_AddCount split: option.split)
  qed
qed

lemma bag_wf_push: "bag_wf t \<Longrightarrow> bag_wf (push_to_parent gp x t)"
  by (simp add: push_to_parent_def split: option.split)

lemma sort_step_root:
  assumes "acyclic_parents gp" "bag_wf b" "sort_inv gp b Done cc (x # ready) t" "gp x = None"
  shows "sort_inv gp b (insert x Done) cc ready (push_to_parent gp x t)"
proof -
  note inv = sort_invD [OF assms(3)]
  have no: "x \<notin> kids_of gp y" for y using assms(4) by (simp add: kids_of_def)
  then have ready: "kids_of gp y \<inter> voted gp b \<subseteq> insert x Done \<longleftrightarrow> kids_of gp y \<inter> voted gp b \<subseteq> Done" for y
    by blast
  have left: "kids_of gp y \<inter> voted gp b - insert x Done = kids_of gp y \<inter> voted gp b - Done" for y
    using no by auto
  have "set ready = {y \<in> voted gp b - insert x Done. kids_of gp y \<inter> voted gp b \<subseteq> insert x Done}"
    unfolding ready using inv(2) inv(3) by (auto simp: set_eq_iff)
  moreover have "insert x Done \<subseteq> voted gp b" "\<forall>y \<in> insert x Done. kids_of gp y \<inter> voted gp b \<subseteq> insert x Done"
    using inv(1,7) inv(3) [of x] by auto
  ultimately show ?thesis
    using inv(2,4) push_to_parent_count [OF assms(1-3)] bag_wf_push [OF inv(5)] left
    unfolding sort_inv_def Let_def by simp
qed

lemma sort_step_parent:
  assumes "acyclic_parents gp" "bag_wf b" "sort_inv gp b Done cc (x # ready) t" "gp x = Some p"
    and cc': "cc' = cc(p \<mapsto> count_get cc p - 1)"
  shows "sort_inv gp b (insert x Done) cc' (ready @ (if count_get cc' p = 0 then [p] else [])) (push_to_parent gp x t)"
proof -
  note inv = sort_invD [OF assms(3)]
  let ?D = "voted gp b"
  have x: "x \<in> ?D - Done" "x \<in> kids_of gp p" using inv(3) [of x] assms(4) by (auto simp: kids_of_def)
  have "p \<in> ?D" using upward_closed_voted [of gp b] x(1) assms(4) by (auto simp: upward_closed_def)
  moreover have "p \<noteq> x" using kid_not_ancestor [OF assms(1,4)] by auto
  moreover have waits: "\<not> kids_of gp p \<inter> ?D \<subseteq> Done" using x by blast
  then have "p \<notin> set (x # ready)" unfolding inv(3) [of p] by simp
  moreover have "p \<notin> Done" by (rule contrapos_nn [OF waits inv(7)])
  ultimately have p: "p \<in> ?D" "p \<noteq> x" "p \<notin> set ready" "p \<notin> Done" by simp_all
  have other: "x \<notin> kids_of gp y" if "y \<noteq> p" for y using kids_unique [OF x(2)] that by metis
  have left: "kids_of gp y \<inter> ?D - insert x Done =
      (if y = p then (kids_of gp p \<inter> ?D - Done) - {x} else kids_of gp y \<inter> ?D - Done)" for y
    using x other [of y] by (cases "y = p") auto
  have counts: "count_get cc' y = int (card (kids_of gp y \<inter> ?D - insert x Done))" if "y \<in> ?D" for y
  proof (cases "y = p")
    case True
    have "x \<in> kids_of gp p \<inter> ?D - Done" using x by simp
    then have "int (card (kids_of gp p \<inter> ?D - Done - {x})) = int (card (kids_of gp p \<inter> ?D - Done)) - 1"
      using card_Suc_Diff1 [of "kids_of gp p \<inter> ?D - Done" x] by simp
    with True inv(4) [OF p(1)] left [of p] show ?thesis by (simp add: cc' count_get_def)
  next
    case False
    with inv(4) [OF that] left [of y] show ?thesis by (simp add: cc' count_get_def)
  qed
  have fin: "count_get cc' p = 0 \<longleftrightarrow> kids_of gp p \<inter> ?D \<subseteq> insert x Done"
    using counts [OF p(1)] by auto
  have "y \<in> set (ready @ (if count_get cc' p = 0 then [p] else [])) \<longleftrightarrow>
      y \<in> ?D - insert x Done \<and> kids_of gp y \<inter> ?D \<subseteq> insert x Done" for y
  proof (cases "y = p")
    case True
    show ?thesis unfolding True using p fin by (cases "count_get cc' p = 0") simp_all
  next
    case False
    then have "kids_of gp y \<inter> ?D \<subseteq> insert x Done \<longleftrightarrow> kids_of gp y \<inter> ?D \<subseteq> Done"
      using other by blast
    then show ?thesis using False inv(2) inv(3) [of y] by auto
  qed
  then have "set (ready @ (if count_get cc' p = 0 then [p] else [])) =
      {y \<in> ?D - insert x Done. kids_of gp y \<inter> ?D \<subseteq> insert x Done}" by blast
  moreover have "distinct (ready @ (if count_get cc' p = 0 then [p] else []))" using inv(2) p(3) by auto
  moreover have "insert x Done \<subseteq> ?D" "\<forall>y \<in> insert x Done. kids_of gp y \<inter> ?D \<subseteq> insert x Done"
    using inv(1,7) inv(3) [of x] by auto
  ultimately show ?thesis
    using counts push_to_parent_count [OF assms(1-3)] bag_wf_push [OF inv(5)]
    unfolding sort_inv_def Let_def by (intro conjI ballI allI) (assumption | simp only: | blast)+
qed

lemma visitLeaves_ok:
  assumes "acyclic_parents gp" "bag_wf b" "\<And>x. x \<in> voted gp b \<Longrightarrow> \<exists>v. m x = Some v \<and> vv_parent v = gp x"
    and "\<And>x. x \<in> voted gp b \<Longrightarrow> f x = push_to_parent gp x"
    and "sort_inv gp b Done cc (leaves @ fresh) t"
  shows "\<exists>cc' fresh' t'. visitLeaves m f leaves (cc, fresh, t) = Some (cc', fresh', t') \<and>
    sort_inv gp b (Done \<union> set leaves) cc' fresh' t'"
  using assms(5)
proof (induction leaves arbitrary: Done cc fresh t)
  case (Cons x leaves)
  have inv: "sort_inv gp b Done cc (x # (leaves @ fresh)) t" using Cons.prems by simp
  have x: "x \<in> voted gp b" using sort_invD(3) [OF inv, of x] by simp
  then obtain v where v: "m x = Some v" "vv_parent v = gp x" using assms(3) by blast
  have f: "f x = push_to_parent gp x" using assms(4) [OF x] .
  show ?case
  proof (cases "gp x")
    case None
    from Cons.IH [OF sort_step_root [OF assms(1,2) inv None]] v f None show ?thesis by simp
  next
    case (Some p)
    define cc1 where "cc1 = cc(p \<mapsto> count_get cc p - 1)"
    let ?cc = cc1 and ?fresh = "fresh @ (if count_get cc1 p = 0 then [p] else [])"
    have "sort_inv gp b (insert x Done) ?cc (leaves @ ?fresh) (push_to_parent gp x t)"
      using sort_step_parent [OF assms(1,2) inv Some cc1_def] by simp
    from Cons.IH [OF this] v f Some show ?thesis
      by (cases "count_get cc1 p = 0") (simp_all add: Let_def cc1_def [symmetric])
  qed
qed (auto simp: sort_inv_def)

lemma sortLoop_ok:
  assumes "acyclic_parents gp" "bag_wf b" "\<And>x. x \<in> voted gp b \<Longrightarrow> \<exists>v. m x = Some v \<and> vv_parent v = gp x"
    and "\<And>x. x \<in> voted gp b \<Longrightarrow> f x = push_to_parent gp x"
    and "sort_inv gp b Done cc leaves t"
  shows "\<exists>t' Done' cc'. sortLoop m f cc leaves t = Some t' \<and> sort_inv gp b Done' cc' [] t'"
  using assms(5)
proof (induction "card (voted gp b - Done)" arbitrary: Done cc leaves t rule: less_induct)
  case less
  show ?case
  proof (cases "leaves = []")
    case True
    with less.prems show ?thesis by (subst sortLoop.simps) auto
  next
    case False
    from visitLeaves_ok [OF assms(1-4), of Done cc leaves "[]" t] less.prems obtain cc' fresh' t' where
      v: "visitLeaves m f leaves (cc, [], t) = Some (cc', fresh', t')"
        "sort_inv gp b (Done \<union> set leaves) cc' fresh' t'" by auto
    obtain x where "x \<in> set leaves" using False by (meson list.set_sel(1))
    then have "x \<in> voted gp b - Done" using sort_invD(3) [OF less.prems, of x] by simp
    then have "card (voted gp b - (Done \<union> set leaves)) < card (voted gp b - Done)"
      using \<open>x \<in> set leaves\<close> by (intro psubset_card_mono) auto
    from less.hyps [OF this v(2)] show ?thesis using v(1) False by (subst sortLoop.simps) simp
  qed
qed

lemma sort_inv_done:
  assumes "acyclic_parents gp" "bag_wf b" "sort_inv gp b Done cc [] t"
  shows "Bag_Count t x = transitive_votes gp b x"
proof -
  note inv = sort_invD [OF assms(3)]
  have all: "x \<in> voted gp b \<longrightarrow> x \<in> Done" for x
    using assms(1)
  proof (induction x rule: acyclic_parents_induct)
    case (less x)
    then have "kids_of gp x \<inter> voted gp b \<subseteq> Done" by (auto simp: kids_of_def)
    with inv(3) [of x] show ?case by auto
  qed
  then have "kids_of gp x \<inter> voted gp b \<subseteq> Done" by blast
  then show ?thesis using inv(6) [of x] transitive_votes_voted_kids [OF assms(1), of x b Done] by simp
qed

lemma fold_upd: "fold (\<lambda>x c. c(x \<mapsto> g x)) ys c y = (if y \<in> set ys then Some (g y) else c y)"
  by (induction ys arbitrary: c) auto

text \<open>\<open>computeTransitiveVoteCountGraph\<close> returns, and its result counts, for every block, the votes for
  the block and for the blocks that build on it, whatever the iteration orders.\<close>

lemma computeTransitive_ok:
  assumes gp: "acyclic_parents gp" and iter: "iter_ok iter" and wf: "bag_wf b"
  shows "\<exists>t. computeTransitiveVoteCountGraph (buildVoteGraph iter gp b) b = Some t \<and> bag_wf t \<and>
    (\<forall>x. Bag_Count t x = transitive_votes gp b x)"
proof -
  let ?D = "voted gp b" and ?xs = "iter (voted gp b)"
  let ?g = "buildVoteGraph iter gp b" and ?m = "graph_vertices gp (voted gp b) (iter (voted gp b))"
  have xs: "set ?xs = ?D" "distinct ?xs" using iter by (auto simp: iter_ok_def)
  have store: "vg_store ?g = ?m" "vg_leaves ?g = filter (\<lambda>x. kids_of gp x \<inter> ?D = {}) ?xs"
    by (simp_all add: buildVoteGraph_eq [OF iter] Let_def)
  from voteGraph_traverse_all [OF gp iter, of b] obtain ys where ys: "voteGraph_traverse ?g = Some ys" "set ys = ?D" by auto
  let ?cc = "fold (\<lambda>x c. c(x \<mapsto> int (length (vv_descendants (the (?m x)))))) ys Map.empty"
  let ?f = "\<lambda>x t. case ?m x of None \<Rightarrow> t | Some v \<Rightarrow>
    (case vv_parent v of None \<Rightarrow> t | Some p \<Rightarrow> Bag_AddCount t p (Bag_Count t x))"
  have "count_get ?cc x = int (card (kids_of gp x \<inter> ?D))" if "x \<in> ?D" for x
  proof -
    have "length (filter (\<lambda>c. gp c = Some x) ?xs) = card (kids_of gp x \<inter> ?D)"
      using distinct_card [of "filter (\<lambda>c. gp c = Some x) ?xs"] xs by (simp add: kids_of_def Int_def conj_commute)
    then show ?thesis using that ys(2) by (simp add: count_get_def fold_upd graph_vertices_def)
  qed
  then have "sort_inv gp b {} ?cc (vg_leaves ?g) (Bag_Clone b)"
    unfolding sort_inv_def Let_def store using xs wf by (auto simp: Bag_Clone_Filter Bag_Count_mset Bag_mset_Filter)
  moreover have "?f x = push_to_parent gp x" if "x \<in> ?D" for x
    using that xs by (auto simp: graph_vertices_def push_to_parent_def fun_eq_iff)
  ultimately obtain t Done cc where t: "sortLoop ?m ?f ?cc (vg_leaves ?g) (Bag_Clone b) = Some t" "sort_inv gp b Done cc [] t"
    using sortLoop_ok [OF gp wf, of ?m ?f "{}" ?cc "vg_leaves ?g" "Bag_Clone b"] xs by (auto simp: graph_vertices_def)
  then have "computeTransitiveVoteCountGraph ?g b = Some t"
    by (simp add: computeTransitiveVoteCountGraph_def topologicalSortTraversal_def ys store)
  with sort_inv_done [OF gp wf t(2)] sort_invD(5) [OF t(2)] show ?thesis by auto
qed

end
