(* ===== verification/Poll_Prefix.thy ===== *)
theory Poll_Prefix
  imports Ids "HOL-Library.Monad_Syntax"
begin

text \<open>
  \<open>snow/consensus/snowman/poll/prefix.go\<close>: the groups of identifiers that share a bit prefix.

  The code mutates groups in place through pointers (\<open>*pg = *descendant\<close>) while a work list holds
  pointers to them.  The store is a list of groups: a pointer is a position, an allocation appends.  A panic,
  including the one of reading a bit outside of an identifier, is \<open>None\<close>.
\<close>

record prefixGroup =
  pg_index :: nat
  pg_members :: "ID list"
  pg_children :: "nat option \<times> nat option"

type_synonym store = "prefixGroup list"

definition new_prefixGroup :: "nat \<Rightarrow> ID list \<Rightarrow> prefixGroup" where
  "new_prefixGroup index members = \<lparr>pg_index = index, pg_members = members, pg_children = (None, None)\<rparr>"

fun dedup_loop :: "ID list \<Rightarrow> ID set \<Rightarrow> ID list \<Rightarrow> ID list" where
  "dedup_loop [] used out = out"
| "dedup_loop (x # rest) used out =
     (if x \<in> used then dedup_loop rest used out
      else dedup_loop rest (insert x used) (out @ [x]))"

definition deduplicate :: "ID list \<Rightarrow> ID list" where
  "deduplicate xs = dedup_loop xs {} []"

definition isBifurcation :: "prefixGroup \<Rightarrow> bool" where
  "isBifurcation pg \<longleftrightarrow> fst (pg_children pg) \<noteq> None \<and> snd (pg_children pg) \<noteq> None"

definition canSplit :: "prefixGroup \<Rightarrow> bool" where
  "canSplit pg \<longleftrightarrow> length (pg_members pg) > 1"

definition members_with :: "nat \<Rightarrow> nat \<Rightarrow> ID list \<Rightarrow> ID list" where
  "members_with index b = filter (\<lambda>x. ID_Bit x index = b)"

text \<open>\<open>split\<close> allocates both children, distributes the members, and forgets a child without members.\<close>

definition split_group :: "store \<Rightarrow> nat \<Rightarrow> store option" where
  "split_group h a =
     (let pg = h ! a; i = pg_index pg; ms = pg_members pg in
      if ms \<noteq> [] \<and> NumBits \<le> i then None
      else
        let m0 = members_with i 0 ms; m1 = members_with i 1 ms in
        Some ((h @ [new_prefixGroup (i + 1) m0, new_prefixGroup (i + 1) m1])
          [a := pg\<lparr>pg_children :=
             (if m0 = [] then None else Some (length h), if m1 = [] then None else Some (length h + 1))\<rparr>]))"

definition determineDescendant :: "prefixGroup \<Rightarrow> nat option" where
  "determineDescendant pg =
     (case pg_children pg of
        (Some c, _) \<Rightarrow> Some c
      | (None, Some c) \<Rightarrow> Some c
      | (None, None) \<Rightarrow> None)"

text \<open>The inner loop of \<open>longestSharedPrefixes\<close>, on the group at address \<open>a\<close>, and the outer one.\<close>

partial_function (option) splitLoop :: "store \<Rightarrow> nat \<Rightarrow> nat list \<Rightarrow> (store \<times> nat list) option" where
  "splitLoop h a pgs = do {
     h' \<leftarrow> split_group h a;
     if isBifurcation (h' ! a) then
       Some (h', pgs @ [the (fst (pg_children (h' ! a))), the (snd (pg_children (h' ! a)))])
     else do {
       d \<leftarrow> determineDescendant (h' ! a);
       splitLoop (h'[a := h' ! d]) a pgs
     }
   }"

partial_function (option) groupsLoop :: "store \<Rightarrow> nat list \<Rightarrow> nat \<Rightarrow> store option" where
  "groupsLoop h pgs i =
     (if i < length pgs then
        if canSplit (h ! (pgs ! i)) then do {
          (h', pgs') \<leftarrow> splitLoop h (pgs ! i) pgs;
          groupsLoop h' pgs' (i + 1)
        }
        else groupsLoop h pgs (i + 1)
      else Some h)"

text \<open>The group that is returned is at address 0.\<close>

definition longestSharedPrefixes :: "ID list \<Rightarrow> store option" where
  "longestSharedPrefixes idList = groupsLoop [new_prefixGroup 0 (deduplicate idList)] [0] 0"

partial_function (option) prefix_traverse :: "store \<Rightarrow> nat \<Rightarrow> prefixGroup list option" where
  "prefix_traverse h a = do {
     let pg = h ! a;
     l \<leftarrow> (case fst (pg_children pg) of None \<Rightarrow> Some [] | Some c \<Rightarrow> prefix_traverse h c);
     r \<leftarrow> (case snd (pg_children pg) of None \<Rightarrow> Some [] | Some c \<Rightarrow> prefix_traverse h c);
     Some (pg # l @ r)
   }"

definition bifurcationsWithCommonPrefix :: "store \<Rightarrow> nat \<Rightarrow> ID list list option" where
  "bifurcationsWithCommonPrefix h a = do {
     pgs \<leftarrow> prefix_traverse h a;
     Some (map pg_members (filter (\<lambda>pg. isBifurcation pg \<and> pg_index pg > 0) pgs))
   }"

section \<open>Reference: the groups by recursion over the bits\<close>

text \<open>The groups of the members of a list that branch at a bit from \<open>n\<close> on, parents first.\<close>

function prefix_groups :: "nat \<Rightarrow> ID list \<Rightarrow> ID list list" where
  "prefix_groups n ms =
     (if length ms \<le> 1 \<or> NumBits \<le> n then []
      else
        let m0 = members_with n 0 ms; m1 = members_with n 1 ms in
        if m0 = [] \<or> m1 = [] then prefix_groups (Suc n) ms
        else (if n > 0 then [ms] else []) @ prefix_groups (Suc n) m0 @ prefix_groups (Suc n) m1)"
  by pat_completeness auto
termination
  by (relation "measure (\<lambda>(n, ms). NumBits - n)") (auto simp: not_le)

declare prefix_groups.simps [simp del]

definition agreeing :: "nat \<Rightarrow> ID list \<Rightarrow> bool" where
  "agreeing n ms \<longleftrightarrow> distinct ms \<and> (\<forall>x \<in> set ms. \<forall>y \<in> set ms. agree n x y)"

lemma set_members_with: "set (members_with n b ms) = {x \<in> set ms. ID_Bit x n = b}"
  by (auto simp: members_with_def)

lemma members_with_1: "members_with n 1 ms = filter (\<lambda>x. ID_Bit x n \<noteq> 0) ms"
proof -
  have "ID_Bit x n = 1 \<longleftrightarrow> ID_Bit x n \<noteq> 0" for x using ID_Bit_cases [of x n] by auto
  then show ?thesis by (simp add: members_with_def)
qed

lemma members_with_empty:
  "members_with n 0 ms = [] \<Longrightarrow> members_with n 1 ms = ms"
  "members_with n 1 ms = [] \<Longrightarrow> members_with n 0 ms = ms"
  unfolding members_with_1 by (simp_all add: members_with_def filter_empty_conv)

lemma length_members_with: "length (members_with n 0 ms) + length (members_with n 1 ms) = length ms"
  unfolding members_with_1 unfolding members_with_def by (rule sum_length_filter_compl)

lemma agreeing_members:
  assumes "agreeing n ms" shows "agreeing (Suc n) (members_with n b ms)"
  using assms by (auto simp: agreeing_def set_members_with agree_Suc) (simp add: members_with_def)

lemma agreeing_bound: "agreeing n ms \<Longrightarrow> length ms > 1 \<Longrightarrow> n < NumBits"
proof (rule ccontr)
  assume ms: "agreeing n ms" "length ms > 1" "\<not> n < NumBits"
  then have "ms ! 0 \<in> set ms" "ms ! 1 \<in> set ms" by (auto intro: nth_mem)
  with ms(1) have "agree n (ms ! 0) (ms ! 1)" by (simp only: agreeing_def)
  then have "ms ! 0 = ms ! 1"
    using agree_mono [of n "ms ! 0" "ms ! 1" NumBits] agree_NumBits [of "ms ! 0" "ms ! 1"] ms(3) by simp
  moreover have "distinct ms" using ms(1) by (simp add: agreeing_def)
  ultimately show False using ms(2) nth_eq_iff_index_eq [of ms 0 1] by (cases ms) auto
qed

section \<open>The inner loop\<close>

text \<open>The group at an address after the loop has ended in a bifurcation, the other groups being kept.\<close>

definition bifurcated :: "store \<Rightarrow> nat \<Rightarrow> ID list \<Rightarrow> nat \<Rightarrow> store \<Rightarrow> nat \<Rightarrow> nat \<Rightarrow> bool" where
  "bifurcated h a ms n h' c0 c1 \<longleftrightarrow>
     n < NumBits \<and> h' ! a = \<lparr>pg_index = n, pg_members = ms, pg_children = (Some c0, Some c1)\<rparr> \<and>
     h' ! c0 = new_prefixGroup (Suc n) (members_with n 0 ms) \<and>
     h' ! c1 = new_prefixGroup (Suc n) (members_with n 1 ms) \<and>
     members_with n 0 ms \<noteq> [] \<and> members_with n 1 ms \<noteq> [] \<and> agreeing n ms \<and>
     length h \<le> c0 \<and> c0 < c1 \<and> c1 < length h' \<and> length h \<le> length h' \<and>
     (\<forall>b < length h. b \<noteq> a \<longrightarrow> h' ! b = h ! b)"

lemma splitLoop_ok:
  assumes "a < length h" "h ! a = \<lparr>pg_index = n, pg_members = ms, pg_children = (None, None)\<rparr>"
    and "agreeing n ms" "length ms > 1"
  shows "\<exists>m h' c0 c1. splitLoop h a pgs = Some (h', pgs @ [c0, c1]) \<and> n \<le> m \<and> bifurcated h a ms m h' c0 c1 \<and>
    prefix_groups n ms = (if m > 0 then [ms] else []) @ prefix_groups (Suc m) (members_with m 0 ms) @
      prefix_groups (Suc m) (members_with m 1 ms)"
  using assms
proof (induction "NumBits - n" arbitrary: n h rule: less_induct)
  case less
  have n: "n < NumBits" using agreeing_bound [OF less.prems(3,4)] .
  let ?m0 = "members_with n 0 ms" and ?m1 = "members_with n 1 ms" and ?l = "length h"
  let ?cs = "(if ?m0 = [] then None else Some ?l, if ?m1 = [] then None else Some (Suc ?l))"
  define H where "H = (h @ [new_prefixGroup (Suc n) ?m0, new_prefixGroup (Suc n) ?m1])
    [a := \<lparr>pg_index = n, pg_members = ms, pg_children = ?cs\<rparr>]"
  have split: "split_group h a = Some H" using less.prems(1,2) n by (simp add: split_group_def Let_def H_def)
  have at: "H ! a = \<lparr>pg_index = n, pg_members = ms, pg_children = ?cs\<rparr>"
    "H ! ?l = new_prefixGroup (Suc n) ?m0" "H ! Suc ?l = new_prefixGroup (Suc n) ?m1"
    "length H = Suc (Suc ?l)" "\<forall>b < ?l. b \<noteq> a \<longrightarrow> H ! b = h ! b"
    using less.prems(1) by (simp_all add: H_def nth_append)
  show ?case
  proof (cases "?m0 = [] \<or> ?m1 = []")
    case False
    then have "splitLoop h a pgs = Some (H, pgs @ [?l, Suc ?l])"
      by (subst splitLoop.simps) (simp add: split at isBifurcation_def)
    moreover have "bifurcated h a ms n H ?l (Suc ?l)"
      using False at less.prems n unfolding bifurcated_def by simp
    moreover have "prefix_groups n ms = (if n > 0 then [ms] else []) @ prefix_groups (Suc n) ?m0 @ prefix_groups (Suc n) ?m1"
      using False less.prems(4) n by (subst prefix_groups.simps) (simp add: Let_def)
    ultimately show ?thesis by blast
  next
    case True
    let ?d = "if ?m0 = [] then Suc ?l else ?l"
    let ?h1 = "H[a := new_prefixGroup (Suc n) ms]"
    have all: "H ! ?d = new_prefixGroup (Suc n) ms"
      using True at(2,3) members_with_empty [of n ms] by (cases "?m0 = []") simp_all
    have "?m0 \<noteq> [] \<or> ?m1 \<noteq> []" using less.prems(4) members_with_empty(1) [of n ms] by auto
    then have "\<not> isBifurcation (H ! a)" "determineDescendant (H ! a) = Some ?d"
      using True at(1) by (auto simp: isBifurcation_def determineDescendant_def)
    then have loop: "splitLoop h a pgs = splitLoop ?h1 a pgs"
      by (subst splitLoop.simps) (simp only: split all bind.bind_lunit if_False)
    have groups: "prefix_groups n ms = prefix_groups (Suc n) ms"
      using True less.prems(4) n by (subst prefix_groups.simps) (auto simp: Let_def)
    have agr: "agreeing (Suc n) ms"
      using True agreeing_members [OF less.prems(3)] members_with_empty [of n ms] by metis
    have h1: "a < length ?h1" "?h1 ! a = \<lparr>pg_index = Suc n, pg_members = ms, pg_children = (None, None)\<rparr>"
      using less.prems(1) at(4) by (simp_all add: new_prefixGroup_def)
    have less': "NumBits - Suc n < NumBits - n" using n by simp
    obtain m h' c0 c1 where r: "splitLoop ?h1 a pgs = Some (h', pgs @ [c0, c1])" "Suc n \<le> m"
      "bifurcated ?h1 a ms m h' c0 c1" "prefix_groups (Suc n) ms = (if m > 0 then [ms] else []) @
        prefix_groups (Suc m) (members_with m 0 ms) @ prefix_groups (Suc m) (members_with m 1 ms)"
      using less.hyps [OF less' h1 agr less.prems(4)] by blast
    have "bifurcated h a ms m h' c0 c1" using r(3) at(4,5) unfolding bifurcated_def by auto
    then show ?thesis unfolding loop groups r(1,4) using r(2)
      by (intro exI [of _ m] exI [of _ h'] exI [of _ c0] exI [of _ c1]) simp
  qed
qed

section \<open>The outer loop\<close>

text \<open>The groups below an address, as the reference computes them from its index and its members.\<close>

definition groups_at :: "store \<Rightarrow> nat \<Rightarrow> ID list list" where
  "groups_at h a = prefix_groups (pg_index (h ! a)) (pg_members (h ! a))"

definition pending :: "store \<Rightarrow> nat \<Rightarrow> bool" where
  "pending h a \<longleftrightarrow> a < length h \<and> pg_children (h ! a) = (None, None) \<and> agreeing (pg_index (h ! a)) (pg_members (h ! a))"

definition branches :: "store \<Rightarrow> nat \<Rightarrow> nat \<Rightarrow> nat \<Rightarrow> bool" where
  "branches h a c0 c1 \<longleftrightarrow> pg_children (h ! a) = (Some c0, Some c1) \<and> pg_index (h ! a) < NumBits \<and>
     pg_index (h ! a) < pg_index (h ! c0) \<and> pg_index (h ! a) < pg_index (h ! c1) \<and>
     groups_at h a = (if pg_index (h ! a) > 0 then [pg_members (h ! a)] else []) @ groups_at h c0 @ groups_at h c1"

definition settled :: "store \<Rightarrow> nat set \<Rightarrow> nat \<Rightarrow> bool" where
  "settled h A a \<longleftrightarrow> a < length h \<and>
     (pg_children (h ! a) = (None, None) \<and> groups_at h a = [] \<or> (\<exists>c0 \<in> A. \<exists>c1 \<in> A. branches h a c0 c1))"

definition groups_inv :: "store \<Rightarrow> nat list \<Rightarrow> nat \<Rightarrow> bool" where
  "groups_inv h pgs i \<longleftrightarrow> distinct pgs \<and> set pgs \<subseteq> {..<length h} \<and>
     (\<forall>a \<in> set (take i pgs). settled h (set pgs) a) \<and> (\<forall>a \<in> set (drop i pgs). pending h a)"

definition group_weight :: "store \<Rightarrow> nat list \<Rightarrow> nat" where
  "group_weight h as = (\<Sum>a\<leftarrow>as. 2 * max 1 (length (pg_members (h ! a))) - 1)"

lemma groups_at_bifurcated:
  assumes "bifurcated h a ms n h' c0 c1"
  shows "branches h' a c0 c1" "pending h' c0" "pending h' c1"
    "groups_at h' a = prefix_groups n ms" "pg_index (h' ! a) = n"
proof -
  note b = assms [unfolded bifurcated_def]
  have "length ms > 1" using b length_members_with [of n ms] by (cases "members_with n 0 ms"; cases "members_with n 1 ms") auto
  then have "prefix_groups n ms = (if n > 0 then [ms] else []) @
      prefix_groups (Suc n) (members_with n 0 ms) @ prefix_groups (Suc n) (members_with n 1 ms)"
    using b by (subst prefix_groups.simps) (simp add: Let_def)
  then show "branches h' a c0 c1" using b by (simp add: branches_def groups_at_def new_prefixGroup_def)
  show "pending h' c0" "pending h' c1" "groups_at h' a = prefix_groups n ms" "pg_index (h' ! a) = n"
    using b agreeing_members [of n ms] by (simp_all add: pending_def new_prefixGroup_def groups_at_def)
qed

lemma branches_mono:
  assumes "branches h a c0 c1" "h' ! a = h ! a"
    and "\<And>c. c \<in> {c0, c1} \<Longrightarrow> groups_at h' c = groups_at h c \<and> pg_index (h ! c) \<le> pg_index (h' ! c)"
  shows "branches h' a c0 c1"
  using assms(1,2) assms(3) [of c0] assms(3) [of c1] by (auto simp: branches_def groups_at_def [of _ a])

lemma settled_mono:
  assumes "settled h A x" "A \<subseteq> B" "h' ! x = h ! x" "length h \<le> length h'"
    and "\<And>c. c \<in> A \<Longrightarrow> groups_at h' c = groups_at h c \<and> pg_index (h ! c) \<le> pg_index (h' ! c)"
  shows "settled h' B x"
proof -
  have "groups_at h' x = groups_at h x" using assms(3) by (simp add: groups_at_def)
  moreover have "branches h' x c0 c1" if "branches h x c0 c1" "c0 \<in> A" "c1 \<in> A" for c0 c1
    using assms(5) that by (intro branches_mono [OF that(1) assms(3)]) auto
  ultimately show ?thesis using assms(1-4) unfolding settled_def by (metis order.strict_trans2 subsetD)
qed

lemma bifurcated_keeps:
  assumes "bifurcated h a ms m h' c0 c1" "n \<le> m" "prefix_groups n ms = prefix_groups m ms"
    and "pg_index (h ! a) = n" "pg_members (h ! a) = ms" "x < length h"
  shows "groups_at h' x = groups_at h x \<and> pg_index (h ! x) \<le> pg_index (h' ! x)"
  using assms groups_at_bifurcated(4,5) [OF assms(1)]
  by (cases "x = a") (auto simp: groups_at_def bifurcated_def)

lemma splitLoop_keeps:
  assumes "pending h a" "canSplit (h ! a)"
  obtains h' c0 c1 m where "splitLoop h a pgs = Some (h', pgs @ [c0, c1])"
    "bifurcated h a (pg_members (h ! a)) m h' c0 c1"
    "\<And>x. x < length h \<Longrightarrow> groups_at h' x = groups_at h x \<and> pg_index (h ! x) \<le> pg_index (h' ! x)"
proof -
  obtain n ms where a: "h ! a = \<lparr>pg_index = n, pg_members = ms, pg_children = (None, None)\<rparr>" "a < length h" "agreeing n ms"
    using assms(1) by (cases "h ! a") (auto simp: pending_def)
  have ms: "length ms > 1" using assms(2) a(1) by (simp add: canSplit_def)
  from splitLoop_ok [OF a(2,1,3) ms, of pgs] obtain m h' c0 c1 where r: "splitLoop h a pgs = Some (h', pgs @ [c0, c1])"
    "n \<le> m" "bifurcated h a ms m h' c0 c1" "prefix_groups n ms = (if m > 0 then [ms] else []) @
      prefix_groups (Suc m) (members_with m 0 ms) @ prefix_groups (Suc m) (members_with m 1 ms)" by blast
  have "prefix_groups n ms = prefix_groups m ms"
    using groups_at_bifurcated(1,4,5) [OF r(3)] r(3,4)
    by (simp add: branches_def groups_at_def new_prefixGroup_def bifurcated_def)
  with that [OF r(1)] bifurcated_keeps [OF r(3,2)] r(3) a(1) show thesis by simp
qed

lemma groups_inv_split:
  assumes inv: "groups_inv h (ps @ a # qs) (length ps)" and b: "bifurcated h a ms m h' c0 c1"
    and keep: "\<And>x. x < length h \<Longrightarrow> groups_at h' x = groups_at h x \<and> pg_index (h ! x) \<le> pg_index (h' ! x)"
  shows "groups_inv h' (ps @ a # qs @ [c0, c1]) (Suc (length ps))"
proof -
  let ?A = "set (ps @ a # qs @ [c0, c1])"
  have lt: "x < length h" "h' ! x = h ! x \<or> x = a" if "x \<in> set (ps @ a # qs)" for x
    using that inv b by (auto simp: groups_inv_def bifurcated_def)
  have dist: "distinct (ps @ a # qs)" using inv by (simp add: groups_inv_def)
  have "settled h' ?A x" if "x \<in> set ps" for x
  proof -
    have x: "settled h (set (ps @ a # qs)) x" using that inv by (simp add: groups_inv_def)
    have xa: "h' ! x = h ! x" using lt(2) [of x] that dist by auto
    show ?thesis by (rule settled_mono [OF x _ xa]) (use b keep [OF lt(1)] in \<open>auto simp: bifurcated_def\<close>)
  qed
  moreover have "settled h' ?A a"
    using groups_at_bifurcated(1) [OF b] b lt(1) [of a] by (auto simp: settled_def bifurcated_def)
  moreover have "pending h' x" if "x \<in> set qs" for x
  proof -
    have "h' ! x = h ! x" using lt(2) [of x] that dist by auto
    moreover have "pending h x" "length h \<le> length h'" using that inv b by (simp_all add: groups_inv_def bifurcated_def)
    ultimately show ?thesis by (simp add: pending_def)
  qed
  moreover have c: "length h \<le> c0" "c0 < c1" "c1 < length h'" using b by (simp_all add: bifurcated_def)
  then have "c0 \<notin> set (ps @ a # qs)" "c1 \<notin> set (ps @ a # qs)" using lt(1) [of c0] lt(1) [of c1] by force+
  then have "distinct (ps @ a # qs @ [c0, c1])" using dist c(2) by simp
  moreover have "?A \<subseteq> {..<length h'}" using c lt(1) by fastforce
  ultimately show ?thesis using groups_at_bifurcated(2,3) [OF b] by (auto simp: groups_inv_def)
qed

lemma group_weight_split:
  assumes "bifurcated h a ms m h' c0 c1" "pg_members (h ! a) = ms" "a \<notin> set qs" "set qs \<subseteq> {..<length h}"
  shows "group_weight h' (qs @ [c0, c1]) < group_weight h (a # qs)"
proof -
  have "group_weight h' qs = group_weight h qs"
    unfolding group_weight_def using assms by (intro arg_cong [of _ _ sum_list] map_cong) (auto simp: bifurcated_def)
  moreover have "length (members_with m 0 ms) \<noteq> 0" "length (members_with m 1 ms) \<noteq> 0"
    using assms(1) by (simp_all add: bifurcated_def)
  then have "(2 * max 1 (length (members_with m 0 ms)) - 1) + (2 * max 1 (length (members_with m 1 ms)) - 1) <
      2 * max 1 (length ms) - 1" using length_members_with [of m ms] by arith
  moreover have "pg_members (h' ! c0) = members_with m 0 ms" "pg_members (h' ! c1) = members_with m 1 ms"
    using assms(1) by (simp_all add: bifurcated_def new_prefixGroup_def)
  ultimately show ?thesis using assms(2) by (simp add: group_weight_def)
qed

text \<open>The loop returns, and the groups below the address of the result are those of the reference.\<close>

lemma groupsLoop_ok:
  assumes "groups_inv h (ps @ qs) (length ps)"
  shows "\<exists>h' rs. groupsLoop h (ps @ qs) (length ps) = Some h' \<and> groups_inv h' (ps @ qs @ rs) (length (ps @ qs @ rs)) \<and>
    (\<forall>x < length h. groups_at h' x = groups_at h x)"
  using assms
proof (induction "group_weight h qs" arbitrary: h ps qs rule: less_induct)
  case less
  show ?case
  proof (cases qs)
    case Nil
    then show ?thesis using less.prems by (subst groupsLoop.simps) (auto intro: exI [of _ "[]"])
  next
    case (Cons a as)
    have "pending h a" using less.prems Cons by (simp add: groups_inv_def)
    show ?thesis
    proof (cases "canSplit (h ! a)")
      case True
      from splitLoop_keeps [OF \<open>pending h a\<close> True, of "ps @ qs"] obtain h1 c0 c1 m where
        r: "splitLoop h a (ps @ qs) = Some (h1, (ps @ qs) @ [c0, c1])" "bifurcated h a (pg_members (h ! a)) m h1 c0 c1"
        "\<And>x. x < length h \<Longrightarrow> groups_at h1 x = groups_at h x \<and> pg_index (h ! x) \<le> pg_index (h1 ! x)" by blast
      have "groups_inv h1 ((ps @ [a]) @ (as @ [c0, c1])) (length (ps @ [a]))"
        using groups_inv_split [OF _ r(2,3)] less.prems Cons by simp
      moreover have "group_weight h1 (as @ [c0, c1]) < group_weight h qs"
        unfolding Cons by (rule group_weight_split [OF r(2) refl]) (use less.prems Cons in \<open>auto simp: groups_inv_def\<close>)
      ultimately obtain h' rs where
        h': "groupsLoop h1 ((ps @ [a]) @ (as @ [c0, c1])) (length (ps @ [a])) = Some h'"
          "groups_inv h' ((ps @ [a]) @ (as @ [c0, c1]) @ rs) (length ((ps @ [a]) @ (as @ [c0, c1]) @ rs))"
          "\<forall>x < length h1. groups_at h' x = groups_at h1 x"
        using less.hyps by blast
      have "length h \<le> length h1" using r(2) by (simp add: bifurcated_def)
      with r(3) h'(3) have "\<forall>x < length h. groups_at h' x = groups_at h x" by simp
      moreover have "groupsLoop h (ps @ qs) (length ps) = Some h'"
        using h'(1) r(1) True Cons by (subst groupsLoop.simps) simp
      ultimately show ?thesis using h'(2) Cons by (intro exI [of _ h'] exI [of _ "[c0, c1] @ rs"]) simp
    next
      case False
      then have "groups_at h a = []" unfolding groups_at_def by (subst prefix_groups.simps) (simp add: canSplit_def)
      with \<open>pending h a\<close> less.prems Cons have "groups_inv h ((ps @ [a]) @ as) (length (ps @ [a]))"
        by (auto simp: groups_inv_def settled_def pending_def)
      moreover have "group_weight h as < group_weight h qs" using Cons by (simp add: group_weight_def)
      ultimately obtain h' rs where "groupsLoop h ((ps @ [a]) @ as) (length (ps @ [a])) = Some h'"
        "groups_inv h' ((ps @ [a]) @ as @ rs) (length ((ps @ [a]) @ as @ rs))"
        "\<forall>x < length h. groups_at h' x = groups_at h x" using less.hyps by blast
      with False Cons show ?thesis by (subst groupsLoop.simps) auto
    qed
  qed
qed

section \<open>The groups of the result\<close>

lemma prefix_traverse_ok:
  assumes "\<And>x. x \<in> A \<Longrightarrow> settled h A x" "a \<in> A"
  shows "\<exists>gs. prefix_traverse h a = Some gs \<and>
    map pg_members (filter (\<lambda>pg. isBifurcation pg \<and> pg_index pg > 0) gs) = groups_at h a"
  using assms(2)
proof (induction "NumBits - pg_index (h ! a)" arbitrary: a rule: less_induct)
  case less
  from assms(1) [OF less.prems] consider "pg_children (h ! a) = (None, None)" "groups_at h a = []"
    | c0 c1 where "c0 \<in> A" "c1 \<in> A" "branches h a c0 c1" by (auto simp: settled_def)
  then show ?case
  proof cases
    case 1
    then show ?thesis by (subst prefix_traverse.simps) (simp add: isBifurcation_def)
  next
    case (2 c0 c1)
    note b = 2(3) [unfolded branches_def]
    have lt: "NumBits - pg_index (h ! c0) < NumBits - pg_index (h ! a)" "NumBits - pg_index (h ! c1) < NumBits - pg_index (h ! a)"
      using b by auto
    obtain g0 g1 where g: "prefix_traverse h c0 = Some g0" "prefix_traverse h c1 = Some g1"
      "map pg_members (filter (\<lambda>pg. isBifurcation pg \<and> pg_index pg > 0) g0) = groups_at h c0"
      "map pg_members (filter (\<lambda>pg. isBifurcation pg \<and> pg_index pg > 0) g1) = groups_at h c1"
      using less.hyps [OF lt(1) 2(1)] less.hyps [OF lt(2) 2(2)] by blast
    have "prefix_traverse h a = Some (h ! a # g0 @ g1)" using b g(1,2) by (subst prefix_traverse.simps) simp
    then show ?thesis using b g(3,4) by (simp add: isBifurcation_def)
  qed
qed

lemma dedup_loop_ok:
  assumes "distinct out" "set out = used"
  shows "distinct (dedup_loop xs used out) \<and> set (dedup_loop xs used out) = used \<union> set xs"
  using assms by (induction xs used out rule: dedup_loop.induct) auto

lemma deduplicate_ok [simp]: "distinct (deduplicate xs)" "set (deduplicate xs) = set xs"
  using dedup_loop_ok [of "[]" "{}" xs] by (auto simp: deduplicate_def)

lemma longestSharedPrefixes_ok:
  "\<exists>h. longestSharedPrefixes xs = Some h \<and>
     bifurcationsWithCommonPrefix h 0 = Some (prefix_groups 0 (deduplicate xs))"
proof -
  let ?h = "[new_prefixGroup 0 (deduplicate xs)]"
  have "groups_inv ?h ([] @ [0]) (length ([] :: nat list))"
    by (simp add: groups_inv_def pending_def new_prefixGroup_def agreeing_def)
  from groupsLoop_ok [OF this] obtain h rs where h: "groupsLoop ?h [0] 0 = Some h"
    "groups_inv h (0 # rs) (length (0 # rs))" "groups_at h 0 = groups_at ?h 0" by auto
  from h(2) have "settled h (set (0 # rs)) x" if "x \<in> set (0 # rs)" for x using that by (auto simp: groups_inv_def)
  from prefix_traverse_ok [OF this, where a = 0] obtain gs where "prefix_traverse h 0 = Some gs"
    "map pg_members (filter (\<lambda>pg. isBifurcation pg \<and> pg_index pg > 0) gs) = groups_at h 0" by auto
  then have "bifurcationsWithCommonPrefix h 0 = Some (prefix_groups 0 (deduplicate xs))"
    using h(3) by (simp add: bifurcationsWithCommonPrefix_def groups_at_def new_prefixGroup_def)
  then show ?thesis using h(1) by (simp add: longestSharedPrefixes_def)
qed

text \<open>Reference groups: the members that agree with one of them on a prefix after which they differ.\<close>

definition shared_prefix_group :: "nat \<Rightarrow> ID list \<Rightarrow> ID list \<Rightarrow> bool" where
  "shared_prefix_group k ms g \<longleftrightarrow> 0 < k \<and> k < NumBits \<and> (\<exists>y \<in> set ms. g = filter (agree k y) ms) \<and>
     (\<exists>a \<in> set g. \<exists>b \<in> set g. ID_Bit a k \<noteq> ID_Bit b k)"

lemma shared_prefix_group_members:
  assumes "n < k"
  shows "shared_prefix_group k ms g \<longleftrightarrow>
    shared_prefix_group k (members_with n 0 ms) g \<or> shared_prefix_group k (members_with n 1 ms) g"
proof -
  have same: "filter (agree k y) (members_with n v ms) = filter (agree k y) ms" if "ID_Bit y n = v" for y v
    unfolding members_with_def filter_filter
    by (rule filter_cong) (use that assms in \<open>auto simp: agree_def\<close>)
  show ?thesis
    unfolding shared_prefix_group_def set_members_with
    using ID_Bit_cases [of _ n] by (auto simp: same)
qed

lemma members_with_same:
  assumes "members_with n 0 ms = [] \<or> members_with n 1 ms = []" "x \<in> set ms" "y \<in> set ms"
  shows "ID_Bit x n = ID_Bit y n"
  using assms ID_Bit_cases [of x n] ID_Bit_cases [of y n] by (auto simp: members_with_def filter_empty_conv)

lemma members_with_flat:
  assumes "agreeing n ms" "members_with n 0 ms = [] \<or> members_with n 1 ms = []"
  shows "agreeing (Suc n) ms" "\<not> shared_prefix_group n ms g"
proof -
  show "agreeing (Suc n) ms"
    using assms(1) members_with_same [OF assms(2)] unfolding agreeing_def agree_Suc by blast
  show "\<not> shared_prefix_group n ms g"
  proof
    assume "shared_prefix_group n ms g"
    then obtain a b where "a \<in> set ms" "b \<in> set ms" "ID_Bit a n \<noteq> ID_Bit b n"
      by (auto simp: shared_prefix_group_def)
    with members_with_same [OF assms(2)] show False by blast
  qed
qed

lemma prefix_groups_iff:
  assumes "agreeing n ms"
  shows "g \<in> set (prefix_groups n ms) \<longleftrightarrow> (\<exists>k \<ge> n. shared_prefix_group k ms g)"
  using assms
proof (induction n ms rule: prefix_groups.induct)
  case (1 n ms)
  let ?m0 = "members_with n 0 ms" and ?m1 = "members_with n 1 ms"
  have split: "(\<exists>k \<ge> n. shared_prefix_group k ms g) \<longleftrightarrow>
      shared_prefix_group n ms g \<or> (\<exists>k \<ge> Suc n. shared_prefix_group k ms g)"
    by (metis Suc_leD Suc_le_eq le_eq_less_or_eq)
  show ?case
  proof (cases "length ms \<le> 1 \<or> NumBits \<le> n")
    case True
    have "\<not> shared_prefix_group k ms g" if "k \<ge> n" for k
    proof
      assume sh: "shared_prefix_group k ms g"
      then have "n < NumBits" "set g \<subseteq> set ms" using that by (auto simp: shared_prefix_group_def)
      with True sh show False by (cases ms rule: remdups_adj.cases) (auto simp: shared_prefix_group_def)
    qed
    then show ?thesis using True by (subst prefix_groups.simps) auto
  next
    case False
    then have n: "length ms > 1" "n < NumBits" by auto
    show ?thesis
    proof (cases "?m0 = [] \<or> ?m1 = []")
      case True
      note flat = members_with_flat [OF 1(4) True]
      have "prefix_groups n ms = prefix_groups (Suc n) ms"
        using True False by (subst prefix_groups.simps) (auto simp: Let_def)
      then show ?thesis unfolding split using 1(1) [OF False refl refl True flat(1)] flat(2) by simp
    next
      case nonempty: False
      have "filter (agree n y) ms = ms" if "y \<in> set ms" for y
        using 1(4) that by (intro filter_True) (auto simp: agreeing_def)
      moreover have "\<exists>a \<in> set ms. \<exists>b \<in> set ms. ID_Bit a n \<noteq> ID_Bit b n"
      proof -
        from nonempty obtain a b where "a \<in> set ?m0" "b \<in> set ?m1" by (meson list.set_sel(1))
        then show ?thesis unfolding set_members_with by (intro bexI [of _ a] bexI [of _ b]) auto
      qed
      ultimately have at_n: "shared_prefix_group n ms g \<longleftrightarrow> 0 < n \<and> g = ms"
        using n by (auto simp: shared_prefix_group_def)
      have "prefix_groups n ms = (if n > 0 then [ms] else []) @ prefix_groups (Suc n) ?m0 @ prefix_groups (Suc n) ?m1"
        using nonempty False by (subst prefix_groups.simps) (simp add: Let_def)
      then have "g \<in> set (prefix_groups n ms) \<longleftrightarrow> 0 < n \<and> g = ms \<or>
          g \<in> set (prefix_groups (Suc n) ?m0) \<or> g \<in> set (prefix_groups (Suc n) ?m1)" by auto
      also have "\<dots> \<longleftrightarrow> shared_prefix_group n ms g \<or> (\<exists>k \<ge> Suc n. shared_prefix_group k ms g)"
        unfolding at_n 1(2) [OF False refl refl nonempty agreeing_members [OF 1(4)]]
          1(3) [OF False refl refl nonempty agreeing_members [OF 1(4)]]
        using shared_prefix_group_members [of n _ ms g] by (metis Suc_le_eq)
      finally show ?thesis unfolding split .
    qed
  qed
qed

text \<open>C11. \<open>longestSharedPrefixes\<close> returns for every list of identifiers, although its inner loop has no
  bound and it rewrites groups in place, and \<open>bifurcationsWithCommonPrefix\<close> then gives the groups of a
  plain recursion over the bits of the identifiers without duplicates.  These are, without any other, the sets of identifiers that
  agree with one of them on a prefix that is not empty and differ on the bit after it: one group for every
  prefix on which the snow tree runs a unary instance above a fork.\<close>

theorem shared_prefixes_exact:
  "\<exists>h gs. longestSharedPrefixes xs = Some h \<and> bifurcationsWithCommonPrefix h 0 = Some gs \<and>
     gs = prefix_groups 0 (deduplicate xs) \<and>
     (\<forall>g. g \<in> set gs \<longleftrightarrow> (\<exists>k. shared_prefix_group k (deduplicate xs) g))"
proof -
  have "agreeing 0 (deduplicate xs)" by (simp add: agreeing_def)
  then show ?thesis using longestSharedPrefixes_ok [of xs] prefix_groups_iff [of 0 "deduplicate xs"] by auto
qed

end
