(* ===== verification/Poll_Early.thy ===== *)
theory Poll_Early
  imports Poll_Graph Poll_Prefix
begin

text \<open>
  \<open>snow/consensus/snowman/poll/early_term_traversal.go\<close>: a poll that ends as soon as the responses that are
  still missing cannot change its outcome.

  The factory's thresholds are fields of the poll.  \<open>getParent\<close> (the interface \<open>BlockTraversal\<close>) and the
  iteration order of the maps are arguments of \<open>Finished\<close>, since the chain may change between two calls.  The
  metrics and the start time have no influence on the result and are left out.
\<close>

record earlyTermPoll =
  et_votes :: "ID Bag"
  et_polled :: "NodeID Bag"
  et_alphaPreference :: int
  et_alphaConfidence :: int
  et_finished :: bool

definition earlyTerm_New :: "int \<Rightarrow> int \<Rightarrow> NodeID Bag \<Rightarrow> earlyTermPoll" where
  "earlyTerm_New alphaPreference alphaConfidence vdrs =
     \<lparr>et_votes = Bag_empty, et_polled = vdrs, et_alphaPreference = alphaPreference,
      et_alphaConfidence = alphaConfidence, et_finished = False\<rparr>"

definition earlyTerm_Vote :: "earlyTermPoll \<Rightarrow> NodeID \<Rightarrow> ID \<Rightarrow> earlyTermPoll" where
  "earlyTerm_Vote p vdr vote =
     (let count = Bag_Count (et_polled p) vdr;
          p = p\<lparr>et_polled := Bag_Remove (et_polled p) vdr\<rparr> in
      p\<lparr>et_votes := Bag_AddCount (et_votes p) vote count\<rparr>)"

definition earlyTerm_Drop :: "earlyTermPoll \<Rightarrow> NodeID \<Rightarrow> earlyTermPoll" where
  "earlyTerm_Drop p vdr = p\<lparr>et_polled := Bag_Remove (et_polled p) vdr\<rparr>"

definition shouldTerminate :: "earlyTermPoll \<Rightarrow> int \<Rightarrow> int \<Rightarrow> bool" where
  "shouldTerminate p freq remaining =
     (let maxPossibleVotes = freq + remaining in
      maxPossibleVotes < et_alphaPreference p \<or>
      (freq \<ge> et_alphaPreference p \<and> maxPossibleVotes < et_alphaConfidence p) \<or>
      freq \<ge> et_alphaConfidence p)"

definition earlyTerm_Result :: "earlyTermPoll \<Rightarrow> ID Bag" where
  "earlyTerm_Result p = et_votes p"

definition sumVotesFromIDs :: "ID list \<Rightarrow> ID Bag \<Rightarrow> int" where
  "sumVotesFromIDs ids transitiveVotes = fold (\<lambda>x count. count + Bag_Count transitiveVotes x) ids 0"

definition descendantIDsOfVertex :: "vertices \<Rightarrow> ID \<Rightarrow> ID list" where
  "descendantIDsOfVertex m x = (case m x of Some v \<Rightarrow> vv_descendants v | None \<Rightarrow> [])"

text \<open>The callback of \<open>computeTransitiveVotesForPrefixes\<close> on the vertices in the order of the traversal.\<close>

fun votesForPrefixes :: "vertices \<Rightarrow> ID Bag \<Rightarrow> ID list \<Rightarrow> int list option" where
  "votesForPrefixes m transitiveVotes [] = Some []"
| "votesForPrefixes m transitiveVotes (x # rest) = do {
     h \<leftarrow> longestSharedPrefixes (descendantIDsOfVertex m x);
     groups \<leftarrow> bifurcationsWithCommonPrefix h 0;
     others \<leftarrow> votesForPrefixes m transitiveVotes rest;
     Some (map (\<lambda>ids. sumVotesFromIDs ids transitiveVotes) groups @ others)
   }"

definition computeTransitiveVotesForPrefixes :: "voteGraph \<Rightarrow> ID Bag \<Rightarrow> int list option" where
  "computeTransitiveVotesForPrefixes votesGraph transitiveVotes = do {
     visited \<leftarrow> voteGraph_traverse votesGraph;
     votesForPrefixes (vg_store votesGraph) transitiveVotes visited
   }"

definition aggregateVotesFromPrefixesAndIDs :: "int list \<Rightarrow> ID Bag \<Rightarrow> int list" where
  "aggregateVotesFromPrefixesAndIDs transitiveVotesForPrefixes transitiveVotes =
     map (Bag_Count transitiveVotes) (Bag_List transitiveVotes) @ transitiveVotesForPrefixes"

definition earlyTerm_Finished ::
  "(ID set \<Rightarrow> ID list) \<Rightarrow> parents \<Rightarrow> earlyTermPoll \<Rightarrow> (bool \<times> earlyTermPoll) option" where
  "earlyTerm_Finished iter getParent p =
     (if et_finished p then Some (True, p)
      else
        let remaining = Bag_Len (et_polled p) in
        if remaining = 0 then Some (True, p\<lparr>et_finished := True\<rparr>)
        else
          let received = Bag_Len (et_votes p);
              maxPossibleVotes = received + remaining in
          if maxPossibleVotes < et_alphaPreference p then Some (True, p\<lparr>et_finished := True\<rparr>)
          else do {
            let votesGraph = buildVoteGraph iter getParent (et_votes p);
            transitiveVotes \<leftarrow> computeTransitiveVoteCountGraph votesGraph (et_votes p);
            transitiveVotesForPrefixes \<leftarrow> computeTransitiveVotesForPrefixes votesGraph transitiveVotes;
            let voteCounts = aggregateVotesFromPrefixesAndIDs transitiveVotesForPrefixes transitiveVotes;
            let weCantImprove = (voteCounts \<noteq> [] \<and> list_all (\<lambda>c. shouldTerminate p c remaining) voteCounts);
            Some (weCantImprove, if weCantImprove then p\<lparr>et_finished := True\<rparr> else p)
          })"

section \<open>The counts a poll looks at\<close>

text \<open>The groups of children of a block that share a prefix, and the votes for a group.\<close>

definition prefix_sets :: "ID set \<Rightarrow> ID set set" where
  "prefix_sets S = {G. \<exists>k y. 0 < k \<and> k < NumBits \<and> y \<in> S \<and> G = {c \<in> S. agree k y c} \<and>
     (\<exists>a \<in> G. \<exists>b \<in> G. ID_Bit a k \<noteq> ID_Bit b k)}"

definition poll_counts :: "parents \<Rightarrow> ID Bag \<Rightarrow> int set" where
  "poll_counts gp b = transitive_votes gp b ` voted gp b \<union>
     (\<Union>x \<in> voted gp b. sum (transitive_votes gp b) ` prefix_sets (kids_of gp x \<inter> voted gp b))"

lemma sumVotes_set: "distinct ids \<Longrightarrow> sumVotesFromIDs ids t = (\<Sum>x \<in> set ids. Bag_Count t x)"
proof -
  have "fold (\<lambda>x count. count + Bag_Count t x) ids n = n + sum_list (map (Bag_Count t) ids)" for n
    by (induction ids arbitrary: n) auto
  then show "distinct ids \<Longrightarrow> sumVotesFromIDs ids t = (\<Sum>x \<in> set ids. Bag_Count t x)"
    by (simp add: sumVotesFromIDs_def sum_list_distinct_conv_sum_set)
qed

lemma prefix_sets_groups:
  "set ` set (prefix_groups 0 (deduplicate ds)) = prefix_sets (set ds)"
  "g \<in> set (prefix_groups 0 (deduplicate ds)) \<Longrightarrow> distinct g"
proof -
  have iff: "g \<in> set (prefix_groups 0 (deduplicate ds)) \<longleftrightarrow> (\<exists>k. shared_prefix_group k (deduplicate ds) g)" for g
    using prefix_groups_iff [of 0 "deduplicate ds" g] by (simp add: agreeing_def)
  show "g \<in> set (prefix_groups 0 (deduplicate ds)) \<Longrightarrow> distinct g"
    unfolding iff by (auto simp: shared_prefix_group_def)
  show "set ` set (prefix_groups 0 (deduplicate ds)) = prefix_sets (set ds)"
  proof (rule set_eqI)
    fix G
    have "G \<in> set ` set (prefix_groups 0 (deduplicate ds)) \<longleftrightarrow>
        (\<exists>g k. shared_prefix_group k (deduplicate ds) g \<and> G = set g)" using iff by auto
    also have "\<dots> \<longleftrightarrow> G \<in> prefix_sets (set ds)"
      unfolding shared_prefix_group_def prefix_sets_def by fastforce
    finally show "G \<in> set ` set (prefix_groups 0 (deduplicate ds)) \<longleftrightarrow> G \<in> prefix_sets (set ds)" .
  qed
qed

lemma votesForPrefixes_ok:
  assumes "\<And>y. Bag_Count t y = f y"
  shows "\<exists>cs. votesForPrefixes m t xs = Some cs \<and>
    set cs = (\<Union>x \<in> set xs. sum f ` prefix_sets (set (descendantIDsOfVertex m x)))"
proof (induction xs)
  case (Cons x xs)
  then obtain cs where cs: "votesForPrefixes m t xs = Some cs"
    "set cs = (\<Union>x \<in> set xs. sum f ` prefix_sets (set (descendantIDsOfVertex m x)))" by auto
  let ?ds = "descendantIDsOfVertex m x"
  from longestSharedPrefixes_ok [of ?ds] obtain h where h: "longestSharedPrefixes ?ds = Some h"
    "bifurcationsWithCommonPrefix h 0 = Some (prefix_groups 0 (deduplicate ?ds))" by auto
  have "(\<lambda>ids. sumVotesFromIDs ids t) ` set (prefix_groups 0 (deduplicate ?ds)) = sum f ` prefix_sets (set ?ds)"
    unfolding prefix_sets_groups(1) [symmetric] image_image
    by (rule image_cong) (simp_all add: sumVotes_set prefix_sets_groups(2) assms)
  with cs h show ?case by auto
qed simp

lemma set_Bag_List_pos: "bag_wf b \<Longrightarrow> x \<in> set (Bag_List b) \<longleftrightarrow> 0 < Bag_Count b x"
  by (simp add: set_Bag_List Bag_Count_mset)

lemma transitive_votes_pos:
  assumes "bag_wf b"
  shows "0 < transitive_votes gp b x \<longleftrightarrow> x \<in> voted gp b"
proof
  assume "x \<in> voted gp b"
  then obtain y where "0 < Bag_Count b y" "y \<in> descendants gp x"
    using assms by (auto simp: voted_def set_Bag_List_pos)
  then show "0 < transitive_votes gp b x"
    unfolding transitive_votes_def by (intro sum_pos2 [of _ y]) (use assms bag_wf_Count_nonneg in auto)
qed (metis less_irrefl transitive_votes_unvoted)

lemma earlyTerm_counts:
  assumes "acyclic_parents gp" "iter_ok iter" "bag_wf b"
  obtains t ps where "computeTransitiveVoteCountGraph (buildVoteGraph iter gp b) b = Some t"
    "computeTransitiveVotesForPrefixes (buildVoteGraph iter gp b) t = Some ps"
    "set (aggregateVotesFromPrefixesAndIDs ps t) = poll_counts gp b"
proof -
  let ?D = "voted gp b"
  obtain t where t: "computeTransitiveVoteCountGraph (buildVoteGraph iter gp b) b = Some t" "bag_wf t"
    "\<And>x. Bag_Count t x = transitive_votes gp b x" using computeTransitive_ok [OF assms] by auto
  obtain ys where ys: "voteGraph_traverse (buildVoteGraph iter gp b) = Some ys" "set ys = ?D"
    using voteGraph_traverse_all [OF assms(1,2)] by blast
  have ds: "set (descendantIDsOfVertex (vg_store (buildVoteGraph iter gp b)) x) = kids_of gp x \<inter> ?D" if "x \<in> ?D" for x
    using assms(2) that by (auto simp: buildVoteGraph_eq Let_def descendantIDsOfVertex_def graph_vertices_def
      iter_ok_def kids_of_def)
  obtain ps where ps: "votesForPrefixes (vg_store (buildVoteGraph iter gp b)) t ys = Some ps"
    "set ps = (\<Union>x \<in> ?D. sum (transitive_votes gp b) ` prefix_sets (kids_of gp x \<inter> ?D))"
    using votesForPrefixes_ok [of t "transitive_votes gp b", OF t(3)] ds ys(2) by (metis (no_types, lifting) SUP_cong)
  have "set (Bag_List t) = ?D" using t(2,3) by (auto simp: set_Bag_List_pos transitive_votes_pos [OF assms(3)])
  then have "set (aggregateVotesFromPrefixesAndIDs ps t) = poll_counts gp b"
    by (simp add: aggregateVotesFromPrefixesAndIDs_def poll_counts_def ps(2) t(3))
  then show thesis
    using that t(1) ps(1) ys(1) by (simp add: computeTransitiveVotesForPrefixes_def)
qed

text \<open>\<open>Finished\<close> returns, and its value is the condition on the counts.\<close>

definition finished_cond :: "parents \<Rightarrow> earlyTermPoll \<Rightarrow> bool" where
  "finished_cond gp p \<longleftrightarrow>
     et_finished p \<or> Bag_Len (et_polled p) = 0 \<or>
     Bag_Len (et_votes p) + Bag_Len (et_polled p) < et_alphaPreference p \<or>
     (poll_counts gp (et_votes p) \<noteq> {} \<and>
      (\<forall>c \<in> poll_counts gp (et_votes p). shouldTerminate p c (Bag_Len (et_polled p))))"

lemma earlyTerm_Finished_eq:
  assumes "acyclic_parents gp" "iter_ok iter" "bag_wf (et_votes p)"
  shows "earlyTerm_Finished iter gp p =
    Some (finished_cond gp p, if finished_cond gp p then p\<lparr>et_finished := True\<rparr> else p)"
proof -
  obtain t ps where t: "computeTransitiveVoteCountGraph (buildVoteGraph iter gp (et_votes p)) (et_votes p) = Some t"
    "computeTransitiveVotesForPrefixes (buildVoteGraph iter gp (et_votes p)) t = Some ps"
    "set (aggregateVotesFromPrefixesAndIDs ps t) = poll_counts gp (et_votes p)"
    by (rule earlyTerm_counts [OF assms])
  have "aggregateVotesFromPrefixesAndIDs ps t \<noteq> [] \<longleftrightarrow> poll_counts gp (et_votes p) \<noteq> {}"
    unfolding t(3) [symmetric] by simp
  moreover have "et_finished p \<Longrightarrow> p\<lparr>et_finished := True\<rparr> = p" by simp
  ultimately show ?thesis
    by (simp add: earlyTerm_Finished_def finished_cond_def Let_def t(1,2) list_all_iff t(3))
qed

section \<open>Responses\<close>

datatype response = VoteFor NodeID ID | DropOf NodeID

fun responder :: "response \<Rightarrow> NodeID" where
  "responder (VoteFor vdr _) = vdr"
| "responder (DropOf vdr) = vdr"

fun respond1 :: "response \<Rightarrow> earlyTermPoll \<Rightarrow> earlyTermPoll" where
  "respond1 (VoteFor vdr vote) p = earlyTerm_Vote p vdr vote"
| "respond1 (DropOf vdr) p = earlyTerm_Drop p vdr"

definition respond :: "response list \<Rightarrow> earlyTermPoll \<Rightarrow> earlyTermPoll" where
  "respond rs p = fold respond1 rs p"

definition poll_ok :: "earlyTermPoll \<Rightarrow> bool" where
  "poll_ok p \<longleftrightarrow> bag_wf (et_votes p) \<and> bag_wf (et_polled p)"

lemma Bag_Len_Remove: "Bag_Len (Bag_Remove b e) = Bag_Len b - Bag_Count b e"
  by (simp add: Bag_Len_def Bag_Remove_def)

lemma respond1_ok:
  assumes "poll_ok p"
  shows "poll_ok (respond1 r p)"
    "Bag_Len (et_votes (respond1 r p)) + Bag_Len (et_polled (respond1 r p)) \<le> Bag_Len (et_votes p) + Bag_Len (et_polled p)"
    "Bag_mset (et_votes p) \<subseteq># Bag_mset (et_votes (respond1 r p))"
  using assms bag_wf_Count_nonneg [of "et_polled p" "responder r"]
  by (cases r; simp add: poll_ok_def earlyTerm_Vote_def earlyTerm_Drop_def Let_def Bag_Len_Remove Bag_Len_AddCount)+

lemma respond1_same [simp]:
  "et_alphaPreference (respond1 r p) = et_alphaPreference p" "et_alphaConfidence (respond1 r p) = et_alphaConfidence p"
  "et_finished (respond1 r p) = et_finished p"
  by (cases r; simp add: earlyTerm_Vote_def earlyTerm_Drop_def Let_def)+

lemma respond_same [simp]:
  "et_alphaPreference (respond rs p) = et_alphaPreference p" "et_alphaConfidence (respond rs p) = et_alphaConfidence p"
  "et_finished (respond rs p) = et_finished p"
  unfolding respond_def by (induction rs arbitrary: p) auto

lemma respond_ok:
  assumes "poll_ok p"
  shows "poll_ok (respond rs p) \<and>
    Bag_Len (et_votes (respond rs p)) + Bag_Len (et_polled (respond rs p)) \<le> Bag_Len (et_votes p) + Bag_Len (et_polled p) \<and>
    Bag_mset (et_votes p) \<subseteq># Bag_mset (et_votes (respond rs p))"
  using assms
proof (induction rs arbitrary: p)
  case (Cons r rs)
  show ?case
    using Cons.IH [OF respond1_ok(1) [OF Cons.prems, of r]] respond1_ok(2,3) [OF Cons.prems, of r]
    by (auto simp: respond_def intro: subset_mset.order_trans)
qed (simp add: respond_def)

text \<open>The transitive votes grow by at most the number of new votes.\<close>

lemma transitive_votes_mset:
  assumes "bag_wf b"
  shows "transitive_votes gp b x = int (size (filter_mset (\<lambda>y. y \<in> descendants gp x) (Bag_mset b)))"
proof -
  have "size (filter_mset (\<lambda>y. y \<in> descendants gp x) (Bag_mset b)) =
      (\<Sum>y \<in> descendants gp x. count (filter_mset (\<lambda>y. y \<in> descendants gp x) (Bag_mset b)) y)"
    unfolding size_multiset_overloaded_eq by (rule sum.mono_neutral_left) (auto simp: not_in_iff)
  then show ?thesis by (simp add: transitive_votes_def Bag_Count_mset [OF assms])
qed

lemma transitive_votes_grow:
  assumes "bag_wf b" "bag_wf b'" "Bag_mset b \<subseteq># Bag_mset b'"
  shows "transitive_votes gp b x \<le> transitive_votes gp b' x"
    "transitive_votes gp b' x \<le> transitive_votes gp b x + (Bag_Len b' - Bag_Len b)"
proof -
  obtain d where d: "Bag_mset b' = Bag_mset b + d" using assms(3) by (auto simp: subset_mset.le_iff_add)
  have "size (filter_mset (\<lambda>y. y \<in> descendants gp x) d) \<le> size d" by (rule size_filter_mset_lesseq)
  then show "transitive_votes gp b x \<le> transitive_votes gp b' x"
    "transitive_votes gp b' x \<le> transitive_votes gp b x + (Bag_Len b' - Bag_Len b)"
    using assms(1,2) by (simp_all add: transitive_votes_mset Bag_Len_mset d)
qed

lemma transitive_votes_le_Len: "bag_wf b \<Longrightarrow> transitive_votes gp b x \<le> Bag_Len b"
  by (simp add: transitive_votes_mset Bag_Len_mset size_filter_mset_lesseq)

text \<open>The outcome of a poll for a block: which of the two thresholds its transitive votes reach.\<close>

definition outcome :: "parents \<Rightarrow> earlyTermPoll \<Rightarrow> ID \<Rightarrow> bool \<times> bool" where
  "outcome gp p x = (et_alphaPreference p \<le> transitive_votes gp (et_votes p) x,
     et_alphaConfidence p \<le> transitive_votes gp (et_votes p) x)"

lemma shouldTerminate_iff:
  assumes "et_alphaPreference p \<le> et_alphaConfidence p" "0 \<le> remaining"
  shows "shouldTerminate p c remaining \<longleftrightarrow> (\<forall>c'. c \<le> c' \<longrightarrow> c' \<le> c + remaining \<longrightarrow>
    (et_alphaPreference p \<le> c' \<longleftrightarrow> et_alphaPreference p \<le> c) \<and> (et_alphaConfidence p \<le> c' \<longleftrightarrow> et_alphaConfidence p \<le> c))"
    (is "_ = ?settled")
proof
  assume ?settled
  from this [rule_format, of "c + remaining"] show "shouldTerminate p c remaining"
    using assms by (auto simp: shouldTerminate_def Let_def)
qed (use assms in \<open>auto simp: shouldTerminate_def Let_def\<close>)

lemma unvoted_below:
  assumes p: "poll_ok p" "et_alphaPreference p \<le> et_alphaConfidence p"
    "Bag_Len (et_votes p) + Bag_Len (et_polled p) < 2 * et_alphaPreference p"
    and c: "x \<in> voted gp (et_votes p)" "shouldTerminate p (transitive_votes gp (et_votes p) x) (Bag_Len (et_polled p))"
  shows "Bag_Len (et_polled p) < et_alphaPreference p"
proof -
  have "0 < transitive_votes gp (et_votes p) x" "transitive_votes gp (et_votes p) x \<le> Bag_Len (et_votes p)"
    using p(1) c(1) by (simp_all add: poll_ok_def transitive_votes_pos transitive_votes_le_Len)
  with p(2,3) c(2) show ?thesis by (auto simp: shouldTerminate_def Let_def)
qed

text \<open>The core of the soundness: once the condition holds, no outcome changes.\<close>

lemma finished_outcome:
  assumes p: "poll_ok p" "\<not> et_finished p" "et_alphaPreference p \<le> et_alphaConfidence p"
    "Bag_Len (et_votes p) + Bag_Len (et_polled p) < 2 * et_alphaPreference p"
    and fin: "finished_cond gp p"
  shows "outcome gp (respond rs p) x = outcome gp p x"
proof -
  let ?b = "et_votes p" and ?b' = "et_votes (respond rs p)" and ?rem = "Bag_Len (et_polled p)"
  let ?c = "transitive_votes gp (et_votes p) x" and ?c' = "transitive_votes gp (et_votes (respond rs p)) x"
  have ok: "bag_wf ?b" "bag_wf ?b'" "Bag_mset ?b \<subseteq># Bag_mset ?b'" "Bag_Len ?b' \<le> Bag_Len ?b + ?rem" "0 \<le> ?rem"
    using respond_ok [OF p(1), of rs] p(1) bag.len_nonneg [of "et_polled (respond rs p)"] bag.len_nonneg [of "et_polled p"]
    by (auto simp: poll_ok_def)
  have grow: "?c \<le> ?c'" "?c' \<le> ?c + ?rem" "?c' \<le> Bag_Len ?b + ?rem"
    using transitive_votes_grow [OF ok(1-3), of gp x] transitive_votes_le_Len [OF ok(2), of gp x] ok(4) by linarith+
  from fin p(2) consider "?rem = 0" | "Bag_Len ?b + ?rem < et_alphaPreference p"
    | "poll_counts gp ?b \<noteq> {}" "\<forall>c \<in> poll_counts gp ?b. shouldTerminate p c ?rem" by (auto simp: finished_cond_def)
  then show ?thesis
  proof cases
    case 3
    show ?thesis
    proof (cases "x \<in> voted gp ?b")
      case True
      then have "shouldTerminate p ?c ?rem" using 3(2) by (simp add: poll_counts_def)
      from this [unfolded shouldTerminate_iff [OF p(3) ok(5)], rule_format, OF grow(1,2)]
      show ?thesis by (simp add: outcome_def)
    next
      case False
      obtain z where "z \<in> voted gp ?b" using 3(1) by (auto simp: poll_counts_def)
      with 3(2) unvoted_below [OF p(1,3,4), of z gp] have "?rem < et_alphaPreference p" by (simp add: poll_counts_def)
      moreover have "?c = 0" using False by (rule transitive_votes_unvoted)
      ultimately show ?thesis using grow ok(5) p(3) by (auto simp: outcome_def)
    qed
  qed (use grow p(3) in \<open>auto simp: outcome_def\<close>)
qed

text \<open>When all votes are for one block, it and its ancestors have them all, and no two blocks share a prefix.\<close>

lemma unanimous_counts:
  assumes gp: "acyclic_parents gp" and b: "bag_wf b" "set_mset (Bag_mset b) = {y}"
  shows "poll_counts gp b = {Bag_Len b}"
proof -
  have list: "set (Bag_List b) = {y}" using b by (simp add: set_Bag_List)
  then have D: "x \<in> voted gp b \<longleftrightarrow> y \<in> descendants gp x" for x by (auto simp: voted_def)
  have tv: "transitive_votes gp b x = Bag_Len b" if "x \<in> voted gp b" for x
  proof -
    have "filter_mset (\<lambda>z. z \<in> descendants gp x) (Bag_mset b) = Bag_mset b"
      using that b(2) D by (auto simp: filter_mset_eq_conv)
    then show ?thesis by (simp add: transitive_votes_mset [OF b(1)] Bag_Len_mset [OF b(1)])
  qed
  have "c = d" if "c \<in> kids_of gp x \<inter> voted gp b" "d \<in> kids_of gp x \<inter> voted gp b" for c d x
    using siblings_disjoint [OF gp, of c x d] that D by auto
  then have "prefix_sets (kids_of gp x \<inter> voted gp b) = {}" for x
    unfolding prefix_sets_def by blast
  moreover have "y \<in> voted gp b" using D by simp
  ultimately show ?thesis using tv unfolding poll_counts_def by auto
qed

lemma finished_unanimous:
  assumes "acyclic_parents gp" "poll_ok p" "set_mset (Bag_mset (et_votes p)) = {y}"
    and "et_alphaConfidence p \<le> Bag_Len (et_votes p)"
  shows "finished_cond gp p"
  using assms unanimous_counts [OF assms(1) _ assms(3)]
  by (auto simp: finished_cond_def poll_ok_def shouldTerminate_def Let_def)

text \<open>A chain of two blocks and a fork; three of four sampled validators have voted for one branch.\<close>

definition demo_parent :: parents where
  "demo_parent = (\<lambda>x. if x = 2 then Some 1 else if x = 3 then Some 1 else None)"

definition demo_poll :: earlyTermPoll where
  "demo_poll = respond [VoteFor 10 2, VoteFor 11 2, VoteFor 12 2] (earlyTerm_New 3 3 (Bag_Of [10, 11, 12, 13]))"

lemma demo_acyclic: "acyclic_parents demo_parent"
proof -
  have "parent_rel demo_parent \<subseteq> measure (\<lambda>x. if x = 1 then 1 else (0::nat))"
    by (auto simp: parent_rel_def demo_parent_def split: if_splits)
  then show ?thesis unfolding acyclic_parents_def by (meson wf_acyclic acyclic_subset wf_measure)
qed

lemma iter_ok_sorted: "iter_ok sorted_list_of_set"
  by (simp add: iter_ok_def)

lemma poll_ok_New [simp]: "bag_wf vdrs \<Longrightarrow> poll_ok (earlyTerm_New ap ac vdrs)"
  by (simp add: poll_ok_def earlyTerm_New_def)

lemma demo_poll_ok:
  "poll_ok demo_poll" "\<not> et_finished demo_poll" "et_alphaPreference demo_poll = 3" "et_alphaConfidence demo_poll = 3"
  "set_mset (Bag_mset (et_votes demo_poll)) = {2}" "Bag_Len (et_votes demo_poll) = 3" "Bag_Len (et_polled demo_poll) = 1"
proof -
  show "poll_ok demo_poll" using respond_ok [OF poll_ok_New] by (simp add: demo_poll_def)
  show "\<not> et_finished demo_poll" "et_alphaPreference demo_poll = 3" "et_alphaConfidence demo_poll = 3"
    by (simp_all add: demo_poll_def earlyTerm_New_def)
  have "bag_counts (et_votes demo_poll) = [(2, 3)]" by code_simp
  then show "set_mset (Bag_mset (et_votes demo_poll)) = {2}" by (simp add: Bag_mset_def)
  show "Bag_Len (et_votes demo_poll) = 3" "Bag_Len (et_polled demo_poll) = 1" by code_simp+
qed

text \<open>C6. Early termination is sound.  When \<open>Finished\<close> ends a poll, the validators whose responses are
  missing cannot change its outcome any more: whatever they answer, or if they are dropped, every block keeps on the same
  side of \<open>AlphaPreference\<close> and of \<open>AlphaConfidence\<close>, counting the votes for all blocks that build on it.  This
  holds for blocks nobody has voted for as well, since \<open>AlphaPreference\<close> is more than half of the sample.\<close>

theorem early_finish_sound:
  assumes "acyclic_parents gp" "iter_ok iter" "poll_ok p" "\<not> et_finished p"
    and "et_alphaPreference p \<le> et_alphaConfidence p"
    and "Bag_Len (et_votes p) + Bag_Len (et_polled p) < 2 * et_alphaPreference p"
    and "earlyTerm_Finished iter gp p = Some (True, p')"
  shows "et_finished p' \<and> earlyTerm_Result p' = earlyTerm_Result p \<and>
    outcome gp (respond rs p') x = outcome gp p x"
proof -
  have "finished_cond gp p" "p' = p\<lparr>et_finished := True\<rparr>"
    using assms(7) earlyTerm_Finished_eq [OF assms(1,2), of p] assms(3) by (auto simp: poll_ok_def split: if_splits)
  moreover have "respond rs (p\<lparr>et_finished := True\<rparr>) = (respond rs p)\<lparr>et_finished := True\<rparr>"
  proof -
    have "respond1 r (p\<lparr>et_finished := True\<rparr>) = (respond1 r p)\<lparr>et_finished := True\<rparr>" for r p
      by (cases r) (simp_all add: earlyTerm_Vote_def earlyTerm_Drop_def Let_def)
    then show ?thesis unfolding respond_def by (induction rs arbitrary: p) auto
  qed
  ultimately show ?thesis
    using finished_outcome [OF assms(3-6), of gp rs x] by (simp add: outcome_def earlyTerm_Result_def)
qed

theorem early_finish_sound_witness:
  "\<exists>p'. earlyTerm_Finished sorted_list_of_set demo_parent demo_poll = Some (True, p') \<and> et_finished p' \<and>
     earlyTerm_Result p' = earlyTerm_Result demo_poll \<and>
     outcome demo_parent (respond [VoteFor 13 3] p') 1 = outcome demo_parent demo_poll 1"
proof -
  have "finished_cond demo_parent demo_poll"
    by (rule finished_unanimous [OF demo_acyclic demo_poll_ok(1,5)]) (simp add: demo_poll_ok)
  then have fin: "earlyTerm_Finished sorted_list_of_set demo_parent demo_poll = Some (True, demo_poll\<lparr>et_finished := True\<rparr>)"
    using earlyTerm_Finished_eq [OF demo_acyclic iter_ok_sorted, of demo_poll] demo_poll_ok(1) by (simp add: poll_ok_def)
  show ?thesis
    using early_finish_sound [OF demo_acyclic iter_ok_sorted demo_poll_ok(1,2) _ _ fin, of "[VoteFor 13 3]" 1] fin
    by (simp add: demo_poll_ok)
qed

text \<open>C7. \<open>Finished\<close> always returns, and its answer is exact.  A poll that has not been finished before ends exactly when no validator is
  left to answer, or not even all votes together reach \<open>AlphaPreference\<close>, or there are votes and every
  count that decides a snowflake instance is settled.  The counts are the transitive votes of every block
  voted for, itself or through a descendant, and of every group of sibling blocks that share a bit prefix; a
  count is settled if no number of additional votes among those missing moves it across one of the two
  thresholds.  The doc of \<open>Finished\<close> says that one block with an \<open>AlphaConfidence\<close> majority is enough; it is not,
  the poll goes on until the counts of all of them are settled.\<close>

theorem early_finish_exact:
  assumes "acyclic_parents gp" "iter_ok iter" "poll_ok p" "\<not> et_finished p"
    and "et_alphaPreference p \<le> et_alphaConfidence p"
  shows "\<exists>fin p'. earlyTerm_Finished iter gp p = Some (fin, p') \<and> et_finished p' = fin \<and>
    (fin \<longleftrightarrow> Bag_Len (et_polled p) = 0 \<or>
       Bag_Len (et_votes p) + Bag_Len (et_polled p) < et_alphaPreference p \<or>
       (voted gp (et_votes p) \<noteq> {} \<and>
        (\<forall>c \<in> poll_counts gp (et_votes p). \<forall>c' \<in> {c .. c + Bag_Len (et_polled p)}.
           (et_alphaPreference p \<le> c' \<longleftrightarrow> et_alphaPreference p \<le> c) \<and>
           (et_alphaConfidence p \<le> c' \<longleftrightarrow> et_alphaConfidence p \<le> c))))"
proof -
  have rem: "0 \<le> Bag_Len (et_polled p)" using assms(3) bag.len_nonneg by (auto simp: poll_ok_def)
  have ne: "poll_counts gp (et_votes p) \<noteq> {} \<longleftrightarrow> voted gp (et_votes p) \<noteq> {}" by (auto simp: poll_counts_def)
  have "finished_cond gp p \<longleftrightarrow> Bag_Len (et_polled p) = 0 \<or>
       Bag_Len (et_votes p) + Bag_Len (et_polled p) < et_alphaPreference p \<or>
       (voted gp (et_votes p) \<noteq> {} \<and>
        (\<forall>c \<in> poll_counts gp (et_votes p). \<forall>c' \<in> {c .. c + Bag_Len (et_polled p)}.
           (et_alphaPreference p \<le> c' \<longleftrightarrow> et_alphaPreference p \<le> c) \<and>
           (et_alphaConfidence p \<le> c' \<longleftrightarrow> et_alphaConfidence p \<le> c)))"
    unfolding finished_cond_def ne shouldTerminate_iff [OF assms(5) rem] Ball_def atLeastAtMost_iff
    using assms(4) by (simp only: simp_thms imp_conjL)
  then show ?thesis
    using earlyTerm_Finished_eq [OF assms(1,2), of p] assms(3,4) by (simp add: poll_ok_def)
qed

theorem early_finish_exact_witness:
  "\<exists>p'. earlyTerm_Finished sorted_list_of_set demo_parent demo_poll = Some (True, p') \<and> et_finished p'"
proof -
  have "poll_counts demo_parent (et_votes demo_poll) = {3}"
    using unanimous_counts [OF demo_acyclic _ demo_poll_ok(5)] demo_poll_ok(1,6) by (simp add: poll_ok_def)
  then show ?thesis
    using early_finish_exact [OF demo_acyclic iter_ok_sorted demo_poll_ok(1,2)]
    by (auto simp: demo_poll_ok poll_counts_def)
qed

end
