(* ===== verification/Poll_Set.thy ===== *)
theory Poll_Set
  imports Poll_Early
begin

text \<open>
  \<open>snow/consensus/snowman/poll/set.go\<close>: the polls that are open, by request identifier, and the order in
  which their results are handed to consensus.

  The field \<open>polls\<close> is a linked hash map (\<open>utils/linked/hashmap.go\<close>, shown to be an association list in
  insertion order in \<open>Linked_Hashmap\<close>) whose values are pointers to polls, so that a call on a poll
  changes it in place.  The factory is represented by its two thresholds.  The log, the metrics and the start times
  are left out.  Each operation is given the parents of the chain at that time.
\<close>

record poll_set =
  ps_alphaPreference :: int
  ps_alphaConfidence :: int
  ps_polls :: "(32 word \<times> earlyTermPoll) list"

definition Set_NewSet :: "int \<Rightarrow> int \<Rightarrow> poll_set" where
  "Set_NewSet alphaPreference alphaConfidence =
     \<lparr>ps_alphaPreference = alphaPreference, ps_alphaConfidence = alphaConfidence, ps_polls = []\<rparr>"

definition Set_Add :: "poll_set \<Rightarrow> 32 word \<Rightarrow> NodeID Bag \<Rightarrow> bool \<times> poll_set" where
  "Set_Add s requestID vdrs =
     (case map_of (ps_polls s) requestID of
        Some _ \<Rightarrow> (False, s)
      | None \<Rightarrow>
          (True, s\<lparr>ps_polls := ps_polls s @
             [(requestID, earlyTerm_New (ps_alphaPreference s) (ps_alphaConfidence s) vdrs)]\<rparr>))"

text \<open>The loop of \<open>processFinishedPolls\<close> from the oldest poll to the newest: the results, and the polls
  that are left.\<close>

fun processPolls ::
  "(ID set \<Rightarrow> ID list) \<Rightarrow> parents \<Rightarrow> (32 word \<times> earlyTermPoll) list \<Rightarrow>
     (ID Bag list \<times> (32 word \<times> earlyTermPoll) list) option" where
  "processPolls iter getParent [] = Some ([], [])"
| "processPolls iter getParent ((requestID, p) # rest) = do {
     (finished, p') \<leftarrow> earlyTerm_Finished iter getParent p;
     if \<not> finished then Some ([], (requestID, p') # rest)
     else do {
       (results, rest') \<leftarrow> processPolls iter getParent rest;
       Some (earlyTerm_Result p' # results, rest')
     }
   }"

definition processFinishedPolls ::
  "(ID set \<Rightarrow> ID list) \<Rightarrow> parents \<Rightarrow> poll_set \<Rightarrow> (ID Bag list \<times> poll_set) option" where
  "processFinishedPolls iter getParent s = do {
     (results, polls) \<leftarrow> processPolls iter getParent (ps_polls s);
     Some (results, s\<lparr>ps_polls := polls\<rparr>)
   }"

text \<open>\<open>Vote\<close> and \<open>Drop\<close>.\<close>

definition Set_Vote ::
  "(ID set \<Rightarrow> ID list) \<Rightarrow> parents \<Rightarrow> poll_set \<Rightarrow> 32 word \<Rightarrow> NodeID \<Rightarrow> ID \<Rightarrow> (ID Bag list \<times> poll_set) option" where
  "Set_Vote iter getParent s requestID vdr vote =
     (case map_of (ps_polls s) requestID of
        None \<Rightarrow> Some ([], s)
      | Some p \<Rightarrow> do {
          (finished, p') \<leftarrow> earlyTerm_Finished iter getParent (earlyTerm_Vote p vdr vote);
          let s' = s\<lparr>ps_polls := AList.update requestID p' (ps_polls s)\<rparr>;
          if \<not> finished then Some ([], s') else processFinishedPolls iter getParent s'
        })"

definition Set_Drop ::
  "(ID set \<Rightarrow> ID list) \<Rightarrow> parents \<Rightarrow> poll_set \<Rightarrow> 32 word \<Rightarrow> NodeID \<Rightarrow> (ID Bag list \<times> poll_set) option" where
  "Set_Drop iter getParent s requestID vdr =
     (case map_of (ps_polls s) requestID of
        None \<Rightarrow> Some ([], s)
      | Some p \<Rightarrow> do {
          (finished, p') \<leftarrow> earlyTerm_Finished iter getParent (earlyTerm_Drop p vdr);
          let s' = s\<lparr>ps_polls := AList.update requestID p' (ps_polls s)\<rparr>;
          if \<not> finished then Some ([], s') else processFinishedPolls iter getParent s'
        })"

definition Set_Len :: "poll_set \<Rightarrow> nat" where
  "Set_Len s = length (ps_polls s)"

section \<open>The votes of a poll\<close>

definition first_response :: "response list \<Rightarrow> NodeID \<Rightarrow> response option" where
  "first_response rs v = List.find (\<lambda>r. responder r = v) rs"

lemma first_response_snoc:
  "first_response (rs @ [r]) v =
     (case first_response rs v of None \<Rightarrow> if responder r = v then Some r else None | Some z \<Rightarrow> Some z)"
  by (induction rs) (auto simp: first_response_def)

lemma respond_snoc: "respond (rs @ [r]) p = respond1 r (respond rs p)"
  by (simp add: respond_def)

lemma respond_counts:
  assumes "bag_wf vdrs"
  shows "(\<forall>v. Bag_Count (et_polled (respond rs (earlyTerm_New ap ac vdrs))) v =
      (if first_response rs v = None then Bag_Count vdrs v else 0)) \<and>
    (\<forall>x. Bag_Count (et_votes (respond rs (earlyTerm_New ap ac vdrs))) x =
      (\<Sum>v | first_response rs v = Some (VoteFor v x). Bag_Count vdrs v))"
proof (induction rs rule: rev_induct)
  case Nil
  show ?case by (simp add: respond_def earlyTerm_New_def first_response_def Bag_Count_def Bag_empty_def)
next
  case (snoc r rs)
  let ?p = "respond rs (earlyTerm_New ap ac vdrs)"
  have polled: "Bag_Count (et_polled (respond1 r ?p)) v = (if first_response (rs @ [r]) v = None then Bag_Count vdrs v else 0)" for v
    using snoc by (cases r) (auto simp: first_response_snoc earlyTerm_Vote_def earlyTerm_Drop_def Let_def Bag_Count_Remove
        split: option.splits)
  have votes: "Bag_Count (et_votes (respond1 r ?p)) x =
      (\<Sum>v | first_response (rs @ [r]) v = Some (VoteFor v x). Bag_Count vdrs v)" for x
  proof -
    let ?F = "\<lambda>rs. {v. first_response rs v = Some (VoteFor v x)}"
    have add: "?F (rs @ [r]) = ?F rs \<union> {v. first_response rs v = None \<and> r = VoteFor v x}"
    proof (rule set_eqI)
      fix v
      show "v \<in> ?F (rs @ [r]) \<longleftrightarrow> v \<in> ?F rs \<union> {v. first_response rs v = None \<and> r = VoteFor v x}"
        by (cases "first_response rs v"; cases r) (auto simp: first_response_snoc)
    qed
    show ?thesis
    proof (cases "\<exists>u. r = VoteFor u x \<and> first_response rs u = None")
      case True
      then obtain u where u: "r = VoteFor u x" "first_response rs u = None" by auto
      then have "?F (rs @ [r]) = insert u (?F rs)" "u \<notin> ?F rs" unfolding add by auto
      then show ?thesis using snoc u bag_wf_Count_nonneg [OF assms, of u]
        by (auto simp: earlyTerm_Vote_def Let_def Bag_Count_AddCount)
    next
      case False
      then have "?F (rs @ [r]) = ?F rs" unfolding add by auto
      then show ?thesis using snoc False
        by (cases r) (auto simp: earlyTerm_Vote_def earlyTerm_Drop_def Let_def Bag_Count_AddCount)
    qed
  qed
  show ?case using polled votes by (simp add: respond_snoc)
qed

text \<open>C9. A poll counts exactly the first response of every sampled validator, with the number of times it was sampled.  After any sequence of votes
  and drops, the votes for a block are those of the validators whose first response is a vote for it; a second
  response, or one of a validator that is not in the sample, counts nothing; and the validators the poll
  still waits for are those that have not responded.\<close>

theorem poll_votes_exact:
  assumes "bag_wf vdrs"
  shows "Bag_Count (earlyTerm_Result (respond rs (earlyTerm_New ap ac vdrs))) x =
      (\<Sum>v | first_response rs v = Some (VoteFor v x). Bag_Count vdrs v) \<and>
    Bag_Count (et_polled (respond rs (earlyTerm_New ap ac vdrs))) v =
      (if first_response rs v = None then Bag_Count vdrs v else 0)"
  using respond_counts [OF assms] by (simp add: earlyTerm_Result_def)

theorem poll_votes_exact_witness:
  "Bag_Count (earlyTerm_Result (respond [VoteFor 1 7, VoteFor 1 8, DropOf 2, VoteFor 2 7] (earlyTerm_New 2 3 (Bag_Of [1, 1, 2])))) 7 = 2 \<and>
   Bag_Count (et_polled (respond [VoteFor 1 7, VoteFor 1 8, DropOf 2, VoteFor 2 7] (earlyTerm_New 2 3 (Bag_Of [1, 1, 2])))) 1 = 0"
proof -
  let ?rs = "[VoteFor 1 7, VoteFor 1 8, DropOf 2, VoteFor 2 7]"
  have "{v. first_response ?rs v = Some (VoteFor v 7)} = {1}" by (auto simp: first_response_def split: if_splits)
  moreover have "Bag_Count (Bag_Of [1, 1, 2 :: NodeID]) 1 = 2" by (simp add: Bag_Count_mset Bag_mset_Of)
  ultimately show ?thesis
    using poll_votes_exact [of "Bag_Of [1, 1, 2]" ?rs 2 3 7 1] by (simp add: first_response_def)
qed

section \<open>The order of the results\<close>

definition set_ok :: "poll_set \<Rightarrow> bool" where
  "set_ok s \<longleftrightarrow> distinct (map fst (ps_polls s)) \<and> (\<forall>(k, p) \<in> set (ps_polls s). poll_ok p)"

definition poll_done :: "parents \<Rightarrow> 32 word \<times> earlyTermPoll \<Rightarrow> bool" where
  "poll_done gp = (\<lambda>(k, p). finished_cond gp p)"

definition poll_result :: "32 word \<times> earlyTermPoll \<Rightarrow> ID Bag" where
  "poll_result = (\<lambda>(k, p). et_votes p)"

definition mark_finished :: "parents \<Rightarrow> earlyTermPoll \<Rightarrow> earlyTermPoll" where
  "mark_finished gp p = (if finished_cond gp p then p\<lparr>et_finished := True\<rparr> else p)"

lemma mark_finished_simps [simp]: "et_votes (mark_finished gp p) = et_votes p" "poll_ok (mark_finished gp p) = poll_ok p"
  "finished_cond gp (mark_finished gp p) = finished_cond gp p"
  by (simp_all add: mark_finished_def poll_ok_def finished_cond_def)

lemma Finished_mark:
  assumes "acyclic_parents gp" "iter_ok iter" "poll_ok p"
  shows "earlyTerm_Finished iter gp p = Some (finished_cond gp p, mark_finished gp p)"
  using earlyTerm_Finished_eq [OF assms(1,2), of p] assms(3) by (simp add: poll_ok_def mark_finished_def)

lemma processPolls_eq:
  assumes "acyclic_parents gp" "iter_ok iter" "\<forall>(k, p) \<in> set ps. poll_ok p"
  shows "processPolls iter gp ps =
    Some (map poll_result (takeWhile (poll_done gp) ps), dropWhile (poll_done gp) ps)"
  using assms(3)
proof (induction ps)
  case (Cons a ps)
  obtain k p where a: "a = (k, p)" by (cases a)
  with Cons.prems have "earlyTerm_Finished iter gp p = Some (finished_cond gp p, mark_finished gp p)"
    by (intro Finished_mark [OF assms(1,2)]) simp
  then show ?case using Cons a by (auto simp: poll_done_def poll_result_def earlyTerm_Result_def mark_finished_def)
qed simp

text \<open>The set after a response to an open poll.\<close>

definition answered :: "parents \<Rightarrow> poll_set \<Rightarrow> 32 word \<Rightarrow> earlyTermPoll \<Rightarrow> ID Bag list \<times> poll_set" where
  "answered gp s k q =
     (let ps = AList.update k (mark_finished gp q) (ps_polls s);
          n = (if finished_cond gp q then length (takeWhile (poll_done gp) ps) else 0) in
      (map poll_result (take n ps), s\<lparr>ps_polls := drop n ps\<rparr>))"

lemma set_ok_lookup: "set_ok s \<Longrightarrow> map_of (ps_polls s) k = Some p \<Longrightarrow> poll_ok p"
  by (auto simp: set_ok_def dest: map_of_SomeD)

lemma set_ok_update:
  assumes "set_ok s" "poll_ok q"
  shows "set_ok (s\<lparr>ps_polls := AList.update k q (ps_polls s)\<rparr>)"
  using assms set_update_alist [of k q "ps_polls s"] by (auto simp: set_ok_def distinct_update)

lemma answered_step:
  assumes gp: "acyclic_parents gp" and iter: "iter_ok iter" and s: "set_ok s" and q: "poll_ok q"
  shows "do {
      (finished, p') \<leftarrow> earlyTerm_Finished iter gp q;
      let s' = s\<lparr>ps_polls := AList.update k p' (ps_polls s)\<rparr>;
      if \<not> finished then Some ([], s') else processFinishedPolls iter gp s' } = Some (answered gp s k q)"
proof -
  have "\<forall>(k, p) \<in> set (AList.update k (mark_finished gp q) (ps_polls s)). poll_ok p"
    using set_ok_update [OF s, of "mark_finished gp q" k] q by (simp add: set_ok_def)
  note processPolls_eq [OF gp iter this]
  then show ?thesis
    by (simp add: Finished_mark [OF gp iter q] processFinishedPolls_def answered_def Let_def
        takeWhile_eq_take [symmetric] dropWhile_eq_drop [symmetric])
qed

lemma answered_ok:
  assumes "set_ok s" "poll_ok q"
  shows "set_ok (snd (answered gp s k q))"
  using set_ok_update [OF assms(1), of "mark_finished gp q" k] assms(2)
  by (auto simp: answered_def Let_def set_ok_def drop_map [symmetric] dest: in_set_dropD)

lemma respond1_poll_ok [simp]:
  "poll_ok p \<Longrightarrow> poll_ok (earlyTerm_Vote p vdr vote)" "poll_ok p \<Longrightarrow> poll_ok (earlyTerm_Drop p vdr)"
  using respond1_ok(1) [of p "VoteFor vdr vote"] respond1_ok(1) [of p "DropOf vdr"] by simp_all

lemma Set_Vote_eq:
  assumes "acyclic_parents gp" "iter_ok iter" "set_ok s"
  shows "Set_Vote iter gp s k vdr vote =
    (case map_of (ps_polls s) k of
       None \<Rightarrow> Some ([], s)
     | Some p \<Rightarrow> Some (answered gp s k (earlyTerm_Vote p vdr vote)))"
  using answered_step [OF assms] set_ok_lookup [OF assms(3), of k] by (simp add: Set_Vote_def split: option.split)

lemma Set_Drop_eq:
  assumes "acyclic_parents gp" "iter_ok iter" "set_ok s"
  shows "Set_Drop iter gp s k vdr =
    (case map_of (ps_polls s) k of
       None \<Rightarrow> Some ([], s)
     | Some p \<Rightarrow> Some (answered gp s k (earlyTerm_Drop p vdr)))"
  using answered_step [OF assms] set_ok_lookup [OF assms(3), of k] by (simp add: Set_Drop_def split: option.split)

text \<open>Sequences of operations; the chain may change between them.\<close>

datatype set_op = OpAdd "32 word" "NodeID Bag" | OpVote "32 word" NodeID ID | OpDrop "32 word" NodeID

fun set_step ::
  "(ID set \<Rightarrow> ID list) \<Rightarrow> parents \<Rightarrow> set_op \<Rightarrow> poll_set \<Rightarrow> (ID Bag list \<times> poll_set) option" where
  "set_step iter gp (OpAdd k vdrs) s = Some ([], snd (Set_Add s k vdrs))"
| "set_step iter gp (OpVote k vdr vote) s = Set_Vote iter gp s k vdr vote"
| "set_step iter gp (OpDrop k vdr) s = Set_Drop iter gp s k vdr"

text \<open>The log of the polls in the order in which they were issued: the request, the sample, and the responses that
  arrived for the request while the poll was open.  The first \<open>n\<close> polls of the log are concluded; an identifier may be
  used again for a new poll once its poll is concluded.\<close>

type_synonym poll_log = "(32 word \<times> NodeID Bag \<times> response list) list"

definition log_response :: "32 word \<Rightarrow> response \<Rightarrow> nat \<Rightarrow> poll_log \<Rightarrow> poll_log" where
  "log_response k r n log =
     take n log @ map (\<lambda>(k', vdrs, rs). (k', vdrs, if k' = k then rs @ [r] else rs)) (drop n log)"

fun log_op :: "set_op \<Rightarrow> nat \<Rightarrow> poll_log \<Rightarrow> poll_log" where
  "log_op (OpAdd k vdrs) n log = (if k \<in> fst ` set (drop n log) then log else log @ [(k, vdrs, [])])"
| "log_op (OpVote k vdr vote) n log = log_response k (VoteFor vdr vote) n log"
| "log_op (OpDrop k vdr) n log = log_response k (DropOf vdr) n log"

text \<open>A run carries the results returned so far, oldest first, and the log.\<close>

fun set_run ::
  "(ID set \<Rightarrow> ID list) \<Rightarrow> (parents \<times> set_op) list \<Rightarrow> ID Bag list \<times> poll_log \<times> poll_set \<Rightarrow>
     (ID Bag list \<times> poll_log \<times> poll_set) option" where
  "set_run iter [] st = Some st"
| "set_run iter ((gp, e) # es) (results, log, s) = do {
     (rs, s') \<leftarrow> set_step iter gp e s;
     set_run iter es (results @ rs, log_op e (length results) log, s') }"

fun op_ok :: "parents \<times> set_op \<Rightarrow> bool" where
  "op_ok (gp, OpAdd k vdrs) \<longleftrightarrow> bag_wf vdrs \<and> acyclic_parents gp"
| "op_ok (gp, OpVote k vdr vote) \<longleftrightarrow> acyclic_parents gp"
| "op_ok (gp, OpDrop k vdr) \<longleftrightarrow> acyclic_parents gp"

text \<open>The poll of an entry of the log, up to the flag that remembers that it has finished, and its votes.\<close>

definition log_poll :: "int \<Rightarrow> int \<Rightarrow> 32 word \<times> NodeID Bag \<times> response list \<Rightarrow> 32 word \<times> earlyTermPoll" where
  "log_poll ap ac = (\<lambda>(k, vdrs, rs). (k, respond rs (earlyTerm_New ap ac vdrs)))"

definition log_votes :: "int \<Rightarrow> int \<Rightarrow> 32 word \<times> NodeID Bag \<times> response list \<Rightarrow> ID Bag" where
  "log_votes ap ac = (\<lambda>(k, vdrs, rs). et_votes (respond rs (earlyTerm_New ap ac vdrs)))"

definition unmark :: "32 word \<times> earlyTermPoll \<Rightarrow> 32 word \<times> earlyTermPoll" where
  "unmark = (\<lambda>(k, p). (k, p\<lparr>et_finished := False\<rparr>))"

definition logged :: "int \<Rightarrow> int \<Rightarrow> ID Bag list \<times> poll_log \<times> poll_set \<Rightarrow> bool" where
  "logged ap ac = (\<lambda>(results, log, s). set_ok s \<and> ps_alphaPreference s = ap \<and> ps_alphaConfidence s = ac \<and>
     length results \<le> length log \<and> results = map (log_votes ap ac) (take (length results) log) \<and>
     map unmark (ps_polls s) = map (log_poll ap ac) (drop (length results) log))"

lemma poll_result_unmark: "poll_result (unmark x) = poll_result x" "poll_result (log_poll ap ac e) = log_votes ap ac e"
  "fst (unmark x) = fst x" "fst (log_poll ap ac e) = fst e"
  by (simp_all add: poll_result_def unmark_def log_poll_def log_votes_def case_prod_unfold)

lemma respond1_unmark: "respond1 r (p\<lparr>et_finished := False\<rparr>) = (respond1 r p)\<lparr>et_finished := False\<rparr>"
  by (cases r) (simp_all add: earlyTerm_Vote_def earlyTerm_Drop_def Let_def)

lemma update_map:
  "distinct (map fst ps) \<Longrightarrow> k \<in> fst ` set ps \<Longrightarrow> AList.update k v ps = map (\<lambda>(k', p). (k', if k' = k then v else p)) ps"
proof (induction ps)
  case (Cons a ps)
  have "map (\<lambda>(k', p). (k', if k' = k then v else p)) ps = ps" if "k \<notin> fst ` set ps"
    using that by (intro map_idI) (auto simp: image_iff split: prod.splits)
  then show ?case using Cons by (cases a) (auto simp del: map_eq_conv)
qed simp

lemma logged_keys:
  assumes "map unmark ps = map (log_poll ap ac) L"
  shows "map fst ps = map fst L"
proof -
  have "map fst (map unmark ps) = map fst (map (log_poll ap ac) L)" using assms by simp
  then show ?thesis by (simp add: poll_result_unmark comp_def)
qed

text \<open>A response to an open poll is logged there.\<close>

lemma update_logged:
  assumes d: "distinct (map fst ps)" and p: "map_of ps k = Some p" and L: "map unmark ps = map (log_poll ap ac) L"
  shows "map unmark (AList.update k (mark_finished gp (respond1 r p)) ps) =
    map (log_poll ap ac) (map (\<lambda>(k', vdrs, rs). (k', vdrs, if k' = k then rs @ [r] else rs)) L)"
proof -
  let ?f = "\<lambda>(k', p). (k', if k' = k then respond1 r p else p)"
  have "map unmark (AList.update k (mark_finished gp (respond1 r p)) ps) = map (?f \<circ> unmark) ps"
  proof -
    have "unmark (k', if k' = k then mark_finished gp (respond1 r p) else q) = ?f (unmark (k', q))" if "(k', q) \<in> set ps" for k' q
    proof -
      have "k' = k \<Longrightarrow> q = p" using that p map_of_is_SomeI [OF d, of k q] by simp
      then show ?thesis by (auto simp: unmark_def mark_finished_def respond1_unmark)
    qed
    moreover have "k \<in> fst ` set ps" using map_of_SomeD [OF p] by force
    ultimately show ?thesis using update_map [OF d, of k "mark_finished gp (respond1 r p)"] by auto
  qed
  also have "\<dots> = map ?f (map (log_poll ap ac) L)" unfolding L [symmetric] by simp
  also have "\<dots> = map (log_poll ap ac) (map (\<lambda>(k', vdrs, rs). (k', vdrs, if k' = k then rs @ [r] else rs)) L)"
    by (auto simp: log_poll_def respond_snoc)
  finally show ?thesis .
qed

lemma answered_logged:
  assumes "logged ap ac (results, log, s)" "map_of (ps_polls s) k = Some p"
    "answered gp s k (respond1 r p) = (rs, s')"
  shows "logged ap ac (results @ rs, log_response k r (length results) log, s')"
proof -
  define n where "n = length results"
  define ps where "ps = AList.update k (mark_finished gp (respond1 r p)) (ps_polls s)"
  define m where "m = (if finished_cond gp (respond1 r p) then length (takeWhile (poll_done gp) ps) else 0)"
  define L where "L = map (\<lambda>(k', vdrs, rs). (k', vdrs, if k' = k then rs @ [r] else rs)) (drop n log)"
  have s: "set_ok s" "n \<le> length log" "results = map (log_votes ap ac) (take n log)"
    "map unmark (ps_polls s) = map (log_poll ap ac) (drop n log)" and a: "ps_alphaPreference s = ap" "ps_alphaConfidence s = ac"
    using assms(1) by (simp_all add: logged_def n_def)
  have d: "distinct (map fst (ps_polls s))" using s(1) by (simp add: set_ok_def)
  have ps: "map unmark ps = map (log_poll ap ac) L" unfolding ps_def L_def by (rule update_logged [OF d assms(2) s(4)])
  have eq: "rs = map poll_result (take m ps)" "s' = s\<lparr>ps_polls := drop m ps\<rparr>"
    using assms(3) unfolding answered_def Let_def ps_def [symmetric] m_def [symmetric] by simp_all
  have "m \<le> length ps" by (simp add: m_def length_takeWhile_le)
  moreover have "length ps = length L" using arg_cong [OF ps, of length] by simp
  ultimately have m: "m \<le> length L" "length rs = m" by (simp_all add: eq)
  have "map poll_result (map unmark ps) = map poll_result (map (log_poll ap ac) L)" by (simp only: ps)
  then have "map poll_result ps = map (log_votes ap ac) L" by (simp add: poll_result_unmark comp_def)
  then have rs: "rs = map (log_votes ap ac) (take m L)" unfolding eq take_map [symmetric] by simp
  have "poll_ok (respond1 r p)" using set_ok_lookup [OF s(1) assms(2)] by (rule respond1_ok(1))
  then have "set_ok s'" using answered_ok [OF s(1), of "respond1 r p" gp k] assms(3) by simp
  moreover have "map unmark (ps_polls s') = map (log_poll ap ac) (drop m L)" using ps by (simp add: eq drop_map [symmetric])
  moreover have "log_response k r n log = take n log @ L" by (simp add: log_response_def L_def)
  ultimately show ?thesis using s(2,3) m rs a unfolding logged_def n_def [symmetric] case_prod_conv by (simp add: eq(2))
qed

lemma log_response_none:
  assumes "k \<notin> fst ` set (drop n log)"
  shows "log_response k r n log = log"
proof -
  have "map (\<lambda>(k', vdrs, rs). (k', vdrs, if k' = k then rs @ [r] else rs)) (drop n log) = drop n log"
    using assms by (intro map_idI) (auto simp: image_iff split: prod.splits)
  then show ?thesis by (simp add: log_response_def)
qed

lemma answer_logged:
  assumes "logged ap ac (results, log, s)"
    and "f = (case map_of (ps_polls s) k of None \<Rightarrow> Some ([], s) | Some p \<Rightarrow> Some (answered gp s k (respond1 r p)))"
  shows "\<exists>rs s'. f = Some (rs, s') \<and> logged ap ac (results @ rs, log_response k r (length results) log, s')"
proof (cases "map_of (ps_polls s) k")
  case None
  have "map fst (ps_polls s) = map fst (drop (length results) log)" using assms(1) by (auto simp: logged_def intro: logged_keys)
  then have "k \<notin> fst ` set (drop (length results) log)" using None by (metis list.set_map map_of_eq_None_iff)
  then show ?thesis using None assms by (simp add: log_response_none)
next
  case (Some p)
  obtain rs s' where a: "answered gp s k (respond1 r p) = (rs, s')" by fastforce
  from answered_logged [OF assms(1) Some a] show ?thesis using Some assms(2) a by simp
qed

lemma set_step_logged:
  assumes "iter_ok iter" "logged ap ac (results, log, s)" "op_ok (gp, e)"
  shows "\<exists>rs s'. set_step iter gp e s = Some (rs, s') \<and> logged ap ac (results @ rs, log_op e (length results) log, s')"
proof -
  have s: "set_ok s" using assms(2) by (simp add: logged_def)
  show ?thesis
  proof (cases e)
    case (OpAdd k vdrs)
    have keys: "map fst (ps_polls s) = map fst (drop (length results) log)" using assms(2) by (auto simp: logged_def intro: logged_keys)
    then have k: "map_of (ps_polls s) k = None \<longleftrightarrow> k \<notin> fst ` set (drop (length results) log)" by (metis list.set_map map_of_eq_None_iff)
    have new: "unmark (k, earlyTerm_New ap ac vdrs) = log_poll ap ac (k, vdrs, [])"
      by (simp add: unmark_def log_poll_def respond_def earlyTerm_New_def)
    have ok: "poll_ok (earlyTerm_New ap ac vdrs)" using assms(3) OpAdd by (simp add: poll_ok_def earlyTerm_New_def)
    show ?thesis
    proof (cases "map_of (ps_polls s) k = None")
      case True
      moreover from True have "k \<notin> fst ` set (ps_polls s)" by (simp add: map_of_eq_None_iff)
      ultimately show ?thesis using OpAdd assms(2) k new ok by (auto simp: Set_Add_def logged_def set_ok_def simp del: map_of_eq_None_iff)
    next
      case False
      then show ?thesis using OpAdd assms(2) k by (auto simp: Set_Add_def simp del: map_of_eq_None_iff)
    qed
  next
    case (OpVote k vdr vote)
    show ?thesis using answer_logged [OF assms(2), where k = k and gp = gp and r = "VoteFor vdr vote"] Set_Vote_eq [OF _ assms(1) s, of gp k vdr vote] assms(3) OpVote
      by (simp cong: option.case_cong)
  next
    case (OpDrop k vdr)
    show ?thesis using answer_logged [OF assms(2), where k = k and gp = gp and r = "DropOf vdr"] Set_Drop_eq [OF _ assms(1) s, of gp k vdr] assms(3) OpDrop
      by (simp cong: option.case_cong)
  qed
qed

lemma set_run_logged:
  assumes "iter_ok iter" "logged ap ac (results, log, s)" "list_all op_ok es"
  shows "\<exists>st. set_run iter es (results, log, s) = Some st \<and> logged ap ac st"
  using assms(2,3)
proof (induction es arbitrary: results log s)
  case (Cons e es)
  obtain gp f where e: "e = (gp, f)" by (cases e)
  from set_step_logged [OF assms(1) Cons.prems(1), of gp f] Cons.prems(2) e obtain rs s' where
    s': "set_step iter gp f s = Some (rs, s')" "logged ap ac (results @ rs, log_op f (length results) log, s')" by auto
  from Cons.IH [OF s'(2)] Cons.prems(2) s'(1) e show ?case by simp
qed simp

text \<open>C8. Polls conclude in the order in which they were issued, and none is lost.  Any sequence of \<open>Add\<close>,
  \<open>Vote\<close> and \<open>Drop\<close>, under a chain that changes between the calls, returns.  Take the log of the polls that were
  registered, in this order, each with its sample and with the responses that arrived for its request while it was open.  If the
  calls returned \<open>n\<close> results, then the results, in the order in which they were returned within and across the calls, are the
  votes of the first \<open>n\<close> polls of the log, each counting its own responses only; and the open polls are the later polls of the
  log, still in order, each with its own responses, and no two under one identifier.\<close>

theorem poll_set_fifo:
  assumes "iter_ok iter" "list_all op_ok es"
  shows "\<exists>results log s. set_run iter es ([], [], Set_NewSet ap ac) = Some (results, log, s) \<and>
    length results + Set_Len s = length log \<and>
    results = map (log_votes ap ac) (take (length results) log) \<and>
    map unmark (ps_polls s) = map (log_poll ap ac) (drop (length results) log) \<and> distinct (map fst (ps_polls s))"
proof -
  have "logged ap ac ([], [], Set_NewSet ap ac)" by (simp add: logged_def set_ok_def Set_NewSet_def)
  from set_run_logged [OF assms(1) this assms(2)] obtain results log s where
    r: "set_run iter es ([], [], Set_NewSet ap ac) = Some (results, log, s)" "logged ap ac (results, log, s)" by auto
  then have open_polls: "map unmark (ps_polls s) = map (log_poll ap ac) (drop (length results) log)" "length results \<le> length log"
    by (simp_all add: logged_def)
  then have "length (ps_polls s) = length log - length results" by (metis length_drop length_map)
  with open_polls have "length results + Set_Len s = length log" by (simp add: Set_Len_def)
  with open_polls show ?thesis using r unfolding logged_def set_ok_def by blast
qed

text \<open>Two polls of one validator each: the newer one is answered first and waits for the older one.\<close>

theorem poll_set_fifo_witness:
  "\<exists>results log s. set_run sorted_list_of_set
     [(\<lambda>_. None, OpAdd 1 (Bag_Of [5])), (\<lambda>_. None, OpAdd 2 (Bag_Of [5])),
      (\<lambda>_. None, OpVote 2 5 9), (\<lambda>_. None, OpVote 1 5 8)] ([], [], Set_NewSet 1 1) = Some (results, log, s) \<and>
     length results + Set_Len s = length log \<and>
     results = map (log_votes 1 1) (take (length results) log) \<and>
     map unmark (ps_polls s) = map (log_poll 1 1) (drop (length results) log) \<and> distinct (map fst (ps_polls s))"
proof (rule poll_set_fifo [OF iter_ok_sorted])
  have "acyclic_parents (\<lambda>_. None)" by (simp add: acyclic_parents_def parent_rel_def acyclic_def)
  then show "list_all op_ok [(\<lambda>_. None, OpAdd 1 (Bag_Of [5])), (\<lambda>_. None, OpAdd 2 (Bag_Of [5])),
      (\<lambda>_. None, OpVote 2 5 9), (\<lambda>_. None, OpVote 1 5 8)]" by simp
qed

text \<open>C10. A vote is applied to the poll of its request and to no other.  An unknown request changes nothing and returns nothing.
  Otherwise the poll is updated in place; unless it is finished nothing is returned; and if it is, the
  results are the votes of the longest run of finished polls from the oldest on, these polls are removed and the
  others are kept as they are, so a result waits for every older poll.\<close>

theorem poll_set_vote:
  assumes "acyclic_parents gp" "iter_ok iter" "set_ok s"
  shows "Set_Vote iter gp s k vdr vote =
    (case map_of (ps_polls s) k of
       None \<Rightarrow> Some ([], s)
     | Some p \<Rightarrow>
         let q = earlyTerm_Vote p vdr vote;
             q' = (if finished_cond gp q then q\<lparr>et_finished := True\<rparr> else q);
             ps = AList.update k q' (ps_polls s);
             run = takeWhile (\<lambda>(_, p). finished_cond gp p) ps in
         if finished_cond gp q
         then Some (map (\<lambda>(_, p). et_votes p) run, s\<lparr>ps_polls := drop (length run) ps\<rparr>)
         else Some ([], s\<lparr>ps_polls := ps\<rparr>))"
  using Set_Vote_eq [OF assms, of k vdr vote]
  by (auto simp: answered_def Let_def poll_done_def poll_result_def mark_finished_def takeWhile_eq_take [symmetric]
      split: option.split)

theorem poll_set_vote_witness:
  "Set_Vote sorted_list_of_set (\<lambda>_. None) (Set_NewSet 1 1) 7 5 9 = Some ([], Set_NewSet 1 1) \<and>
   Set_Vote sorted_list_of_set (\<lambda>_. None) (snd (Set_Add (Set_NewSet 1 1) 7 (Bag_Of [5]))) 7 5 9 =
     Some ([Bag_Of [9]], Set_NewSet 1 1)"
proof -
  have gp: "acyclic_parents (\<lambda>_. None)" by (simp add: acyclic_parents_def parent_rel_def acyclic_def)
  have s: "set_ok (Set_NewSet 1 1)" "set_ok (snd (Set_Add (Set_NewSet 1 1) 7 (Bag_Of [5])))"
    by (simp_all add: set_ok_def Set_NewSet_def Set_Add_def)
  let ?q = "earlyTerm_Vote (earlyTerm_New 1 1 (Bag_Of [5])) 5 9"
  have "et_votes ?q = Bag_Of [9]" "Bag_Len (et_polled ?q) = 0"
    by (simp_all add: earlyTerm_Vote_def earlyTerm_New_def Let_def Bag_Of_def Bag_Add_def Bag_AddCount_def Bag_Count_def
        Bag_empty_def Bag_Len_def Bag_Remove_def)
  moreover from this(2) have "finished_cond gp ?q" "finished_cond gp (?q\<lparr>et_finished := True\<rparr>)" for gp
    by (simp_all add: finished_cond_def)
  ultimately show ?thesis
    using poll_set_vote [OF gp iter_ok_sorted s(1), of 7 5 9] poll_set_vote [OF gp iter_ok_sorted s(2), of 7 5 9]
    by (simp add: Set_NewSet_def Set_Add_def Let_def)
qed

end
