(* ===== verification/Safe_Math.thy ===== *)
theory Safe_Math
  imports Prelude
begin

unbundle bit_operations_syntax

text \<open>
  \<open>utils/math/safe_math.go\<close>: the overflow-checked arithmetic on unsigned machine integers.
  The Go generics over \<open>constraints.Unsigned\<close> become HOL functions over words of any
  width; an error return is \<open>Inl\<close>.
\<close>

datatype math_error = ErrOverflow | ErrUnderflow

definition MaxUint :: "'a::len word" where
  "MaxUint = NOT 0"

definition math_Add :: "'a::len word \<Rightarrow> 'a word \<Rightarrow> math_error + 'a word" where
  "math_Add a b = (if a > MaxUint - b then Inl ErrOverflow else Inr (a + b))"

definition math_Sub :: "'a::len word \<Rightarrow> 'a word \<Rightarrow> math_error + 'a word" where
  "math_Sub a b = (if a < b then Inl ErrUnderflow else Inr (a - b))"

definition math_Mul :: "'a::len word \<Rightarrow> 'a word \<Rightarrow> math_error + 'a word" where
  "math_Mul a b = (if b \<noteq> 0 \<and> a > MaxUint div b then Inl ErrOverflow else Inr (a * b))"

definition math_AbsDiff :: "'a::len word \<Rightarrow> 'a word \<Rightarrow> 'a word" where
  "math_AbsDiff a b = max a b - min a b"

section \<open>Exactness\<close>

lemma unat_MaxUint: "unat (MaxUint :: 'a::len word) = 2 ^ LENGTH('a) - 1"
  by (simp add: MaxUint_def unsigned_minus_1_eq_mask mask_eq_exp_minus_1)

lemma math_Add_guard:
  fixes a b :: "'a::len word"
  shows "a > MaxUint - b \<longleftrightarrow> 2 ^ LENGTH('a) \<le> unat a + unat b"
proof -
  have b: "unat b < 2 ^ LENGTH('a)" by (rule unsigned_less)
  then have "b \<le> MaxUint" unfolding word_le_nat_alt unat_MaxUint by linarith
  then have "unat (MaxUint - b) = 2 ^ LENGTH('a) - 1 - unat b"
    by (simp add: unat_sub unat_MaxUint)
  then have "MaxUint - b < a \<longleftrightarrow> 2 ^ LENGTH('a) - 1 - unat b < unat a"
    by (simp add: word_less_nat_alt)
  with b show ?thesis by linarith
qed

lemma math_Mul_guard:
  fixes a b :: "'a::len word"
  shows "(b \<noteq> 0 \<and> a > MaxUint div b) \<longleftrightarrow> 2 ^ LENGTH('a) \<le> unat a * unat b"
proof (cases "b = 0")
  case False
  then have b: "0 < unat b" by (simp add: unat_gt_0)
  have "a > MaxUint div b \<longleftrightarrow> (2 ^ LENGTH('a) - 1) div unat b < unat a"
    by (simp add: word_less_nat_alt unat_div unat_MaxUint)
  also have "\<dots> \<longleftrightarrow> 2 ^ LENGTH('a) - 1 < unat a * unat b"
    using b by (simp add: div_less_iff_less_mult)
  also have "\<dots> \<longleftrightarrow> 2 ^ LENGTH('a) \<le> unat a * unat b"
    by (metis Suc_diff_1 less_eq_Suc_le zero_less_numeral zero_less_power)
  finally show ?thesis using False by simp
qed simp

lemma math_Add_cases:
  fixes a b :: "'a::len word"
  shows "math_Add a b = Inl ErrOverflow \<and> 2 ^ LENGTH('a) \<le> unat a + unat b \<or>
    (\<exists>c. math_Add a b = Inr c \<and> unat c = unat a + unat b)"
proof (cases "2 ^ LENGTH('a) \<le> unat a + unat b")
  case False
  then have "unat (a + b) = unat a + unat b" by (simp add: unat_word_ariths)
  with False show ?thesis by (simp add: math_Add_def math_Add_guard)
qed (simp add: math_Add_def math_Add_guard)

lemma math_Sub_cases:
  fixes a b :: "'a::len word"
  shows "math_Sub a b = Inl ErrUnderflow \<and> unat a < unat b \<or>
    (\<exists>c. math_Sub a b = Inr c \<and> unat b \<le> unat a \<and> unat c = unat a - unat b)"
  by (auto simp: math_Sub_def word_less_nat_alt not_less unat_sub word_le_nat_alt)

lemma math_Mul_cases:
  fixes a b :: "'a::len word"
  shows "math_Mul a b = Inl ErrOverflow \<and> 2 ^ LENGTH('a) \<le> unat a * unat b \<or>
    (\<exists>c. math_Mul a b = Inr c \<and> unat c = unat a * unat b)"
proof (cases "2 ^ LENGTH('a) \<le> unat a * unat b")
  case False
  then have "unat (a * b) = unat a * unat b" by (simp add: unat_word_ariths)
  with False show ?thesis unfolding math_Mul_def math_Mul_guard by simp
qed (simp add: math_Mul_def math_Mul_guard del: word_neq_0_conv)

lemma unat_MaxUint64: "unat (MaxUint :: 64 word) = 2 ^ 64 - 1"
  using unat_MaxUint [where ?'a = 64] by simp

text \<open>
  C34. The checked operations are exact: addition, subtraction and multiplication of
  unsigned integers return the mathematical result when it fits the width and the
  source's error otherwise, and \<open>AbsDiff\<close> is the distance of its arguments; no wrapped
  value is ever returned.
\<close>

theorem safe_math_exact:
  fixes a b :: "'a::len word"
  shows "math_Add a b = (if unat a + unat b < 2 ^ LENGTH('a)
           then Inr (word_of_nat (unat a + unat b)) else Inl ErrOverflow) \<and>
         math_Sub a b = (if unat b \<le> unat a
           then Inr (word_of_nat (unat a - unat b)) else Inl ErrUnderflow) \<and>
         math_Mul a b = (if unat a * unat b < 2 ^ LENGTH('a)
           then Inr (word_of_nat (unat a * unat b)) else Inl ErrOverflow) \<and>
         unat (math_AbsDiff a b) = (unat a - unat b) + (unat b - unat a)"
proof (intro conjI)
  show "math_Add a b = (if unat a + unat b < 2 ^ LENGTH('a)
           then Inr (word_of_nat (unat a + unat b)) else Inl ErrOverflow)"
    by (auto simp: math_Add_def math_Add_guard not_less)
  show "math_Sub a b = (if unat b \<le> unat a
           then Inr (word_of_nat (unat a - unat b)) else Inl ErrUnderflow)"
    by (auto simp: math_Sub_def word_less_nat_alt not_less of_nat_diff)
  show "math_Mul a b = (if unat a * unat b < 2 ^ LENGTH('a)
           then Inr (word_of_nat (unat a * unat b)) else Inl ErrOverflow)"
    unfolding math_Mul_def math_Mul_guard by (auto simp: not_less)
  show "unat (math_AbsDiff a b) = (unat a - unat b) + (unat b - unat a)"
    by (auto simp: math_AbsDiff_def max_def min_def unat_sub word_le_nat_alt)
qed

end
