(* ===== verification/Sampler_Weighted.thy ===== *)
theory Sampler_Weighted
  imports Safe_Math
begin

text \<open>
  \<open>utils/sampler/weighted_heap.go\<close> and the sort of \<open>utils/sorting.go\<close>: sampling an index with a probability
  that is proportional to its weight.

  The array of the heap is a list.  The sort of the standard library is an insertion sort: \<open>Compare\<close>
  orders the elements of a heap totally, hence every sort gives the same list.  A loop that reads outside of the array
  panics, which is \<open>None\<close>.
\<close>

record weightedHeapElement =
  whe_weight :: "64 word"
  whe_cumulativeWeight :: "64 word"
  whe_index :: nat

type_synonym weightedHeap = "weightedHeapElement list"

definition cmp_Compare :: "'a::linorder \<Rightarrow> 'a \<Rightarrow> int" where
  "cmp_Compare a b = (if a < b then - 1 else if b < a then 1 else 0)"

definition weightedHeapElement_Compare :: "weightedHeapElement \<Rightarrow> weightedHeapElement \<Rightarrow> int" where
  "weightedHeapElement_Compare e other =
     (let weightCmp = cmp_Compare (whe_weight other) (whe_weight e) in
      if weightCmp \<noteq> 0 then weightCmp else cmp_Compare (whe_index e) (whe_index other))"

fun insert_by :: "('a \<Rightarrow> 'a \<Rightarrow> int) \<Rightarrow> 'a \<Rightarrow> 'a list \<Rightarrow> 'a list" where
  "insert_by cmp x [] = [x]"
| "insert_by cmp x (y # ys) = (if cmp x y \<le> 0 then x # y # ys else y # insert_by cmp x ys)"

definition utils_Sort :: "('a \<Rightarrow> 'a \<Rightarrow> int) \<Rightarrow> 'a list \<Rightarrow> 'a list" where
  "utils_Sort cmp xs = foldr (insert_by cmp) xs []"

text \<open>The loop of \<open>Initialize\<close> from the last element to the second one.\<close>

fun heap_accumulate :: "nat \<Rightarrow> weightedHeap \<Rightarrow> math_error + weightedHeap" where
  "heap_accumulate 0 heap = Inr heap"
| "heap_accumulate (Suc k) heap =
     (let parentIndex = k div 2 in
      case math_Add (whe_cumulativeWeight (heap ! parentIndex)) (whe_cumulativeWeight (heap ! Suc k)) of
        Inl err \<Rightarrow> Inl err
      | Inr newWeight \<Rightarrow>
          heap_accumulate k (heap[parentIndex := (heap ! parentIndex)\<lparr>whe_cumulativeWeight := newWeight\<rparr>]))"

definition heap_elements :: "64 word list \<Rightarrow> weightedHeap" where
  "heap_elements weights =
     map (\<lambda>(i, weight). \<lparr>whe_weight = weight, whe_cumulativeWeight = weight, whe_index = i\<rparr>)
       (zip [0..<length weights] weights)"

definition weightedHeap_Initialize :: "64 word list \<Rightarrow> math_error + weightedHeap" where
  "weightedHeap_Initialize weights =
     (let heap = utils_Sort weightedHeapElement_Compare (heap_elements weights) in
      heap_accumulate (length heap - 1) heap)"

text \<open>The loop of \<open>Sample\<close>.\<close>

function heap_search :: "weightedHeap \<Rightarrow> nat \<Rightarrow> 64 word \<Rightarrow> nat option" where
  "heap_search heap index value =
     (if length heap \<le> index then None
      else
        let currentElement = heap ! index; currentWeight = whe_weight currentElement in
        if value < currentWeight then Some (whe_index currentElement)
        else
          let value = value - currentWeight; index = index * 2 + 1 in
          if length heap \<le> index then None
          else
            let leftWeight = whe_cumulativeWeight (heap ! index) in
            if leftWeight \<le> value then heap_search heap (index + 1) (value - leftWeight)
            else heap_search heap index value)"
  by pat_completeness auto
termination
  by (relation "measure (\<lambda>(heap, index, value). length heap - index)") (auto simp: Let_def)

declare heap_search.simps [simp del]

text \<open>\<open>Some None\<close> is the return of \<open>false\<close>.\<close>

definition weightedHeap_Sample :: "weightedHeap \<Rightarrow> 64 word \<Rightarrow> nat option option" where
  "weightedHeap_Sample heap value =
     (if heap = [] \<or> whe_cumulativeWeight (heap ! 0) \<le> value then Some None
      else map_option Some (heap_search heap 0 value))"

section \<open>The sort\<close>

lemma mset_insert_by [simp]: "mset (insert_by cmp x ys) = add_mset x (mset ys)"
  by (induction ys) auto

lemma mset_utils_Sort [simp]: "mset (utils_Sort cmp xs) = mset xs"
  unfolding utils_Sort_def by (induction xs) auto

lemma length_utils_Sort [simp]: "length (utils_Sort cmp xs) = length xs"
  by (metis mset_utils_Sort size_mset)

section \<open>Sums over the subtrees of an array heap\<close>

function tree_sum :: "(nat \<Rightarrow> nat) \<Rightarrow> nat \<Rightarrow> nat \<Rightarrow> nat" where
  "tree_sum f n i = (if i < n then f i + tree_sum f n (2 * i + 1) + tree_sum f n (2 * i + 2) else 0)"
  by pat_completeness auto
termination
  by (relation "measure (\<lambda>(f, n, i). n - i)") auto

declare tree_sum.simps [simp del]

lemma tree_sum_out [simp]: "n \<le> i \<Longrightarrow> tree_sum f n i = 0"
  by (subst tree_sum.simps) simp

lemma tree_sum_in: "i < n \<Longrightarrow> tree_sum f n i = f i + tree_sum f n (2 * i + 1) + tree_sum f n (2 * i + 2)"
  by (subst tree_sum.simps) simp

text \<open>The subtree of the root is the whole array: a level-order sweep of the frontier.\<close>

lemma tree_sum_frontier:
  "tree_sum f n 0 = (\<Sum>j < k. if j < n then f j else 0) + (\<Sum>j = k .. 2 * k. tree_sum f n j)"
proof (induction k)
  case (Suc k)
  have "(\<Sum>j = k .. 2 * k. tree_sum f n j) = tree_sum f n k + (\<Sum>j = Suc k .. 2 * k. tree_sum f n j)"
    by (simp add: sum.atLeast_Suc_atMost)
  moreover have "tree_sum f n k = (if k < n then f k else 0) + tree_sum f n (2 * k + 1) + tree_sum f n (2 * k + 2)"
    by (cases "k < n") (simp_all add: tree_sum_in)
  moreover have "(\<Sum>j = Suc k .. 2 * Suc k. tree_sum f n j) =
      (\<Sum>j = Suc k .. 2 * k. tree_sum f n j) + tree_sum f n (2 * k + 1) + tree_sum f n (2 * k + 2)"
  proof (cases "k = 0")
    case False
    have "{Suc k .. 2 * Suc k} = insert (2 * k + 2) (insert (2 * k + 1) {Suc k .. 2 * k})" using False by auto
    then show ?thesis by simp
  qed (simp add: numeral_2_eq_2)
  ultimately show ?case using Suc by simp
qed simp

lemma tree_sum_root: "tree_sum f n 0 = (\<Sum>j < n. f j)"
  using tree_sum_frontier [of f n n] by simp

lemma tree_sum_le_root: "tree_sum f n i \<le> (\<Sum>j < n. f j)"
proof -
  have "tree_sum f n i \<le> (\<Sum>j = i .. 2 * i. tree_sum f n j)" by (rule member_le_sum) auto
  then show ?thesis using tree_sum_frontier [of f n i] tree_sum_root [of f n] by linarith
qed

lemma tree_sum_mono: "(\<And>j. j < n \<Longrightarrow> f j \<le> g j) \<Longrightarrow> tree_sum f n i \<le> tree_sum g n i"
proof (induction "n - i" arbitrary: i rule: less_induct)
  case less
  show ?case
  proof (cases "i < n")
    case True
    have "tree_sum f n (2 * i + 1) \<le> tree_sum g n (2 * i + 1)" "tree_sum f n (2 * i + 2) \<le> tree_sum g n (2 * i + 2)"
      using less True by auto
    with True less.prems [OF True] show ?thesis by (simp add: tree_sum_in)
  qed simp
qed

section \<open>The cumulative weights\<close>

abbreviation heap_weight :: "weightedHeap \<Rightarrow> nat \<Rightarrow> nat" where
  "heap_weight h i \<equiv> unat (whe_weight (h ! i))"

abbreviation heap_cum :: "weightedHeap \<Rightarrow> nat \<Rightarrow> nat" where
  "heap_cum h i \<equiv> unat (whe_cumulativeWeight (h ! i))"

text \<open>The elements above \<open>k\<close> have been added to their parents.\<close>

definition heap_partial :: "weightedHeap \<Rightarrow> nat \<Rightarrow> bool" where
  "heap_partial h k \<longleftrightarrow> (\<forall>j < length h. heap_cum h j = heap_weight h j +
     (if k < 2 * j + 1 then tree_sum (heap_weight h) (length h) (2 * j + 1) else 0) +
     (if k < 2 * j + 2 then tree_sum (heap_weight h) (length h) (2 * j + 2) else 0))"

text \<open>Indices and weights are fixed, only the cumulative weights change.\<close>

definition same_elements :: "weightedHeap \<Rightarrow> weightedHeap \<Rightarrow> bool" where
  "same_elements h h' \<longleftrightarrow> map whe_weight h' = map whe_weight h \<and> map whe_index h' = map whe_index h"

definition heap_total :: "weightedHeap \<Rightarrow> nat" where
  "heap_total h = (\<Sum>j < length h. heap_weight h j)"

lemma same_elements_weight:
  assumes "same_elements h h'"
  shows "length h' = length h" "j < length h \<Longrightarrow> whe_weight (h' ! j) = whe_weight (h ! j)"
    "j < length h \<Longrightarrow> whe_index (h' ! j) = whe_index (h ! j)"
  using assms by (auto simp: same_elements_def dest: map_eq_imp_length_eq) (metis map_eq_imp_length_eq nth_map)+

lemma tree_sum_cong: "(\<And>j. j < n \<Longrightarrow> f j = g j) \<Longrightarrow> tree_sum f n i = tree_sum g n i"
  using tree_sum_mono [of n f g i] tree_sum_mono [of n g f i] by (simp add: le_antisym)

lemma heap_partial_step:
  assumes h: "heap_partial h (Suc k)" "Suc k < length h"
    and c: "unat c = heap_cum h (k div 2) + heap_cum h (Suc k)"
    and h': "h' = h[k div 2 := (h ! (k div 2))\<lparr>whe_cumulativeWeight := c\<rparr>]"
  shows "heap_partial h' k" "same_elements h h'"
proof -
  have se: "same_elements h h'"
    using h(2) by (auto simp: same_elements_def h' map_update list_update_same_conv)
  then show "same_elements h h'" .
  note w = same_elements_weight [OF se]
  have ts: "tree_sum (heap_weight h') (length h') i = tree_sum (heap_weight h) (length h) i" for i
    unfolding w(1) by (rule tree_sum_cong) (simp add: w(2))
  have own: "heap_cum h (Suc k) = tree_sum (heap_weight h) (length h) (Suc k)"
    using h by (simp add: heap_partial_def tree_sum_in)
  show "heap_partial h' k"
    unfolding heap_partial_def
  proof (intro allI impI)
    fix j assume "j < length h'"
    then have j: "j < length h" using w(1) by simp
    show "heap_cum h' j = heap_weight h' j +
     (if k < 2 * j + 1 then tree_sum (heap_weight h') (length h') (2 * j + 1) else 0) +
     (if k < 2 * j + 2 then tree_sum (heap_weight h') (length h') (2 * j + 2) else 0)"
    proof (cases "j = k div 2")
      case True
      then have "heap_cum h' j = heap_cum h j + tree_sum (heap_weight h) (length h) (Suc k)"
        using c own j by (simp add: h')
      moreover have "Suc k = 2 * j + 1 \<or> Suc k = 2 * j + 2" using True by presburger
      ultimately show ?thesis using h(1) j unfolding ts w(2) [OF j] by (auto simp: heap_partial_def)
    next
      case False
      then have "k < 2 * j + 1 \<longleftrightarrow> Suc k < 2 * j + 1" "k < 2 * j + 2 \<longleftrightarrow> Suc k < 2 * j + 2" by presburger+
      moreover have "heap_cum h' j = heap_cum h j" using False by (simp add: h')
      ultimately show ?thesis using h(1) j unfolding ts w(2) [OF j] by (simp add: heap_partial_def)
    qed
  qed
qed

lemma same_elements_trans: "same_elements h h1 \<Longrightarrow> same_elements h1 h2 \<Longrightarrow> same_elements h h2"
  by (simp add: same_elements_def)

lemma heap_total_same: "same_elements h h' \<Longrightarrow> heap_total h' = heap_total h"
  unfolding heap_total_def using same_elements_weight by (metis (no_types, lifting) lessThan_iff sum.cong)

text \<open>The accumulation fails exactly if the total does not fit.\<close>

lemma heap_accumulate_ok:
  assumes "heap_partial h k" "k < length h"
  shows "(2 ^ 64 \<le> heap_total h \<and> heap_accumulate k h = Inl ErrOverflow) \<or>
    (\<exists>h'. heap_accumulate k h = Inr h' \<and> same_elements h h' \<and> heap_partial h' 0)"
  using assms
proof (induction k arbitrary: h)
  case (Suc k)
  let ?p = "k div 2"
  let ?T = "tree_sum (heap_weight h) (length h)"
  from math_Add_cases [of "whe_cumulativeWeight (h ! ?p)" "whe_cumulativeWeight (h ! Suc k)"]
  consider "math_Add (whe_cumulativeWeight (h ! ?p)) (whe_cumulativeWeight (h ! Suc k)) = Inl ErrOverflow"
      "2 ^ 64 \<le> heap_cum h ?p + heap_cum h (Suc k)"
    | c where "math_Add (whe_cumulativeWeight (h ! ?p)) (whe_cumulativeWeight (h ! Suc k)) = Inr c"
      "unat c = heap_cum h ?p + heap_cum h (Suc k)" by auto
  then show ?case
  proof cases
    case 1
    have p: "?p < length h" using Suc.prems by simp
    have "heap_cum h (Suc k) = ?T (Suc k)" using Suc.prems by (simp add: heap_partial_def tree_sum_in)
    moreover have "heap_cum h ?p = heap_weight h ?p + (if Suc k < 2 * ?p + 1 then ?T (2 * ?p + 1) else 0) +
        (if Suc k < 2 * ?p + 2 then ?T (2 * ?p + 2) else 0)"
      using Suc.prems(1) p by (simp only: heap_partial_def)
    moreover have "Suc k = 2 * ?p + 1 \<or> Suc k = 2 * ?p + 2" by presburger
    then have "?T (Suc k) + (if Suc k < 2 * ?p + 1 then ?T (2 * ?p + 1) else 0) +
        (if Suc k < 2 * ?p + 2 then ?T (2 * ?p + 2) else 0) \<le> ?T (2 * ?p + 1) + ?T (2 * ?p + 2)"
      by (elim disjE) simp_all
    ultimately have "heap_cum h ?p + heap_cum h (Suc k) \<le> ?T ?p"
      using tree_sum_in [OF p, of "heap_weight h"] by linarith
    also have "\<dots> \<le> heap_total h" unfolding heap_total_def by (rule tree_sum_le_root)
    finally show ?thesis using 1 by simp
  next
    case (2 c)
    let ?h = "h[?p := (h ! ?p)\<lparr>whe_cumulativeWeight := c\<rparr>]"
    note step = heap_partial_step [OF Suc.prems 2(2) refl]
    from Suc.IH [OF step(1)] Suc.prems(2) step(2) 2(1) show ?thesis
      by (auto simp: heap_total_same dest: same_elements_trans)
  qed
qed (auto simp: same_elements_def)

lemma heap_cum_tree: "heap_partial h 0 \<Longrightarrow> j < length h \<Longrightarrow> heap_cum h j = tree_sum (heap_weight h) (length h) j"
  by (simp add: heap_partial_def tree_sum_in)

section \<open>The search\<close>

lemma card_split:
  fixes a b :: nat
  shows "card {m. m < a + b \<and> P m} = card {m. m < a \<and> P m} + card {m. m < b \<and> P (a + m)}"
proof -
  have "{m. m < a + b \<and> P m} = {m. m < a \<and> P m} \<union> (+) a ` {m. m < b \<and> P (a + m)}"
  proof (intro equalityI subsetI)
    fix m assume "m \<in> {m. m < a + b \<and> P m}"
    then show "m \<in> {m. m < a \<and> P m} \<union> (+) a ` {m. m < b \<and> P (a + m)}"
      by (cases "m < a") (auto intro: image_eqI [of _ _ "m - a"])
  qed auto
  moreover have "{m. m < a \<and> P m} \<inter> (+) a ` {m. m < b \<and> P (a + m)} = {}" by auto
  ultimately show ?thesis by (simp add: card_Un_disjoint card_image)
qed

lemma heap_search_step:
  fixes h :: weightedHeap
  defines "T \<equiv> tree_sum (heap_weight h) (length h)"
  assumes h: "heap_partial h 0" and i: "i < length h" and m: "m < T i"
  shows "heap_search h i (word_of_nat m) =
    (if m < heap_weight h i then Some (whe_index (h ! i))
     else if m - heap_weight h i < T (2 * i + 1) then heap_search h (2 * i + 1) (word_of_nat (m - heap_weight h i))
     else heap_search h (2 * i + 2) (word_of_nat (m - heap_weight h i - T (2 * i + 1))))"
proof -
  have Ti: "T i = heap_weight h i + T (2 * i + 1) + T (2 * i + 2)" unfolding T_def by (rule tree_sum_in [OF i])
  have "heap_cum h i < 2 ^ LENGTH(64)" by (rule unsigned_less)
  then have "T i < 2 ^ 64" using heap_cum_tree [OF h i] by (simp add: T_def)
  then have um: "unat (word_of_nat x :: 64 word) = x" if "x \<le> m" for x
    using m that by (simp add: unat_of_nat)
  show ?thesis
  proof (cases "m < heap_weight h i")
    case True
    then show ?thesis using i um [of m] by (subst heap_search.simps) (simp add: Let_def word_less_nat_alt)
  next
    case False
    have l: "2 * i + 1 < length h" using False m Ti by (rule_tac ccontr) (simp add: T_def)
    let ?w = "whe_weight (h ! i)" and ?l = "whe_cumulativeWeight (h ! (2 * i + 1))"
    have sub: "(word_of_nat m :: 64 word) - ?w = word_of_nat (m - heap_weight h i)"
      using False um [of m] by (simp add: of_nat_diff)
    have left: "unat ?l = T (2 * i + 1)" using heap_cum_tree [OF h l] by (simp add: T_def)
    have le: "?l \<le> word_of_nat (m - heap_weight h i) \<longleftrightarrow> T (2 * i + 1) \<le> m - heap_weight h i"
      unfolding word_le_nat_alt left by (simp add: um)
    have sub2: "(word_of_nat (m - heap_weight h i) :: 64 word) - ?l = word_of_nat (m - heap_weight h i - T (2 * i + 1))"
      if "T (2 * i + 1) \<le> m - heap_weight h i"
      unfolding of_nat_diff [OF that] unfolding left [symmetric] by simp
    have ni: "\<not> length h \<le> i" "\<not> length h \<le> 2 * i + 1" "\<not> (word_of_nat m :: 64 word) < ?w" "i * 2 + 1 = 2 * i + 1"
      using i l False um [of m] by (simp_all add: word_less_nat_alt)
    have "heap_search h i (word_of_nat m) =
        (if T (2 * i + 1) \<le> m - heap_weight h i
         then heap_search h (2 * i + 1 + 1) (word_of_nat (m - heap_weight h i) - ?l)
         else heap_search h (2 * i + 1) (word_of_nat (m - heap_weight h i)))"
      by (subst heap_search.simps) (simp only: Let_def ni sub le if_False)
    also have "\<dots> = (if T (2 * i + 1) \<le> m - heap_weight h i
         then heap_search h (2 * i + 2) (word_of_nat (m - heap_weight h i - T (2 * i + 1)))
         else heap_search h (2 * i + 1) (word_of_nat (m - heap_weight h i)))"
      by (simp only: sub2 add.assoc one_add_one cong: if_cong)
    finally show ?thesis using False by (simp only: if_False not_less split: if_split) simp
  qed
qed

lemma heap_search_count:
  assumes h: "heap_partial h 0"
  shows "card {m. m < tree_sum (heap_weight h) (length h) i \<and> heap_search h i (word_of_nat m) = Some x} =
    tree_sum (\<lambda>j. if whe_index (h ! j) = x then heap_weight h j else 0) (length h) i"
proof (induction "length h - i" arbitrary: i rule: less_induct)
  case less
  let ?T = "tree_sum (heap_weight h) (length h)"
  let ?N = "\<lambda>i. card {m. m < ?T i \<and> heap_search h i (word_of_nat m) = Some x}"
  show ?case
  proof (cases "i < length h")
    case True
    note step = heap_search_step [OF h True]
    let ?w = "heap_weight h i" and ?P = "\<lambda>m. heap_search h i (word_of_nat m) = Some x"
    have Ti: "?T i = ?w + (?T (2 * i + 1) + ?T (2 * i + 2))" by (simp add: tree_sum_in [OF True])
    have root: "heap_search h i (word_of_nat m) = Some (whe_index (h ! i))" if "m < ?w" for m
      using step [of m] Ti that by simp
    have left: "heap_search h i (word_of_nat (?w + m)) = heap_search h (2 * i + 1) (word_of_nat m)"
      if "m < ?T (2 * i + 1)" for m using step [of "?w + m"] Ti that by (simp del: of_nat_add)
    have right: "heap_search h i (word_of_nat (?w + (?T (2 * i + 1) + m))) = heap_search h (2 * i + 2) (word_of_nat m)"
      if "m < ?T (2 * i + 2)" for m using step [of "?w + (?T (2 * i + 1) + m)"] Ti that by (simp del: of_nat_add)
    have a: "{m. m < ?w \<and> ?P m} = (if whe_index (h ! i) = x then {..<?w} else {})"
      using root by auto
    have b: "{m. m < ?T (2 * i + 1) \<and> ?P (?w + m)} = {m. m < ?T (2 * i + 1) \<and> heap_search h (2 * i + 1) (word_of_nat m) = Some x}"
      by (intro Collect_cong conj_cong refl) (simp only: left)
    have c: "{m. m < ?T (2 * i + 2) \<and> ?P (?w + (?T (2 * i + 1) + m))} =
        {m. m < ?T (2 * i + 2) \<and> heap_search h (2 * i + 2) (word_of_nat m) = Some x}"
      by (intro Collect_cong conj_cong refl) (simp only: right)
    have "?N i = card {m. m < ?w \<and> ?P m} + (?N (2 * i + 1) + ?N (2 * i + 2))"
      unfolding Ti card_split [of _ _ ?P] card_split [of _ _ "\<lambda>m. ?P (?w + m)"] b c by simp
    also have "?N (2 * i + 1) = tree_sum (\<lambda>j. if whe_index (h ! j) = x then heap_weight h j else 0) (length h) (2 * i + 1)"
      using less [of "2 * i + 1"] True by simp
    also have "?N (2 * i + 2) = tree_sum (\<lambda>j. if whe_index (h ! j) = x then heap_weight h j else 0) (length h) (2 * i + 2)"
      using less [of "2 * i + 2"] True by simp
    finally show ?thesis unfolding a by (simp add: tree_sum_in [OF True])
  qed simp
qed

lemma heap_search_total:
  assumes h: "heap_partial h 0" and "m < tree_sum (heap_weight h) (length h) i"
  shows "heap_search h i (word_of_nat m) \<noteq> None"
  using assms(2)
proof (induction "length h - i" arbitrary: i m rule: less_induct)
  case less
  have i: "i < length h" using less.prems by (rule_tac ccontr) simp
  let ?T = "tree_sum (heap_weight h) (length h)" and ?w = "heap_weight h i"
  have lt: "length h - (2 * i + 1) < length h - i" "length h - (2 * i + 2) < length h - i" using i by auto
  have right: "m - ?w - ?T (2 * i + 1) < ?T (2 * i + 2)" if "\<not> m < ?w" "\<not> m - ?w < ?T (2 * i + 1)"
    using that less.prems tree_sum_in [OF i, of "heap_weight h"] by linarith
  show ?case
    unfolding heap_search_step [OF h i less.prems]
    using less.hyps [OF lt(1), of "m - ?w"] less.hyps [OF lt(2) right] by (simp only: split: if_split) blast
qed

section \<open>The distribution\<close>

lemma sum_nth_mset: "(\<Sum>j < length xs. f (xs ! j)) = sum_mset (image_mset f (mset xs))"
  unfolding mset_map [symmetric] sum_mset_sum_list by (simp add: sum_list_sum_nth atLeast0LessThan)

lemma heap_elements_nth:
  "length (heap_elements ws) = length ws"
  "i < length ws \<Longrightarrow> heap_elements ws ! i = \<lparr>whe_weight = ws ! i, whe_cumulativeWeight = ws ! i, whe_index = i\<rparr>"
  by (simp_all add: heap_elements_def)

text \<open>A sum over the elements does not depend on the order of the heap.\<close>

lemma sum_sorted:
  fixes f :: "nat \<Rightarrow> 64 word \<Rightarrow> nat"
  assumes "same_elements (utils_Sort cmp (heap_elements ws)) h"
  shows "(\<Sum>j < length h. f (whe_index (h ! j)) (whe_weight (h ! j))) = (\<Sum>i < length ws. f i (ws ! i))"
proof -
  let ?s = "utils_Sort cmp (heap_elements ws)" and ?f = "\<lambda>e. f (whe_index e) (whe_weight e)"
  note w = same_elements_weight [OF assms]
  have "(\<Sum>j < length h. ?f (h ! j)) = (\<Sum>j < length ?s. ?f (?s ! j))"
    unfolding w(1) by (rule sum.cong) (simp_all only: lessThan_iff w(2,3))
  also have "\<dots> = sum_mset (image_mset ?f (mset ?s))" by (rule sum_nth_mset)
  also have "\<dots> = (\<Sum>j < length (heap_elements ws). ?f (heap_elements ws ! j))"
    unfolding mset_utils_Sort by (rule sum_nth_mset [symmetric])
  also have "\<dots> = (\<Sum>i < length ws. f i (ws ! i))"
    unfolding heap_elements_nth(1) by (rule sum.cong) (simp_all add: heap_elements_nth)
  finally show ?thesis .
qed

lemma heap_partial_initial:
  assumes "\<And>j. j < length h \<Longrightarrow> whe_cumulativeWeight (h ! j) = whe_weight (h ! j)"
  shows "heap_partial h (length h - 1)"
  unfolding heap_partial_def using assms by auto

lemma sorted_elements_cum:
  assumes "j < length (utils_Sort cmp (heap_elements ws))"
  shows "whe_cumulativeWeight (utils_Sort cmp (heap_elements ws) ! j) = whe_weight (utils_Sort cmp (heap_elements ws) ! j)"
proof -
  have "utils_Sort cmp (heap_elements ws) ! j \<in> set (utils_Sort cmp (heap_elements ws))" using assms by (rule nth_mem)
  then have "utils_Sort cmp (heap_elements ws) ! j \<in> set (heap_elements ws)" by (metis mset_utils_Sort set_mset_mset)
  then show ?thesis by (auto simp: heap_elements_def)
qed

definition weights_total :: "64 word list \<Rightarrow> nat" where
  "weights_total ws = (\<Sum>i < length ws. unat (ws ! i))"

lemma weightedHeap_Initialize_ok:
  "(2 ^ 64 \<le> weights_total ws \<and> weightedHeap_Initialize ws = Inl ErrOverflow) \<or>
   (\<exists>h. weightedHeap_Initialize ws = Inr h \<and> heap_partial h 0 \<and>
      same_elements (utils_Sort weightedHeapElement_Compare (heap_elements ws)) h)"
proof (cases "ws = []")
  case True
  then show ?thesis
    by (simp add: weightedHeap_Initialize_def heap_elements_def utils_Sort_def heap_partial_def same_elements_def)
next
  case False
  let ?s = "utils_Sort weightedHeapElement_Compare (heap_elements ws)"
  have "heap_total ?s = weights_total ws"
    using sum_sorted [of weightedHeapElement_Compare ws ?s "\<lambda>_ w. unat w"]
    by (simp add: heap_total_def weights_total_def same_elements_def)
  moreover have "heap_partial ?s (length ?s - 1)" by (rule heap_partial_initial) (rule sorted_elements_cum)
  moreover have "length ?s - 1 < length ?s" using False by (simp add: heap_elements_nth)
  ultimately show ?thesis using heap_accumulate_ok [of ?s "length ?s - 1"] by (simp add: weightedHeap_Initialize_def Let_def) blast
qed

lemma card_words:
  assumes "t \<le> 2 ^ 64"
  shows "card {v :: 64 word. unat v < t \<and> P v} = card {m. m < t \<and> P (word_of_nat m)}"
proof -
  have "{m. m < t \<and> P (word_of_nat m)} = unat ` {v :: 64 word. unat v < t \<and> P v}"
  proof (intro equalityI subsetI)
    fix m assume "m \<in> {m. m < t \<and> P (word_of_nat m)}"
    moreover from this have "unat (word_of_nat m :: 64 word) = m" using assms by (simp add: unat_of_nat)
    ultimately show "m \<in> unat ` {v :: 64 word. unat v < t \<and> P v}" by (metis (mono_tags, lifting) image_eqI mem_Collect_eq)
  qed auto
  moreover have "inj_on unat {v :: 64 word. unat v < t \<and> P v}" by (auto intro!: inj_onI simp: word_unat_eq_iff)
  ultimately show ?thesis by (simp add: card_image)
qed

lemma weightedHeap_total:
  assumes "heap_partial h 0" "same_elements (utils_Sort cmp (heap_elements ws)) h"
  shows "tree_sum (heap_weight h) (length h) 0 = weights_total ws" "length h = length ws"
    "h \<noteq> [] \<Longrightarrow> heap_cum h 0 = weights_total ws" "weights_total ws < 2 ^ 64"
proof -
  show len: "length h = length ws" using same_elements_weight(1) [OF assms(2)] by (simp add: heap_elements_nth)
  show T: "tree_sum (heap_weight h) (length h) 0 = weights_total ws"
    using sum_sorted [OF assms(2), of "\<lambda>_ w. unat w"] by (simp add: tree_sum_root weights_total_def)
  show cum: "h \<noteq> [] \<Longrightarrow> heap_cum h 0 = weights_total ws" using heap_cum_tree [OF assms(1), of 0] T by simp
  have "heap_cum h 0 < 2 ^ LENGTH(64)" by (rule unsigned_less)
  then show "weights_total ws < 2 ^ 64" using cum len by (cases "h = []") (simp_all add: weights_total_def)
qed

lemma weightedHeap_Sample_ok:
  assumes h: "heap_partial h 0" "same_elements (utils_Sort cmp (heap_elements ws)) h"
  shows "weightedHeap_Sample h v =
    (if weights_total ws \<le> unat v then Some None else map_option Some (heap_search h 0 v))"
    "unat v < weights_total ws \<Longrightarrow> heap_search h 0 v \<noteq> None"
    "card {v. unat v < weights_total ws \<and> heap_search h 0 v = Some i} = (if i < length ws then unat (ws ! i) else 0)"
proof -
  note t = weightedHeap_total [OF h]
  have "h = [] \<Longrightarrow> weights_total ws = 0" using t(2) by (simp add: weights_total_def)
  then show "weightedHeap_Sample h v =
      (if weights_total ws \<le> unat v then Some None else map_option Some (heap_search h 0 v))"
    using t(3) by (cases "h = []") (simp_all add: weightedHeap_Sample_def word_le_nat_alt)
  show "unat v < weights_total ws \<Longrightarrow> heap_search h 0 v \<noteq> None"
    using heap_search_total [OF h(1), of "unat v" 0] t(1) by simp
  have "card {v. unat v < weights_total ws \<and> heap_search h 0 v = Some i} =
      (\<Sum>j < length h. if whe_index (h ! j) = i then heap_weight h j else 0)"
    using heap_search_count [OF h(1), of 0 i] t(1,4) by (simp add: card_words tree_sum_root)
  also have "\<dots> = (\<Sum>j < length ws. if j = i then unat (ws ! j) else 0)"
    by (rule sum_sorted [OF h(2), of "\<lambda>j w. if j = i then unat w else 0"])
  finally show "card {v. unat v < weights_total ws \<and> heap_search h 0 v = Some i} = (if i < length ws then unat (ws ! i) else 0)"
    by (simp add: sum.delta)
qed

text \<open>C32. Weighted sampling is exact.  Initialization fails exactly if the sum of the weights overflows 64 bits, whatever the order of the partial sums
  in the heap.  Otherwise the search ends for every value without reading outside of the heap; it finds nothing
  exactly for the values from the total weight on; and each index is found for precisely as many values as its weight,
  so a uniform value picks every index in proportion to its weight.\<close>

theorem weighted_sampling_exact:
  "if 2 ^ 64 \<le> weights_total ws then weightedHeap_Initialize ws = Inl ErrOverflow
   else \<exists>h. weightedHeap_Initialize ws = Inr h \<and> (\<forall>v. weightedHeap_Sample h v \<noteq> None) \<and>
     (\<forall>v. weightedHeap_Sample h v = Some None \<longleftrightarrow> weights_total ws \<le> unat v) \<and>
     (\<forall>i. card {v. weightedHeap_Sample h v = Some (Some i)} = (if i < length ws then unat (ws ! i) else 0))"
proof (cases "2 ^ 64 \<le> weights_total ws")
  case True
  then show ?thesis using weightedHeap_Initialize_ok [of ws] weightedHeap_total(4) by fastforce
next
  case False
  then obtain h where h: "weightedHeap_Initialize ws = Inr h" "heap_partial h 0"
    "same_elements (utils_Sort weightedHeapElement_Compare (heap_elements ws)) h"
    using weightedHeap_Initialize_ok [of ws] by auto
  note ok = weightedHeap_Sample_ok [OF h(2,3)]
  have "{v. weightedHeap_Sample h v = Some (Some i)} = {v. unat v < weights_total ws \<and> heap_search h 0 v = Some i}" for i
    by (auto simp: ok(1) split: if_splits)
  moreover have "weightedHeap_Sample h v \<noteq> None" "weightedHeap_Sample h v = Some None \<longleftrightarrow> weights_total ws \<le> unat v" for v
    using ok(2) [of v] by (auto simp: ok(1))
  ultimately show ?thesis using False h(1) ok(3) by (intro if_bool_eq_conj [THEN iffD2] conjI impI exI [of _ h]) simp_all
qed

end
