(* ===== verification/Sampler_Rng.thy ===== *)
theory Sampler_Rng
  imports Sampler_Weighted "HOL-Library.Log_Nat"
begin

text \<open>
  \<open>utils/sampler/rand.go\<close>: uniform numbers of a range from a source of random 64-bit numbers.

  The source is an interface: a parameter that gives a number and the next state.  A loop that waits for a number in
  range need not end, for a source that never gives one: then there is no value.
\<close>

type_synonym 's source = "'s \<Rightarrow> 64 word \<times> 's"

definition MaxInt64 :: "64 word" where
  "MaxInt64 = 2 ^ 63 - 1"

definition rng_uint64 :: "'s source \<Rightarrow> 's \<Rightarrow> 64 word \<times> 's" where
  "rng_uint64 src s = src s"

definition rng_uint63 :: "'s source \<Rightarrow> 's \<Rightarrow> 64 word \<times> 's" where
  "rng_uint63 src s = (let (v, s') = rng_uint64 src s in (v AND MaxInt64, s'))"

text \<open>The loops: draw again while the number is above the bound.\<close>

partial_function (option) drawUntil :: "'s source \<Rightarrow> 64 word \<Rightarrow> 's \<Rightarrow> (64 word \<times> 's) option" where
  "drawUntil draw bound s = (let (v, s') = draw s in if v > bound then drawUntil draw bound s' else Some (v, s'))"

definition Uint64Inclusive :: "'s source \<Rightarrow> 64 word \<Rightarrow> 's \<Rightarrow> (64 word \<times> 's) option" where
  "Uint64Inclusive src n s =
     (if n AND (n + 1) = 0 then let (v, s') = rng_uint64 src s in Some (v AND n, s')
      else if n > MaxInt64 then drawUntil (rng_uint64 src) n s
      else
        let maximum = 2 ^ 63 - 1 - 2 ^ 63 mod (n + 1) in
        map_option (\<lambda>(v, s'). (v mod (n + 1), s')) (drawUntil (rng_uint63 src) maximum s))"

section \<open>The first number that is accepted\<close>

text \<open>The result for a number of the source, or nothing if it is rejected.\<close>

definition inclusive_value :: "64 word \<Rightarrow> 64 word \<Rightarrow> 64 word option" where
  "inclusive_value n w =
     (if n AND (n + 1) = 0 then Some (w AND n)
      else if n > MaxInt64 then (if w \<le> n then Some w else None)
      else if w AND MaxInt64 \<le> 2 ^ 63 - 1 - 2 ^ 63 mod (n + 1) then Some ((w AND MaxInt64) mod (n + 1)) else None)"

fun source_state :: "'s source \<Rightarrow> 's \<Rightarrow> nat \<Rightarrow> 's" where
  "source_state src s 0 = s"
| "source_state src s (Suc k) = source_state src (snd (src s)) k"

definition source_value :: "'s source \<Rightarrow> 's \<Rightarrow> nat \<Rightarrow> 64 word" where
  "source_value src s k = fst (src (source_state src s k))"

lemma source_value_simps [simp]:
  "source_value src s 0 = fst (src s)" "source_value src s (Suc k) = source_value src (snd (src s)) k"
  by (simp_all add: source_value_def)

definition first_accepted :: "'s source \<Rightarrow> 64 word \<Rightarrow> 's \<Rightarrow> nat \<Rightarrow> bool" where
  "first_accepted src n s k \<longleftrightarrow> inclusive_value n (source_value src s k) \<noteq> None \<and>
     (\<forall>j < k. inclusive_value n (source_value src s j) = None)"

lemma first_accepted_0: "inclusive_value n (fst (src s)) \<noteq> None \<Longrightarrow> first_accepted src n s k \<longleftrightarrow> k = 0"
  by (cases k) (auto simp: first_accepted_def)

lemma first_accepted_Suc:
  "inclusive_value n (fst (src s)) = None \<Longrightarrow>
    first_accepted src n s k \<longleftrightarrow> (\<exists>j. k = Suc j \<and> first_accepted src n (snd (src s)) j)"
  by (cases k) (auto simp: first_accepted_def less_Suc_eq_0_disj)

lemma drawUntil_step:
  "draw s = (v, s') \<Longrightarrow> drawUntil draw b s = (if b < v then drawUntil draw b s' else Some (v, s'))"
  by (subst drawUntil.simps) simp

lemma Uint64Inclusive_unfold:
  "Uint64Inclusive src n s =
     (case inclusive_value n (fst (src s)) of
        Some r \<Rightarrow> Some (r, snd (src s))
      | None \<Rightarrow> Uint64Inclusive src n (snd (src s)))"
proof -
  obtain v s' where v: "src s = (v, s')" by (cases "src s")
  define P Q M where "P \<longleftrightarrow> n AND (n + 1) = 0" and "Q \<longleftrightarrow> n > MaxInt64" and "M = 2 ^ 63 - 1 - 2 ^ 63 mod (n + 1)"
  note fold = P_def [symmetric] Q_def [symmetric] M_def [symmetric]
  have "rng_uint64 src s = (v, s')" "rng_uint63 src s = (v AND MaxInt64, s')"
    by (simp_all add: rng_uint64_def rng_uint63_def v)
  then show ?thesis
    unfolding Uint64Inclusive_def inclusive_value_def Let_def fold v
    by (cases P; cases Q) (auto simp: drawUntil_step [where s = s] not_less)
qed

lemma Uint64Inclusive_first:
  "first_accepted src n s k \<Longrightarrow>
    Uint64Inclusive src n s = Some (the (inclusive_value n (source_value src s k)), source_state src s (Suc k))"
proof (induction k arbitrary: s)
  case 0
  then show ?case by (subst Uint64Inclusive_unfold) (auto simp: first_accepted_def)
next
  case (Suc k)
  then have none: "inclusive_value n (fst (src s)) = None" by (auto simp: first_accepted_def)
  with Suc.prems have "first_accepted src n (snd (src s)) k" by (simp add: first_accepted_Suc)
  from Suc.IH [OF this] none show ?case by (subst Uint64Inclusive_unfold) simp
qed

lemma drawUntil_accepts:
  assumes "drawUntil draw b s = Some r"
  shows "\<exists>k. source_value draw s k \<le> b"
proof (rule drawUntil.raw_induct [where P = "\<lambda>draw b s r. \<exists>k. source_value draw s k \<le> b", OF _ assms])
  fix f :: "'a source \<Rightarrow> 64 word \<Rightarrow> 'a \<Rightarrow> (64 word \<times> 'a) option" and draw b s r
  assume f: "\<And>draw b s r. f draw b s = Some r \<Longrightarrow> \<exists>k. source_value draw s k \<le> b"
    and r: "(let (v, s') = draw s in if b < v then f draw b s' else Some (v, s')) = Some r"
  obtain v s' where v: "draw s = (v, s')" by (cases "draw s")
  show "\<exists>k. source_value draw s k \<le> b"
  proof (cases "b < v")
    case True
    with r v have "f draw b s' = Some r" by simp
    from f [OF this] obtain k where "source_value draw s' k \<le> b" ..
    with v show ?thesis by (metis snd_conv source_value_simps(2))
  next
    case False
    with v show ?thesis by (metis fst_conv not_less source_value_simps(1))
  qed
qed

lemma source_63: "source_state (rng_uint63 src) s k = source_state src s k"
  "source_value (rng_uint63 src) s k = source_value src s k AND MaxInt64"
proof -
  have st: "source_state (rng_uint63 src) s k = source_state src s k" for s
    by (induction k arbitrary: s) (simp_all add: rng_uint63_def rng_uint64_def case_prod_beta)
  then show "source_state (rng_uint63 src) s k = source_state src s k" .
  show "source_value (rng_uint63 src) s k = source_value src s k AND MaxInt64"
    unfolding source_value_def st by (simp add: rng_uint63_def rng_uint64_def case_prod_beta)
qed

lemma Uint64Inclusive_returns:
  assumes "Uint64Inclusive src n s = Some r"
  shows "\<exists>k. first_accepted src n s k"
proof -
  have "\<exists>k. inclusive_value n (source_value src s k) \<noteq> None"
  proof (cases "n AND (n + 1) = 0")
    case False
    note drawUntil_accepts [of "rng_uint64 src" n s] drawUntil_accepts [of "rng_uint63 src" _ s]
    moreover have "rng_uint64 src = src" by (simp add: rng_uint64_def fun_eq_iff)
    ultimately show ?thesis using assms False
      by (auto simp: Uint64Inclusive_def inclusive_value_def Let_def source_63 split: if_splits)
  qed (simp add: inclusive_value_def)
  then show ?thesis unfolding first_accepted_def
    using exists_least_iff [of "\<lambda>k. inclusive_value n (source_value src s k) \<noteq> None"] by auto
qed

section \<open>Equally many numbers for every result\<close>

lemma card_mod:
  fixes d k r :: nat
  shows "r < d \<Longrightarrow> card {m. m < k * d \<and> m mod d = r} = k"
proof (induction k)
  case (Suc k)
  have "{m. m < d \<and> (k * d + m) mod d = r} = {r}" using Suc.prems by auto
  then show ?case using Suc card_split [of "k * d" d "\<lambda>m. m mod d = r"] by (simp add: add.commute)
qed simp

lemma mask_of_and_Suc:
  fixes n :: "64 word"
  assumes "n AND (n + 1) = 0"
  obtains j where "j \<le> 64" "unat n + 1 = 2 ^ j" "n = mask j"
proof (cases "n = 0")
  case True
  then show thesis using that [of 0] by simp
next
  case False
  then have "1 \<le> unat n" by (simp add: unat_gt_0 Suc_le_eq)
  then obtain b where b: "2 ^ b \<le> unat n" "unat n < 2 ^ Suc b"
    using ex_power_ivl1 [of 2 "unat n"] by auto
  have lt: "unat n < 2 ^ 64" using unsigned_less [of n, where ?'a = nat] by simp
  have b64: "b < 64" using b(1) lt by (meson leI order.strict_trans1 power_increasing one_le_numeral not_less)
  have "unat n + 1 = 2 ^ Suc b"
  proof (rule ccontr)
    assume "unat n + 1 \<noteq> 2 ^ Suc b"
    with b have s: "unat n + 1 < 2 ^ Suc b" by simp
    moreover have "(2 :: nat) ^ Suc b \<le> 2 ^ 64" using b64 by (intro power_increasing) auto
    ultimately have "unat (n + 1) = unat n + 1" by (simp add: unat_word_ariths)
    then have "unat n div 2 ^ b = 1" "unat (n + 1) div 2 ^ b = 1"
      using b s by (simp_all add: div_nat_eqI)
    moreover have "bit w b \<longleftrightarrow> odd (unat w div 2 ^ b)" for w :: "64 word"
      unfolding bit_iff_odd [of "unat w", symmetric] by (simp add: bit_unsigned_iff)
    ultimately have "bit n b" "bit (n + 1) b" by simp_all
    then have "bit (n AND (n + 1)) b" by (simp add: bit_and_iff)
    with assms show False by simp
  qed
  moreover from this have "(word_of_nat (unat n + 1) :: 64 word) = word_of_nat (2 ^ Suc b)" by (simp only:)
  then have "n + 1 = 2 ^ Suc b" by (simp add: add.commute)
  then have "n = mask (Suc b)" by (simp add: mask_eq_exp_minus_1 eq_diff_eq)
  ultimately show thesis using that [of "Suc b"] b64 by simp
qed

lemma card_words_all: "card {w :: 64 word. P w} = card {m. m < 2 ^ 64 \<and> P (word_of_nat m)}"
proof -
  have "unat w < 2 ^ 64" for w :: "64 word" using unsigned_less [of w, where ?'a = nat] by simp
  then show ?thesis using card_words [of "2 ^ 64" P] by simp
qed

lemma unat_and_mask: "unat (w AND mask j :: 64 word) = unat w mod 2 ^ j"
  unfolding take_bit_eq_mask [symmetric] unfolding unsigned_take_bit_eq unfolding take_bit_eq_mod ..

lemma unbiased_mask:
  fixes n r :: "64 word"
  assumes "n AND (n + 1) = 0"
  shows "card {w. w AND n = r} = (if r \<le> n then 2 ^ 64 div (unat n + 1) else 0)" "2 ^ 64 div (unat n + 1) * (unat n + 1) = 2 ^ 64"
proof -
  obtain j where j: "j \<le> 64" "unat n + 1 = 2 ^ j" "n = mask j" using mask_of_and_Suc [OF assms] .
  have k: "2 ^ (64 - j) * 2 ^ j = (2 :: nat) ^ 64" using j(1) by (simp add: power_add [symmetric])
  have "unat (w AND n) = unat w mod 2 ^ j" for w :: "64 word"
    unfolding j(3) by (rule unat_and_mask)
  then have eq: "w AND n = r \<longleftrightarrow> unat w mod 2 ^ j = unat r" for w by (simp add: word_unat_eq_iff)
  have "card {w. w AND n = r} = card {m. m < 2 ^ (64 - j) * 2 ^ j \<and> m mod 2 ^ j = unat r}"
    unfolding card_words_all eq k by (rule arg_cong [of _ _ card]) (auto simp: unat_of_nat)
  also have "\<dots> = (if r \<le> n then 2 ^ (64 - j) else 0)"
  proof (cases "r \<le> n")
    case True
    then have "unat r < 2 ^ j" using j(2) by (simp add: word_le_nat_alt)
    then show ?thesis using True card_mod by simp
  next
    case False
    then have "2 ^ j \<le> unat r" using j(2) by (simp add: word_le_nat_alt)
    then have "m mod 2 ^ j \<noteq> unat r" for m by (metis mod_less_divisor not_less pos2 zero_less_power)
    then show ?thesis using False by simp
  qed
  finally have "card {w. w AND n = r} = (if r \<le> n then 2 ^ (64 - j) else 0)" .
  moreover have "(2 :: nat) ^ 64 div 2 ^ j = 2 ^ (64 - j)" unfolding k [symmetric] by simp
  ultimately show "card {w. w AND n = r} = (if r \<le> n then 2 ^ 64 div (unat n + 1) else 0)"
    "2 ^ 64 div (unat n + 1) * (unat n + 1) = 2 ^ 64" unfolding j(2) using k by simp_all
qed

lemma div_bounds:
  fixes N d :: nat
  assumes "0 < d" "d \<le> N"
  shows "1 \<le> N div d * d" "N div d * d \<le> N" "N \<le> 2 * (N div d) * d"
proof -
  have "N div d * d = N - N mod d" "N mod d < d" using assms(1) by (simp_all add: minus_mod_eq_div_mult)
  moreover have "1 * d \<le> N div d * d"
    using assms by (intro mult_right_mono) (simp_all add: Suc_le_eq div_greater_zero_iff)
  ultimately show "1 \<le> N div d * d" "N div d * d \<le> N" "N \<le> 2 * (N div d) * d"
    using assms unfolding mult.assoc by linarith+
qed

lemma unbiased_modulo:
  fixes n r :: "64 word"
  assumes "n \<le> MaxInt64"
  shows "card {w. w AND MaxInt64 \<le> 2 ^ 63 - 1 - 2 ^ 63 mod (n + 1) \<and> (w AND MaxInt64) mod (n + 1) = r} =
      (if r \<le> n then 2 * (2 ^ 63 div (unat n + 1)) else 0)"
    "2 ^ 63 \<le> 2 * (2 ^ 63 div (unat n + 1)) * (unat n + 1)"
proof -
  let ?d = "unat n + 1" and ?K = "2 ^ 63 div (unat n + 1)"
  have u63: "unat (2 ^ 63 :: 64 word) = 2 ^ 63" "unat (2 ^ 63 - 1 :: 64 word) = 2 ^ 63 - 1" by simp_all
  have n: "unat n < 2 ^ 63" using assms u63(2) by (simp add: MaxInt64_def word_le_nat_alt)
  then have d: "unat (n + 1) = ?d" by (simp add: unat_word_ariths)
  have md: "unat (2 ^ 63 mod (n + 1)) = 2 ^ 63 mod ?d" by (simp only: unat_mod u63 d)
  have Kd: "?K * ?d = 2 ^ 63 - 2 ^ 63 mod ?d" by (simp add: minus_mod_eq_div_mult)
  have lt: "2 ^ 63 mod ?d < ?d" by simp
  have "(2 ^ 63 mod (n + 1) :: 64 word) \<le> 2 ^ 63 - 1" unfolding word_le_nat_alt md u63 using lt n by linarith
  then have "unat (2 ^ 63 - 1 - 2 ^ 63 mod (n + 1) :: 64 word) = 2 ^ 63 - 1 - 2 ^ 63 mod ?d"
    by (simp only: unat_sub md u63)
  then have mx: "unat (2 ^ 63 - 1 - 2 ^ 63 mod (n + 1) :: 64 word) = ?K * ?d - 1" unfolding Kd by linarith
  have Kd1: "1 \<le> ?K * ?d" "?K * ?d \<le> 2 ^ 63" "2 ^ 63 \<le> 2 * ?K * ?d"
    using n by (intro div_bounds; simp)+
  have low: "unat (w AND MaxInt64) = unat w mod 2 ^ 63" for w :: "64 word"
  proof -
    have m: "MaxInt64 = mask 63" unfolding MaxInt64_def mask_eq_exp_minus_1 ..
    show ?thesis unfolding m by (rule unat_and_mask)
  qed
  have iff: "w AND MaxInt64 \<le> 2 ^ 63 - 1 - 2 ^ 63 mod (n + 1) \<and> (w AND MaxInt64) mod (n + 1) = r \<longleftrightarrow>
      unat w mod 2 ^ 63 < ?K * ?d \<and> unat w mod 2 ^ 63 mod ?d = unat r" for w :: "64 word"
    unfolding word_le_nat_alt word_unat_eq_iff [of _ r] unat_mod mx d low using Kd1(1) by auto
  let ?Q = "\<lambda>m. m mod 2 ^ 63 < ?K * ?d \<and> m mod 2 ^ 63 mod ?d = unat r"
  have half: "{m. m < 2 ^ 63 \<and> ?Q m} = {m. m < ?K * ?d \<and> m mod ?d = unat r}" using Kd1(2) by auto
  have "card {w. w AND MaxInt64 \<le> 2 ^ 63 - 1 - 2 ^ 63 mod (n + 1) \<and> (w AND MaxInt64) mod (n + 1) = r} =
      card {m. m < 2 ^ 63 + 2 ^ 63 \<and> ?Q m}"
    unfolding iff card_words_all by (rule arg_cong [of _ _ card]) (auto simp: unat_of_nat)
  also have "\<dots> = 2 * card {m. m < ?K * ?d \<and> m mod ?d = unat r}"
    unfolding card_split [of _ _ ?Q] mod_add_self1 half mult_2 ..
  also have "\<dots> = (if r \<le> n then 2 * ?K else 0)"
  proof (cases "r \<le> n")
    case True
    then have "unat r < ?d" by (simp add: word_le_nat_alt)
    from card_mod [OF this, of ?K] show ?thesis using True by (simp only: if_True)
  next
    case False
    then have "?d \<le> unat r" by (simp add: word_le_nat_alt)
    then have "m mod ?d \<noteq> unat r" for m by (metis mod_less_divisor not_less add_gr_0 zero_less_one)
    then show ?thesis using False by simp
  qed
  finally show "card {w. w AND MaxInt64 \<le> 2 ^ 63 - 1 - 2 ^ 63 mod (n + 1) \<and> (w AND MaxInt64) mod (n + 1) = r} =
      (if r \<le> n then 2 * (2 ^ 63 div (unat n + 1)) else 0)" .
  show "2 ^ 63 \<le> 2 * (2 ^ 63 div (unat n + 1)) * (unat n + 1)" by (rule Kd1(3))
qed

lemma inclusive_value_unbiased:
  "\<exists>k. 2 ^ 63 \<le> k * (unat n + 1) \<and> (\<forall>r. card {w. inclusive_value n w = Some r} = (if r \<le> n then k else 0))"
proof -
  consider (mask) "n AND (n + 1) = 0" | (reject) "n AND (n + 1) \<noteq> 0" "n > MaxInt64"
    | (modulo) "n AND (n + 1) \<noteq> 0" "n \<le> MaxInt64" by (meson not_less)
  then show ?thesis
  proof cases
    case mask
    then have "{w. inclusive_value n w = Some r} = {w. w AND n = r}" for r by (simp add: inclusive_value_def)
    then show ?thesis using unbiased_mask [OF mask] by (intro exI [of _ "2 ^ 64 div (unat n + 1)"]) simp
  next
    case reject
    then have "{w. inclusive_value n w = Some r} = (if r \<le> n then {r} else {})" for r
      by (auto simp: inclusive_value_def split: if_splits)
    moreover have "2 ^ 63 \<le> unat n + 1" using reject(2) by (simp add: MaxInt64_def word_less_nat_alt)
    ultimately show ?thesis by (intro exI [of _ 1]) simp
  next
    case modulo
    then have "{w. inclusive_value n w = Some r} =
        {w. w AND MaxInt64 \<le> 2 ^ 63 - 1 - 2 ^ 63 mod (n + 1) \<and> (w AND MaxInt64) mod (n + 1) = r}" for r
      unfolding inclusive_value_def by (auto split: if_splits)
    then show ?thesis using unbiased_modulo [OF modulo(2)] by (intro exI [of _ "2 * (2 ^ 63 div (unat n + 1))"]) (simp only: simp_thms)
  qed
qed

text \<open>C33. \<open>Uint64Inclusive\<close> is unbiased.  It returns exactly if the source ever gives a number it accepts,
  and then gives the value of the first such number and leaves the source behind it.  For every bound \<open>n\<close>, including the largest 64-bit
  number, each value up to \<open>n\<close> comes from the same number \<open>k\<close> of 64-bit numbers and a larger value from none,
  and at least half of all 64-bit numbers are accepted.\<close>

theorem rng_unbiased:
  "(\<exists>k. 2 ^ 63 \<le> k * (unat n + 1) \<and> (\<forall>r. card {w. inclusive_value n w = Some r} = (if r \<le> n then k else 0))) \<and>
   ((\<exists>r s'. Uint64Inclusive src n s = Some (r, s')) \<longleftrightarrow> (\<exists>k. inclusive_value n (source_value src s k) \<noteq> None)) \<and>
   (Uint64Inclusive src n s = Some (r, s') \<longleftrightarrow>
      (\<exists>k. first_accepted src n s k \<and> inclusive_value n (source_value src s k) = Some r \<and> s' = source_state src s (Suc k)))"
proof -
  have least: "\<exists>k. first_accepted src n s k" if "inclusive_value n (source_value src s j) \<noteq> None" for j
    using that exists_least_iff [of "\<lambda>k. inclusive_value n (source_value src s k) \<noteq> None"]
    by (auto simp: first_accepted_def)
  have first: "Uint64Inclusive src n s = Some (r, s') \<longleftrightarrow>
      (\<exists>k. first_accepted src n s k \<and> inclusive_value n (source_value src s k) = Some r \<and> s' = source_state src s (Suc k))" for r s'
  proof
    assume u: "Uint64Inclusive src n s = Some (r, s')"
    from Uint64Inclusive_returns [OF this] obtain k where k: "first_accepted src n s k" ..
    from Uint64Inclusive_first [OF k] u k show "\<exists>k. first_accepted src n s k \<and>
        inclusive_value n (source_value src s k) = Some r \<and> s' = source_state src s (Suc k)"
      by (intro exI [of _ k]) (auto simp: first_accepted_def)
  qed (metis Uint64Inclusive_first option.sel)
  then have "(\<exists>r s'. Uint64Inclusive src n s = Some (r, s')) \<longleftrightarrow> (\<exists>k. inclusive_value n (source_value src s k) \<noteq> None)"
    using least by (auto simp: first_accepted_def) blast
  with inclusive_value_unbiased first show ?thesis by blast
qed

end
