(* ===== verification/Sampler.thy ===== *)
theory Sampler
  imports Sampler_Rng "HOL-Library.Monad_Syntax"
begin

text \<open>
  \<open>utils/sampler/uniform_replacer.go\<close> and \<open>utils/sampler/weighted_without_replacement_generic.go\<close>: sampling
  numbers of a range without replacement, and sampling indices such that no index is drawn more often than
  its weight.

  The state of the random source is threaded through.  In the results the outer option is \<open>None\<close> if the code
  does not return (a random source that never gives a usable number) or panics; the inner one is the Boolean
  the code returns.
\<close>

section \<open>Uniform sampling without replacement\<close>

record uniformReplacer =
  ur_length :: "64 word"
  ur_drawn :: "64 word \<rightharpoonup> 64 word"
  ur_drawsCount :: "64 word"

definition defaultMap_get :: "(64 word \<rightharpoonup> 64 word) \<Rightarrow> 64 word \<Rightarrow> 64 word \<Rightarrow> 64 word" where
  "defaultMap_get m key defaultVal = (case m key of Some val \<Rightarrow> val | None \<Rightarrow> defaultVal)"

definition uniformReplacer_Initialize :: "64 word \<Rightarrow> uniformReplacer" where
  "uniformReplacer_Initialize len = \<lparr>ur_length = len, ur_drawn = Map.empty, ur_drawsCount = 0\<rparr>"

definition uniformReplacer_Reset :: "uniformReplacer \<Rightarrow> uniformReplacer" where
  "uniformReplacer_Reset s = s\<lparr>ur_drawn := Map.empty, ur_drawsCount := 0\<rparr>"

definition uniformReplacer_Next ::
  "'s source \<Rightarrow> uniformReplacer \<Rightarrow> 's \<Rightarrow> (64 word option \<times> uniformReplacer \<times> 's) option" where
  "uniformReplacer_Next src s g =
     (if ur_drawsCount s \<ge> ur_length s then Some (None, s, g)
      else do {
        (r, g') \<leftarrow> Uint64Inclusive src (ur_length s - 1 - ur_drawsCount s) g;
        let draw = r + ur_drawsCount s;
        let ret = defaultMap_get (ur_drawn s) draw draw;
        Some (Some ret,
          s\<lparr>ur_drawn := (ur_drawn s)(draw \<mapsto> defaultMap_get (ur_drawn s) (ur_drawsCount s) (ur_drawsCount s)),
            ur_drawsCount := ur_drawsCount s + 1\<rparr>, g')
      })"

fun uniformReplacer_loop ::
  "'s source \<Rightarrow> nat \<Rightarrow> uniformReplacer \<Rightarrow> 's \<Rightarrow> (64 word list option \<times> uniformReplacer \<times> 's) option" where
  "uniformReplacer_loop src 0 s g = Some (Some [], s, g)"
| "uniformReplacer_loop src (Suc n) s g = do {
     (ret, s', g') \<leftarrow> uniformReplacer_Next src s g;
     case ret of
       None \<Rightarrow> Some (None, s', g')
     | Some x \<Rightarrow> do {
         (rest, s'', g'') \<leftarrow> uniformReplacer_loop src n s' g';
         Some (map_option (Cons x) rest, s'', g'')
       }
   }"

definition uniformReplacer_Sample ::
  "'s source \<Rightarrow> nat \<Rightarrow> uniformReplacer \<Rightarrow> 's \<Rightarrow> (64 word list option \<times> uniformReplacer \<times> 's) option" where
  "uniformReplacer_Sample src cnt s g = uniformReplacer_loop src cnt (uniformReplacer_Reset s) g"

section \<open>Weighted sampling without replacement\<close>

record weightedWithoutReplacement =
  wwr_u :: uniformReplacer
  wwr_w :: weightedHeap

fun add_weights :: "64 word list \<Rightarrow> 64 word \<Rightarrow> math_error + 64 word" where
  "add_weights [] totalWeight = Inr totalWeight"
| "add_weights (weight # weights) totalWeight =
     (case math_Add totalWeight weight of
        Inl err \<Rightarrow> Inl err
      | Inr newWeight \<Rightarrow> add_weights weights newWeight)"

definition wwr_Initialize :: "64 word list \<Rightarrow> math_error + weightedWithoutReplacement" where
  "wwr_Initialize weights =
     (case add_weights weights 0 of
        Inl err \<Rightarrow> Inl err
      | Inr totalWeight \<Rightarrow>
          (case weightedHeap_Initialize weights of
             Inl err \<Rightarrow> Inl err
           | Inr heap \<Rightarrow> Inr \<lparr>wwr_u = uniformReplacer_Initialize totalWeight, wwr_w = heap\<rparr>))"

fun wwr_loop ::
  "'s source \<Rightarrow> weightedHeap \<Rightarrow> nat \<Rightarrow> uniformReplacer \<Rightarrow> 's \<Rightarrow> (nat list option \<times> uniformReplacer \<times> 's) option" where
  "wwr_loop src w 0 u g = Some (Some [], u, g)"
| "wwr_loop src w (Suc n) u g = do {
     (weight, u', g') \<leftarrow> uniformReplacer_Next src u g;
     case weight of
       None \<Rightarrow> Some (None, u', g')
     | Some weight \<Rightarrow> do {
         index \<leftarrow> weightedHeap_Sample w weight;
         case index of
           None \<Rightarrow> Some (None, u', g')
         | Some i \<Rightarrow> do {
             (rest, u'', g'') \<leftarrow> wwr_loop src w n u' g';
             Some (map_option (Cons i) rest, u'', g'')
           }
       }
   }"

definition wwr_Sample ::
  "'s source \<Rightarrow> nat \<Rightarrow> weightedWithoutReplacement \<Rightarrow> 's \<Rightarrow> (nat list option \<times> weightedWithoutReplacement \<times> 's) option" where
  "wwr_Sample src cnt s g = do {
     (indices, u, g') \<leftarrow> wwr_loop src (wwr_w s) cnt (uniformReplacer_Reset (wwr_u s)) g;
     Some (indices, s\<lparr>wwr_u := u\<rparr>, g')
   }"

section \<open>The lazy shuffle\<close>

text \<open>The values that are still to be drawn: the entries from the current position on.\<close>

definition shuffled :: "uniformReplacer \<Rightarrow> 64 word \<Rightarrow> 64 word" where
  "shuffled s j = defaultMap_get (ur_drawn s) j j"

definition undrawn :: "uniformReplacer \<Rightarrow> 64 word set" where
  "undrawn s = shuffled s ` {ur_drawsCount s ..< ur_length s}"

definition shuffle_ok :: "uniformReplacer \<Rightarrow> bool" where
  "shuffle_ok s \<longleftrightarrow> inj_on (shuffled s) {ur_drawsCount s ..< ur_length s}"

lemma Uint64Inclusive_le:
  assumes "Uint64Inclusive src n g = Some (r, g')"
  shows "r \<le> n"
proof -
  from Uint64Inclusive_returns [OF assms] obtain k where k: "first_accepted src n g k" ..
  with Uint64Inclusive_first [OF k] assms have "inclusive_value n (source_value src g k) = Some r"
    by (auto simp: first_accepted_def)
  then have "card {w. inclusive_value n w = Some r} \<noteq> 0" by (auto simp: card_eq_0_iff)
  then show ?thesis using inclusive_value_unbiased [of n] by (auto split: if_splits)
qed

lemma swap_image:
  assumes "inj_on f (insert k S)" "k \<notin> S" "d \<in> insert k S" "f' = f(d := f k)"
  shows "inj_on f' S" "f' ` S = f ` insert k S - {f d}"
  using assms by (auto simp: inj_on_def image_iff)

lemma interval_Suc:
  fixes k l :: "64 word"
  assumes "k < l"
  shows "{k ..< l} = insert k {k + 1 ..< l}" "k \<notin> {k + 1 ..< l}"
proof -
  have "unat k < unat l" using assms by (simp add: word_less_nat_alt)
  moreover have "unat l < 2 ^ 64" using unsigned_less [of l, where ?'a = nat] by simp
  ultimately have u: "unat (k + 1) = unat k + 1" by (simp add: unat_word_ariths)
  show "{k ..< l} = insert k {k + 1 ..< l}"
    using assms by (auto simp: word_le_nat_alt word_less_nat_alt u word_unat_eq_iff)
  show "k \<notin> {k + 1 ..< l}" by (simp add: word_le_nat_alt u)
qed

lemma draw_in_range:
  fixes k l r :: "64 word"
  assumes "k < l" "r \<le> l - 1 - k"
  shows "r + k \<in> {k ..< l}"
proof -
  have kl: "unat k < unat l" using assms(1) by (simp add: word_less_nat_alt)
  then have "unat (l - 1) = unat l - 1" by (simp add: unat_sub word_le_nat_alt)
  then have "unat (l - 1 - k) = unat l - 1 - unat k" using kl by (simp add: unat_sub word_le_nat_alt)
  then have r: "unat r + unat k < unat l" using assms(2) kl by (simp add: word_le_nat_alt)
  moreover have "unat l < 2 ^ 64" using unsigned_less [of l, where ?'a = nat] by simp
  ultimately have "unat (r + k) = unat r + unat k" by (simp add: unat_word_ariths)
  then show ?thesis using r by (simp add: word_le_nat_alt word_less_nat_alt)
qed

lemma Next_ok:
  assumes "shuffle_ok s" "uniformReplacer_Next src s g = Some (ret, s', g')"
  shows "case ret of None \<Rightarrow> undrawn s = {} \<and> s' = s
    | Some x \<Rightarrow> x \<in> undrawn s \<and> undrawn s' = undrawn s - {x} \<and> shuffle_ok s'"
proof (cases "ur_drawsCount s \<ge> ur_length s")
  case True
  then show ?thesis using assms(2) by (auto simp: uniformReplacer_Next_def undrawn_def)
next
  case False
  then have k: "ur_drawsCount s < ur_length s" by simp
  obtain r where r: "Uint64Inclusive src (ur_length s - 1 - ur_drawsCount s) g = Some (r, g')"
    and ret: "ret = Some (shuffled s (r + ur_drawsCount s))"
    and s': "s' = s\<lparr>ur_drawn := (ur_drawn s)(r + ur_drawsCount s \<mapsto> shuffled s (ur_drawsCount s)),
      ur_drawsCount := ur_drawsCount s + 1\<rparr>"
    using assms(2) False
    by (auto simp: uniformReplacer_Next_def shuffled_def Let_def split: Option.bind_splits)
  have d: "r + ur_drawsCount s \<in> {ur_drawsCount s ..< ur_length s}"
    by (rule draw_in_range [OF k Uint64Inclusive_le [OF r]])
  have f': "shuffled s' = (shuffled s)(r + ur_drawsCount s := shuffled s (ur_drawsCount s))"
    by (auto simp: fun_eq_iff shuffled_def s' defaultMap_get_def)
  note iv = interval_Suc [OF k]
  note swap = swap_image [OF assms(1) [unfolded shuffle_ok_def iv(1)] iv(2) d [unfolded iv(1)] f']
  show ?thesis
    using swap d ret by (auto simp: undrawn_def shuffle_ok_def s' iv(1))
qed

text \<open>A source that always gives a usable number in the end.\<close>

definition rng_returns :: "'s source \<Rightarrow> bool" where
  "rng_returns src \<longleftrightarrow> (\<forall>n g. Uint64Inclusive src n g \<noteq> None)"

lemma Next_returns:
  assumes "rng_returns src"
  shows "\<exists>ret s' g'. uniformReplacer_Next src s g = Some (ret, s', g')"
proof -
  obtain r g' where "Uint64Inclusive src (ur_length s - 1 - ur_drawsCount s) g = Some (r, g')"
    using assms unfolding rng_returns_def by fastforce
  then show ?thesis by (simp add: uniformReplacer_Next_def Let_def)
qed

lemma Next_None_iff:
  assumes "uniformReplacer_Next src s g = Some (ret, s', g')"
  shows "ret = None \<longleftrightarrow> undrawn s = {}"
proof -
  have "undrawn s = {} \<longleftrightarrow> ur_drawsCount s \<ge> ur_length s" by (simp add: undrawn_def not_less)
  then show ?thesis using assms by (auto simp: uniformReplacer_Next_def Let_def split: Option.bind_splits)
qed

lemma undrawn_Initialize:
  "undrawn (uniformReplacer_Initialize l) = {..<l}" "shuffle_ok (uniformReplacer_Initialize l)"
  "undrawn (uniformReplacer_Reset s) = {..<ur_length s}" "shuffle_ok (uniformReplacer_Reset s)"
  by (auto simp: undrawn_def shuffle_ok_def uniformReplacer_Initialize_def uniformReplacer_Reset_def shuffled_def
      defaultMap_get_def inj_on_def)

lemma card_lessThan_word: "card {..<l :: 64 word} = unat l"
proof -
  have "{..<l} = {v. unat v < unat l \<and> True}" by (auto simp: word_less_nat_alt)
  moreover have "unat l \<le> 2 ^ 64" using unsigned_less [of l, where ?'a = nat] by simp
  ultimately show ?thesis using card_words [of "unat l" "\<lambda>_. True"] by simp
qed

lemma uniform_loop_ok:
  assumes "shuffle_ok s" "uniformReplacer_loop src n s g = Some (res, s', g')"
  shows "(case res of None \<Rightarrow> card (undrawn s) < n
    | Some rs \<Rightarrow> length rs = n \<and> distinct rs \<and> set rs \<subseteq> undrawn s)"
  using assms
proof (induction n arbitrary: s g res)
  case (Suc n)
  obtain ret s1 g1 where 1: "uniformReplacer_Next src s g = Some (ret, s1, g1)"
    using Suc.prems(2) by (auto split: Option.bind_splits)
  note nxt = Next_ok [OF Suc.prems(1) 1]
  show ?case
  proof (cases ret)
    case None
    with Suc.prems(2) 1 nxt show ?thesis by auto
  next
    case (Some x)
    with 1 Suc.prems(2) obtain rest where 2: "uniformReplacer_loop src n s1 g1 = Some (rest, s', g')"
      and res: "res = map_option (Cons x) rest" by (auto split: Option.bind_splits)
    have u: "x \<in> undrawn s" "undrawn s1 = undrawn s - {x}" "shuffle_ok s1" using nxt Some by auto
    have card: "card (undrawn s) = Suc (card (undrawn s1))" using u(1,2) card.remove [of "undrawn s" x] by simp
    note IH = Suc.IH [OF u(3) 2]
    show ?thesis
    proof (cases rest)
      case None
      with IH card res show ?thesis by simp
    next
      case (Some rs)
      with IH have "length rs = n" "distinct rs" "set rs \<subseteq> undrawn s - {x}" unfolding u(2) by simp_all
      then show ?thesis unfolding res Some using u(1) by auto
    qed
  qed
qed auto

lemma wwr_loop_ok:
  assumes "shuffle_ok u" "\<And>v. v \<in> undrawn u \<Longrightarrow> \<exists>i. weightedHeap_Sample w v = Some (Some i)"
    and "wwr_loop src w n u g = Some (res, u', g')"
  shows "(case res of None \<Rightarrow> card (undrawn u) < n
    | Some idx \<Rightarrow> \<exists>ds. length ds = n \<and> distinct ds \<and> set ds \<subseteq> undrawn u \<and>
        map (weightedHeap_Sample w) ds = map (\<lambda>i. Some (Some i)) idx)"
  using assms
proof (induction n arbitrary: u g res)
  case (Suc n)
  obtain ret u1 g1 where 1: "uniformReplacer_Next src u g = Some (ret, u1, g1)"
    using Suc.prems(3) by (auto split: Option.bind_splits)
  note nxt = Next_ok [OF Suc.prems(1) 1]
  show ?case
  proof (cases ret)
    case None
    with Suc.prems(3) 1 nxt show ?thesis by auto
  next
    case (Some x)
    then have u: "x \<in> undrawn u" "undrawn u1 = undrawn u - {x}" "shuffle_ok u1" using nxt by auto
    from Suc.prems(2) [OF u(1)] obtain i where i: "weightedHeap_Sample w x = Some (Some i)" ..
    with 1 Some Suc.prems(3) obtain rest where 2: "wwr_loop src w n u1 g1 = Some (rest, u', g')"
      and res: "res = map_option (Cons i) rest" by (auto split: Option.bind_splits)
    have card: "card (undrawn u) = Suc (card (undrawn u1))" using u(1,2) card.remove [of "undrawn u" x] by simp
    have IH: "case rest of None \<Rightarrow> card (undrawn u1) < n | Some idx \<Rightarrow> \<exists>ds. length ds = n \<and> distinct ds \<and>
        set ds \<subseteq> undrawn u1 \<and> map (weightedHeap_Sample w) ds = map (\<lambda>i. Some (Some i)) idx"
      by (rule Suc.IH [OF u(3) _ 2]) (use Suc.prems(2) u(2) in auto)
    show ?thesis
    proof (cases rest)
      case None
      with IH card res show ?thesis by simp
    next
      case (Some idx)
      with IH obtain ds where ds: "length ds = n" "distinct ds" "set ds \<subseteq> undrawn u1"
        "map (weightedHeap_Sample w) ds = map (\<lambda>i. Some (Some i)) idx" by auto
      then have "length (x # ds) = Suc n \<and> distinct (x # ds) \<and> set (x # ds) \<subseteq> undrawn u \<and>
          map (weightedHeap_Sample w) (x # ds) = map (\<lambda>i. Some (Some i)) (i # idx)" using u(1,2) i by auto
      then show ?thesis unfolding res Some option.map option.case by blast
    qed
  qed
qed auto

lemma wwr_loop_returns:
  assumes "rng_returns src" "shuffle_ok u" "\<And>v. v \<in> undrawn u \<Longrightarrow> \<exists>i. weightedHeap_Sample w v = Some (Some i)"
  shows "\<exists>res u' g'. wwr_loop src w n u g = Some (res, u', g')"
  using assms(2,3)
proof (induction n arbitrary: u g)
  case (Suc n)
  obtain ret u1 g1 where 1: "uniformReplacer_Next src u g = Some (ret, u1, g1)" using Next_returns [OF assms(1)] by blast
  note nxt = Next_ok [OF Suc.prems(1) 1]
  show ?case
  proof (cases ret)
    case None
    then show ?thesis using 1 by simp
  next
    case (Some x)
    then have u: "x \<in> undrawn u" "undrawn u1 = undrawn u - {x}" "shuffle_ok u1" using nxt by auto
    from Suc.prems(2) [OF u(1)] obtain i where i: "weightedHeap_Sample w x = Some (Some i)" ..
    have "\<exists>res u' g'. wwr_loop src w n u1 g1 = Some (res, u', g')"
      by (rule Suc.IH [OF u(3)]) (use Suc.prems(2) u(2) in auto)
    then show ?thesis using 1 Some i by auto
  qed
qed simp

section \<open>No index is drawn more often than its weight\<close>

lemma add_weights_total:
  "add_weights ws t = (if unat t + sum_list (map unat ws) < 2 ^ 64
     then Inr (word_of_nat (unat t + sum_list (map unat ws))) else Inl ErrOverflow)"
proof (induction ws arbitrary: t)
  case Nil
  have "unat t < 2 ^ LENGTH(64)" by (rule unsigned_less)
  then show ?case by simp
next
  case (Cons w ws)
  from math_Add_cases [of t w] show ?case by (auto simp: Cons add.assoc)
qed

lemma weights_total_list: "weights_total ws = sum_list (map unat ws)"
  by (simp add: weights_total_def sum_list_sum_nth atLeast0LessThan)

text \<open>The sampler state that an initialization leaves, also after samples: the counters are reset before each sample.\<close>

definition wwr_for :: "64 word list \<Rightarrow> weightedWithoutReplacement \<Rightarrow> bool" where
  "wwr_for ws s \<longleftrightarrow> unat (ur_length (wwr_u s)) = weights_total ws \<and> heap_partial (wwr_w s) 0 \<and>
     same_elements (utils_Sort weightedHeapElement_Compare (heap_elements ws)) (wwr_w s)"

lemma wwr_Initialize_ok:
  "2 ^ 64 \<le> weights_total ws \<Longrightarrow> wwr_Initialize ws = Inl ErrOverflow"
  "weights_total ws < 2 ^ 64 \<Longrightarrow> \<exists>h. wwr_Initialize ws =
     Inr \<lparr>wwr_u = uniformReplacer_Initialize (word_of_nat (weights_total ws)), wwr_w = h\<rparr> \<and> heap_partial h 0 \<and>
     same_elements (utils_Sort weightedHeapElement_Compare (heap_elements ws)) h"
  using weightedHeap_Initialize_ok [of ws]
  by (auto simp: wwr_Initialize_def add_weights_total weights_total_list [symmetric] not_less)

lemma uniformReplacer_same_length:
  "uniformReplacer_Next src u g = Some (ret, u', g') \<Longrightarrow> ur_length u' = ur_length u"
  by (auto simp: uniformReplacer_Next_def Let_def split: if_splits Option.bind_splits)

lemma wwr_loop_same_length: "wwr_loop src w n u g = Some (res, u', g') \<Longrightarrow> ur_length u' = ur_length u"
proof (induction n arbitrary: u g res)
  case (Suc n)
  then show ?case
    by (auto split: Option.bind_splits option.splits dest!: uniformReplacer_same_length Suc.IH)
qed simp

lemma wwr_Sample_for: "wwr_for ws s \<Longrightarrow> wwr_Sample src n s g = Some (res, s', g') \<Longrightarrow> wwr_for ws s'"
  by (auto simp: wwr_Sample_def wwr_for_def uniformReplacer_Reset_def dest!: wwr_loop_same_length split: Option.bind_splits)

lemma count_list_card:
  assumes "distinct ds" "map f ds = map g idx" "\<And>i j. g i = g j \<Longrightarrow> i = j"
  shows "count_list idx i = card {d \<in> set ds. f d = g i}"
proof -
  have "count_list idx i = length (filter (\<lambda>y. y = g i) (map g idx))"
    using assms(3) by (induction idx) auto
  also have "\<dots> = length (filter (\<lambda>d. f d = g i) ds)" unfolding assms(2) [symmetric] by (simp add: filter_map comp_def)
  also have "\<dots> = card {d \<in> set ds. f d = g i}" using assms(1) by (simp add: distinct_length_filter Int_def conj_commute)
  finally show ?thesis .
qed

lemma wwr_for_Initialize:
  assumes "wwr_Initialize ws = Inr s"
  shows "wwr_for ws s"
proof -
  have lt: "weights_total ws < 2 ^ 64" using assms wwr_Initialize_ok(1) [of ws] by (metis Inl_Inr_False not_less)
  from wwr_Initialize_ok(2) [OF this] assms lt show ?thesis
    by (auto simp: wwr_for_def uniformReplacer_Initialize_def unat_of_nat)
qed

lemma wwr_Sample_spec:
  assumes "rng_returns src" and s: "wwr_for ws s"
  shows "\<exists>res s' g'. wwr_Sample src n s g = Some (res, s', g') \<and>
    (case res of None \<Rightarrow> weights_total ws < n
     | Some idx \<Rightarrow> n \<le> weights_total ws \<and> length idx = n \<and>
         (\<forall>i. count_list idx i \<le> (if i < length ws then unat (ws ! i) else 0)))"
proof -
  let ?u = "uniformReplacer_Reset (wwr_u s)" and ?w = "wwr_w s"
  note h = s [unfolded wwr_for_def]
  note ok = weightedHeap_Sample_ok [OF h [THEN conjunct2, THEN conjunct1] h [THEN conjunct2, THEN conjunct2]]
  have und: "undrawn ?u = {..<ur_length (wwr_u s)}" "shuffle_ok ?u" "card (undrawn ?u) = weights_total ws"
    using h by (simp_all add: undrawn_Initialize card_lessThan_word)
  have total: "\<exists>i. weightedHeap_Sample ?w v = Some (Some i)" if "v \<in> undrawn ?u" for v
  proof -
    have "unat v < weights_total ws" using that h by (simp add: und(1) word_less_nat_alt)
    then show ?thesis using ok(2) [of v] by (auto simp: ok(1))
  qed
  from wwr_loop_returns [OF assms(1) und(2) total] obtain res u' g' where
    r: "wwr_loop src ?w n ?u g = Some (res, u', g')" by blast
  have "case res of None \<Rightarrow> weights_total ws < n
     | Some idx \<Rightarrow> n \<le> weights_total ws \<and> length idx = n \<and>
         (\<forall>i. count_list idx i \<le> (if i < length ws then unat (ws ! i) else 0))"
  proof (cases res)
    case None
    then show ?thesis using wwr_loop_ok [OF und(2) total r] und(3) by simp
  next
    case (Some idx)
    with wwr_loop_ok [OF und(2) total r] obtain ds where ds: "length ds = n" "distinct ds" "set ds \<subseteq> undrawn ?u"
      "map (weightedHeap_Sample ?w) ds = map (\<lambda>i. Some (Some i)) idx" by auto
    have "n \<le> weights_total ws" using card_mono [OF _ ds(3)] ds(1,2) und(3) by (simp add: distinct_card)
    moreover have "length idx = n" using ds(1,4) by (metis length_map)
    moreover have "count_list idx i \<le> (if i < length ws then unat (ws ! i) else 0)" for i
    proof -
      have "{d \<in> set ds. weightedHeap_Sample ?w d = Some (Some i)} \<subseteq>
          {v. unat v < weights_total ws \<and> heap_search ?w 0 v = Some i}"
        by (auto simp: ok(1) split: if_splits)
      from card_mono [OF _ this] count_list_card [OF ds(2,4), of i] ok(3) [of i] show ?thesis by simp
    qed
    ultimately show ?thesis unfolding Some by simp
  qed
  then show ?thesis using r by (simp add: wwr_Sample_def)
qed

text \<open>A counter is a source that gives every number.\<close>

definition counter :: "64 word source" where
  "counter s = (s, s + 1)"

lemma counter_value: "source_value counter s k = s + word_of_nat k"
proof -
  have "source_state counter s k = s + word_of_nat k"
    by (induction k arbitrary: s) (simp_all add: counter_def add.assoc)
  then show ?thesis by (simp add: source_value_def counter_def)
qed

lemma counter_returns: "rng_returns counter"
  unfolding rng_returns_def
proof (intro allI)
  fix n s
  obtain k where "2 ^ 63 \<le> k * (unat n + 1)" "card {w. inclusive_value n w = Some 0} = k"
    using inclusive_value_unbiased [of n] by auto
  then have "card {w. inclusive_value n w = Some 0} \<noteq> 0" by (cases k) auto
  then obtain w where "inclusive_value n w = Some 0" by (auto simp: card_eq_0_iff)
  then have "inclusive_value n (source_value counter s (unat (w - s))) \<noteq> None" by (simp add: counter_value)
  then obtain k where "first_accepted counter n s k"
    using exists_least_iff [of "\<lambda>k. inclusive_value n (source_value counter s k) \<noteq> None"]
    by (auto simp: first_accepted_def)
  then show "Uint64Inclusive counter n s \<noteq> None" by (simp add: Uint64Inclusive_first)
qed

text \<open>C31. Uniform sampling is without replacement.  With a source that does not fail forever, a sample of \<open>n\<close> numbers ends; it succeeds exactly if the
  range has \<open>n\<close> numbers, and then gives \<open>n\<close> different numbers of the range, although only the positions that
  were touched by the shuffle are stored.\<close>

theorem uniform_without_replacement:
  assumes "rng_returns src"
  shows "\<exists>res s' g'. uniformReplacer_Sample src n s g = Some (res, s', g') \<and>
    (case res of None \<Rightarrow> unat (ur_length s) < n
     | Some rs \<Rightarrow> n \<le> unat (ur_length s) \<and> length rs = n \<and> distinct rs \<and> set rs \<subseteq> {..<ur_length s})"
proof -
  have "\<exists>res s' g'. uniformReplacer_loop src n s g = Some (res, s', g')" for s g
  proof (induction n arbitrary: s g)
    case (Suc n)
    obtain ret s1 g1 where "uniformReplacer_Next src s g = Some (ret, s1, g1)" using Next_returns [OF assms] by blast
    then show ?case using Suc [of s1 g1] by (cases ret) auto
  qed simp
  then obtain res s' g' where r: "uniformReplacer_loop src n (uniformReplacer_Reset s) g = Some (res, s', g')" by blast
  have "card {..<ur_length s} = unat (ur_length s)" by (rule card_lessThan_word)
  moreover have "n \<le> card {..<ur_length s}" if "length rs = n" "distinct rs" "set rs \<subseteq> {..<ur_length s}" for rs
    using card_mono [OF _ that(3)] that(1,2) by (simp add: distinct_card)
  ultimately have "case res of None \<Rightarrow> unat (ur_length s) < n
     | Some rs \<Rightarrow> n \<le> unat (ur_length s) \<and> length rs = n \<and> distinct rs \<and> set rs \<subseteq> {..<ur_length s}"
    using uniform_loop_ok [OF _ r] by (cases res) (auto simp: undrawn_Initialize)
  then show ?thesis using r by (simp add: uniformReplacer_Sample_def)
qed

theorem uniform_without_replacement_witness:
  "\<exists>res s' g'. uniformReplacer_Sample counter 3 (uniformReplacer_Initialize 5) 0 = Some (res, s', g') \<and>
    (case res of None \<Rightarrow> (5 :: nat) < 3
     | Some rs \<Rightarrow> length rs = 3 \<and> distinct rs \<and> set rs \<subseteq> {..<5})"
  using uniform_without_replacement [OF counter_returns, of 3 "uniformReplacer_Initialize 5" 0]
  by (simp add: uniformReplacer_Initialize_def split: option.splits) force

text \<open>C30. A weighted sample never draws an index more often than its weight.  Initialization fails exactly if the weights overflow 64 bits.  Otherwise a sample of
  \<open>n\<close> indices ends and succeeds exactly if the total weight is at least \<open>n\<close>; it then has \<open>n\<close> indices, all
  of positive weight, and each of them at most as often as its weight.  The sampler can be used again afterwards
  with the same guarantees.\<close>

theorem weighted_without_replacement:
  assumes "rng_returns src"
  shows "case wwr_Initialize ws of
    Inl err \<Rightarrow> err = ErrOverflow \<and> 2 ^ 64 \<le> weights_total ws
  | Inr s \<Rightarrow> weights_total ws < 2 ^ 64 \<and>
      (\<exists>res s' g'. wwr_Sample src n s g = Some (res, s', g') \<and> wwr_for ws s' \<and>
        (case res of None \<Rightarrow> weights_total ws < n
         | Some idx \<Rightarrow> n \<le> weights_total ws \<and> length idx = n \<and>
             (\<forall>i. count_list idx i \<le> (if i < length ws then unat (ws ! i) else 0))))"
proof (cases "2 ^ 64 \<le> weights_total ws")
  case True
  then show ?thesis by (simp add: wwr_Initialize_ok(1))
next
  case False
  then have lt: "weights_total ws < 2 ^ 64" by simp
  with wwr_Initialize_ok(2) obtain s where s: "wwr_Initialize ws = Inr s" by blast
  from wwr_Sample_spec [OF assms wwr_for_Initialize [OF s], of n g] obtain res s' g' where
    r: "wwr_Sample src n s g = Some (res, s', g')" "case res of None \<Rightarrow> weights_total ws < n
     | Some idx \<Rightarrow> n \<le> weights_total ws \<and> length idx = n \<and>
         (\<forall>i. count_list idx i \<le> (if i < length ws then unat (ws ! i) else 0))" by (elim exE conjE)
  show ?thesis unfolding s sum.case
    using lt r wwr_Sample_for [OF wwr_for_Initialize [OF s] r(1)]
    by (intro conjI exI [of _ res] exI [of _ s'] exI [of _ g'])
qed

theorem weighted_without_replacement_witness:
  "case wwr_Initialize [2, 0, 5] of
    Inl err \<Rightarrow> False
  | Inr s \<Rightarrow> (\<exists>res s' g'. wwr_Sample counter 4 s 0 = Some (res, s', g') \<and>
        (case res of None \<Rightarrow> False | Some idx \<Rightarrow> length idx = 4 \<and> count_list idx 1 = 0 \<and> count_list idx 0 \<le> 2))"
proof -
  have t: "weights_total [2, 0, 5] = 7" by (simp add: weights_total_list)
  note wit = weighted_without_replacement [OF counter_returns, of "[2, 0, 5]" 4 0, unfolded t]
  show ?thesis
  proof (cases "wwr_Initialize [2, 0, 5]")
    case (Inl err)
    with wit show ?thesis by simp
  next
    case (Inr s)
    with wit obtain res s' g' where r: "wwr_Sample counter 4 s 0 = Some (res, s', g')" "case res of None \<Rightarrow> 7 < (4 :: nat)
      | Some idx \<Rightarrow> 4 \<le> (7 :: nat) \<and> length idx = 4 \<and>
         (\<forall>i. count_list idx i \<le> (if i < length [2, 0, 5 :: 64 word] then unat ([2, 0, 5 :: 64 word] ! i) else 0))" by auto
    from r(2) obtain idx where idx: "res = Some idx" "length idx = 4"
      "\<forall>i. count_list idx i \<le> (if i < length [2, 0, 5 :: 64 word] then unat ([2, 0, 5 :: 64 word] ! i) else 0)"
      by (cases res) simp_all
    from idx(3) [THEN spec [of _ 0]] idx(3) [THEN spec [of _ 1]] have "count_list idx 0 \<le> 2" "count_list idx 1 = 0" by simp_all
    with r(1) idx(1,2) Inr show ?thesis by simp
  qed
qed

end
