(* ===== verification/Validators.thy ===== *)
theory Validators
  imports Ids Sampler
begin

text \<open>
  \<open>snow/validators/set.go\<close> and \<open>snow/validators/manager.go\<close>: the weighted validator sets of the subnets.

  A \<open>*Validator\<close> is shared by the map \<open>vdrs\<close> and the slice \<open>vdrSlice\<close>; the pointer is the node
  identifier and the object is in the map, so an update through one is seen through the other.  The \<open>big.Int\<close> total is an integer.
  Every method holds the lock of its object to the end, so the operations are atomic steps.  An operation returns an error or
  nothing, the new state, and the calls to the registered listeners in their order.  Public keys and listeners are
  opaque.  If \<open>Initialize\<close> of the sampler fails, the sampler stays uninitialized and what it then holds is never read, so the
  model keeps the old one.
\<close>

datatype vdr_error = ErrZeroWeight | ErrMissingValidators | ErrDuplicateValidator | ErrMissingValidator
  | ErrTotalWeightNotUint64 | ErrInsufficientWeight | ErrMath math_error

record 'pk Validator =
  vdr_NodeID :: NodeID
  vdr_PublicKey :: "'pk option"
  vdr_TxID :: ID
  vdr_Weight :: "64 word"
  vdr_index :: nat

record 'pk GetValidatorOutput =
  gvo_NodeID :: NodeID
  gvo_PublicKey :: "'pk option"
  gvo_Weight :: "64 word"

datatype 'pk vdr_event =
    OnValidatorAdded NodeID "'pk option" ID "64 word"
  | OnValidatorRemoved NodeID "64 word"
  | OnValidatorWeightChanged NodeID "64 word" "64 word"

datatype ('pk, 'l) vdr_call = ManagerCall 'l ID "'pk vdr_event" | SetCall 'l "'pk vdr_event"

record ('pk, 'l) vdrSet =
  vs_subnetID :: ID
  vs_vdrs :: "NodeID \<rightharpoonup> 'pk Validator"
  vs_vdrSlice :: "NodeID list"
  vs_weights :: "64 word list"
  vs_totalWeight :: int
  vs_samplerInitialized :: bool
  vs_sampler :: weightedWithoutReplacement
  vs_managerCallbackListeners :: "'l list"
  vs_setCallbackListeners :: "'l list"

type_synonym ('pk, 'l) set_result = "vdr_error option \<times> ('pk, 'l) vdrSet \<times> ('pk, 'l) vdr_call list"

definition newSet :: "ID \<Rightarrow> 'l list \<Rightarrow> ('pk, 'l) vdrSet" where
  "newSet subnetID callbackListeners =
     \<lparr>vs_subnetID = subnetID, vs_vdrs = Map.empty, vs_vdrSlice = [], vs_weights = [], vs_totalWeight = 0,
      vs_samplerInitialized = False, vs_sampler = \<lparr>wwr_u = uniformReplacer_Initialize 0, wwr_w = []\<rparr>,
      vs_managerCallbackListeners = callbackListeners, vs_setCallbackListeners = []\<rparr>"

text \<open>The three loops over the listeners, managers' first.\<close>

definition call_listeners :: "('pk, 'l) vdrSet \<Rightarrow> 'pk vdr_event \<Rightarrow> ('pk, 'l) vdr_call list" where
  "call_listeners s ev =
     map (\<lambda>l. ManagerCall l (vs_subnetID s) ev) (vs_managerCallbackListeners s) @
     map (\<lambda>l. SetCall l ev) (vs_setCallbackListeners s)"

definition callWeightChangeCallbacks ::
  "('pk, 'l) vdrSet \<Rightarrow> NodeID \<Rightarrow> 64 word \<Rightarrow> 64 word \<Rightarrow> ('pk, 'l) vdr_call list" where
  "callWeightChangeCallbacks s node oldWeight newWeight = call_listeners s (OnValidatorWeightChanged node oldWeight newWeight)"

definition callValidatorAddedCallbacks ::
  "('pk, 'l) vdrSet \<Rightarrow> NodeID \<Rightarrow> 'pk option \<Rightarrow> ID \<Rightarrow> 64 word \<Rightarrow> ('pk, 'l) vdr_call list" where
  "callValidatorAddedCallbacks s node pk txID weight = call_listeners s (OnValidatorAdded node pk txID weight)"

definition callValidatorRemovedCallbacks :: "('pk, 'l) vdrSet \<Rightarrow> NodeID \<Rightarrow> 64 word \<Rightarrow> ('pk, 'l) vdr_call list" where
  "callValidatorRemovedCallbacks s node weight = call_listeners s (OnValidatorRemoved node weight)"

definition vdrSet_Add ::
  "('pk, 'l) vdrSet \<Rightarrow> NodeID \<Rightarrow> 'pk option \<Rightarrow> ID \<Rightarrow> 64 word \<Rightarrow> ('pk, 'l) set_result" where
  "vdrSet_Add s nodeID pk txID weight =
     (if nodeID \<in> dom (vs_vdrs s) then (Some ErrDuplicateValidator, s, [])
      else
        let vdr = \<lparr>vdr_NodeID = nodeID, vdr_PublicKey = pk, vdr_TxID = txID, vdr_Weight = weight,
                   vdr_index = length (vs_vdrSlice s)\<rparr>;
            s = s\<lparr>vs_vdrs := (vs_vdrs s)(nodeID \<mapsto> vdr), vs_vdrSlice := vs_vdrSlice s @ [nodeID],
                  vs_weights := vs_weights s @ [weight], vs_totalWeight := vs_totalWeight s + uint weight,
                  vs_samplerInitialized := False\<rparr> in
        (None, s, callValidatorAddedCallbacks s nodeID pk txID weight))"

definition vdrSet_AddWeight :: "('pk, 'l) vdrSet \<Rightarrow> NodeID \<Rightarrow> 64 word \<Rightarrow> ('pk, 'l) set_result" where
  "vdrSet_AddWeight s nodeID weight =
     (case vs_vdrs s nodeID of
        None \<Rightarrow> (Some ErrMissingValidator, s, [])
      | Some vdr \<Rightarrow>
          let oldWeight = vdr_Weight vdr in
          (case math_Add oldWeight weight of
             Inl err \<Rightarrow> (Some (ErrMath err), s, [])
           | Inr newWeight \<Rightarrow>
               let s = s\<lparr>vs_vdrs := (vs_vdrs s)(nodeID \<mapsto> vdr\<lparr>vdr_Weight := newWeight\<rparr>),
                         vs_weights := (vs_weights s)[vdr_index vdr := newWeight],
                         vs_totalWeight := vs_totalWeight s + uint weight, vs_samplerInitialized := False\<rparr> in
               (None, s, callWeightChangeCallbacks s nodeID oldWeight newWeight)))"

definition vdrSet_GetWeight :: "('pk, 'l) vdrSet \<Rightarrow> NodeID \<Rightarrow> 64 word" where
  "vdrSet_GetWeight s nodeID = (case vs_vdrs s nodeID of Some vdr \<Rightarrow> vdr_Weight vdr | None \<Rightarrow> 0)"

text \<open>The loop of \<open>subsetWeight\<close> over the elements of the set, in any order.\<close>

fun subset_loop :: "('pk, 'l) vdrSet \<Rightarrow> NodeID list \<Rightarrow> 64 word \<Rightarrow> vdr_error + 64 word" where
  "subset_loop s [] totalWeight = Inr totalWeight"
| "subset_loop s (nodeID # rest) totalWeight =
     (case math_Add totalWeight (vdrSet_GetWeight s nodeID) of
        Inl err \<Rightarrow> Inl (ErrMath err)
      | Inr t \<Rightarrow> subset_loop s rest t)"

definition vdrSet_SubsetWeight :: "('pk, 'l) vdrSet \<Rightarrow> NodeID list \<Rightarrow> vdr_error + 64 word" where
  "vdrSet_SubsetWeight s nodes = subset_loop s nodes 0"

text \<open>Removing a validator: the last one takes its place.\<close>

definition drop_validator :: "('pk, 'l) vdrSet \<Rightarrow> NodeID \<Rightarrow> 'pk Validator \<Rightarrow> ('pk, 'l) vdrSet" where
  "drop_validator s nodeID vdr =
     (let lastIndex = length (vs_vdrSlice s) - 1;
          swap = vs_vdrSlice s ! lastIndex;
          vdrToSwap = the (vs_vdrs s swap) in
      s\<lparr>vs_vdrs := ((vs_vdrs s)(swap \<mapsto> vdrToSwap\<lparr>vdr_index := vdr_index vdr\<rparr>))(nodeID := None),
        vs_vdrSlice := take lastIndex ((vs_vdrSlice s)[vdr_index vdr := swap]),
        vs_weights := take lastIndex ((vs_weights s)[vdr_index vdr := vdr_Weight vdrToSwap])\<rparr>)"

definition vdrSet_RemoveWeight :: "('pk, 'l) vdrSet \<Rightarrow> NodeID \<Rightarrow> 64 word \<Rightarrow> ('pk, 'l) set_result" where
  "vdrSet_RemoveWeight s nodeID weight =
     (case vs_vdrs s nodeID of
        None \<Rightarrow> (Some ErrMissingValidator, s, [])
      | Some vdr \<Rightarrow>
          let oldWeight = vdr_Weight vdr in
          (case math_Sub oldWeight weight of
             Inl err \<Rightarrow> (Some (ErrMath err), s, [])
           | Inr newWeight \<Rightarrow>
               let (s, calls) =
                 (if newWeight = 0 then
                    let s = drop_validator s nodeID vdr in (s, callValidatorRemovedCallbacks s nodeID oldWeight)
                  else
                    let s = s\<lparr>vs_vdrs := (vs_vdrs s)(nodeID \<mapsto> vdr\<lparr>vdr_Weight := newWeight\<rparr>),
                              vs_weights := (vs_weights s)[vdr_index vdr := newWeight]\<rparr> in
                    (s, callWeightChangeCallbacks s nodeID oldWeight newWeight)) in
               (None, s\<lparr>vs_totalWeight := vs_totalWeight s - uint weight, vs_samplerInitialized := False\<rparr>, calls)))"

definition vdrSet_Get :: "('pk, 'l) vdrSet \<Rightarrow> NodeID \<Rightarrow> 'pk Validator option" where
  "vdrSet_Get s nodeID = vs_vdrs s nodeID"

definition vdrSet_Len :: "('pk, 'l) vdrSet \<Rightarrow> nat" where
  "vdrSet_Len s = length (vs_vdrSlice s)"

definition vdrSet_HasCallbackRegistered :: "('pk, 'l) vdrSet \<Rightarrow> bool" where
  "vdrSet_HasCallbackRegistered s \<longleftrightarrow> vs_setCallbackListeners s \<noteq> []"

definition vdrSet_Map :: "('pk, 'l) vdrSet \<Rightarrow> NodeID \<rightharpoonup> 'pk GetValidatorOutput" where
  "vdrSet_Map s =
     fold (\<lambda>n m. let vdr = the (vs_vdrs s n) in
             m(vdr_NodeID vdr \<mapsto> \<lparr>gvo_NodeID = vdr_NodeID vdr, gvo_PublicKey = vdr_PublicKey vdr, gvo_Weight = vdr_Weight vdr\<rparr>))
       (vs_vdrSlice s) Map.empty"

definition vdrSet_Sample ::
  "'s source \<Rightarrow> ('pk, 'l) vdrSet \<Rightarrow> nat \<Rightarrow> 's \<Rightarrow> ((vdr_error + NodeID list) \<times> ('pk, 'l) vdrSet \<times> 's) option" where
  "vdrSet_Sample src s n g =
     (case (if vs_samplerInitialized s then Inr s
            else case wwr_Initialize (vs_weights s) of
              Inl err \<Rightarrow> Inl err
            | Inr w \<Rightarrow> Inr (s\<lparr>vs_sampler := w, vs_samplerInitialized := True\<rparr>)) of
        Inl err \<Rightarrow> Some (Inl (ErrMath err), s, g)
      | Inr s \<Rightarrow> do {
          (indices, w, g') \<leftarrow> wwr_Sample src n (vs_sampler s) g;
          let s = s\<lparr>vs_sampler := w\<rparr>;
          Some (case indices of
                  None \<Rightarrow> Inl ErrInsufficientWeight
                | Some idx \<Rightarrow> Inr (map (\<lambda>i. vs_vdrSlice s ! i) idx), s, g')
        })"

definition vdrSet_TotalWeight :: "('pk, 'l) vdrSet \<Rightarrow> vdr_error + 64 word" where
  "vdrSet_TotalWeight s =
     (if 0 \<le> vs_totalWeight s \<and> vs_totalWeight s < 2 ^ 64 then Inr (word_of_int (vs_totalWeight s))
      else Inl ErrTotalWeightNotUint64)"

definition replay_added :: "('pk, 'l) vdrSet \<Rightarrow> ('pk vdr_event \<Rightarrow> ('pk, 'l) vdr_call) \<Rightarrow> ('pk, 'l) vdr_call list" where
  "replay_added s mk =
     map (\<lambda>n. let vdr = the (vs_vdrs s n) in
            mk (OnValidatorAdded (vdr_NodeID vdr) (vdr_PublicKey vdr) (vdr_TxID vdr) (vdr_Weight vdr))) (vs_vdrSlice s)"

definition vdrSet_RegisterManagerCallbackListener ::
  "('pk, 'l) vdrSet \<Rightarrow> 'l \<Rightarrow> ('pk, 'l) vdrSet \<times> ('pk, 'l) vdr_call list" where
  "vdrSet_RegisterManagerCallbackListener s l =
     (s\<lparr>vs_managerCallbackListeners := vs_managerCallbackListeners s @ [l]\<rparr>, replay_added s (ManagerCall l (vs_subnetID s)))"

definition vdrSet_RegisterCallbackListener ::
  "('pk, 'l) vdrSet \<Rightarrow> 'l \<Rightarrow> ('pk, 'l) vdrSet \<times> ('pk, 'l) vdr_call list" where
  "vdrSet_RegisterCallbackListener s l =
     (s\<lparr>vs_setCallbackListeners := vs_setCallbackListeners s @ [l]\<rparr>, replay_added s (SetCall l))"

definition vdrSet_GetValidatorIDs :: "('pk, 'l) vdrSet \<Rightarrow> NodeID list" where
  "vdrSet_GetValidatorIDs s = map (\<lambda>n. vdr_NodeID (the (vs_vdrs s n))) (vs_vdrSlice s)"

section \<open>The manager\<close>

record ('pk, 'l) manager =
  mg_subnetToVdrs :: "ID \<rightharpoonup> ('pk, 'l) vdrSet"
  mg_callbackListeners :: "'l list"

type_synonym ('pk, 'l) manager_result = "vdr_error option \<times> ('pk, 'l) manager \<times> ('pk, 'l) vdr_call list"

definition NewManager :: "('pk, 'l) manager" where
  "NewManager = \<lparr>mg_subnetToVdrs = Map.empty, mg_callbackListeners = []\<rparr>"

text \<open>Look a set up and create it if it is missing; both callers store it in the map.\<close>

definition set_or_new :: "('pk, 'l) manager \<Rightarrow> ID \<Rightarrow> ('pk, 'l) vdrSet" where
  "set_or_new m subnetID =
     (case mg_subnetToVdrs m subnetID of Some s \<Rightarrow> s | None \<Rightarrow> newSet subnetID (mg_callbackListeners m))"

definition store_set :: "('pk, 'l) manager \<Rightarrow> ID \<Rightarrow> ('pk, 'l) vdrSet \<Rightarrow> ('pk, 'l) manager" where
  "store_set m subnetID s = m\<lparr>mg_subnetToVdrs := (mg_subnetToVdrs m)(subnetID \<mapsto> s)\<rparr>"

definition manager_AddStaker ::
  "('pk, 'l) manager \<Rightarrow> ID \<Rightarrow> NodeID \<Rightarrow> 'pk option \<Rightarrow> ID \<Rightarrow> 64 word \<Rightarrow> ('pk, 'l) manager_result" where
  "manager_AddStaker m subnetID nodeID pk txID weight =
     (if weight = 0 then (Some ErrZeroWeight, m, [])
      else
        let (err, s, calls) = vdrSet_Add (set_or_new m subnetID) nodeID pk txID weight in
        (err, store_set m subnetID s, calls))"

definition manager_AddWeight :: "('pk, 'l) manager \<Rightarrow> ID \<Rightarrow> NodeID \<Rightarrow> 64 word \<Rightarrow> ('pk, 'l) manager_result" where
  "manager_AddWeight m subnetID nodeID weight =
     (if weight = 0 then (Some ErrZeroWeight, m, [])
      else case mg_subnetToVdrs m subnetID of
        None \<Rightarrow> (Some ErrMissingValidator, m, [])
      | Some s \<Rightarrow>
          let (err, s, calls) = vdrSet_AddWeight s nodeID weight in (err, store_set m subnetID s, calls))"

definition manager_GetWeight :: "('pk, 'l) manager \<Rightarrow> ID \<Rightarrow> NodeID \<Rightarrow> 64 word" where
  "manager_GetWeight m subnetID nodeID =
     (case mg_subnetToVdrs m subnetID of None \<Rightarrow> 0 | Some s \<Rightarrow> vdrSet_GetWeight s nodeID)"

definition manager_GetValidator :: "('pk, 'l) manager \<Rightarrow> ID \<Rightarrow> NodeID \<Rightarrow> 'pk Validator option" where
  "manager_GetValidator m subnetID nodeID =
     (case mg_subnetToVdrs m subnetID of None \<Rightarrow> None | Some s \<Rightarrow> vdrSet_Get s nodeID)"

definition manager_SubsetWeight :: "('pk, 'l) manager \<Rightarrow> ID \<Rightarrow> NodeID list \<Rightarrow> vdr_error + 64 word" where
  "manager_SubsetWeight m subnetID validatorIDs =
     (case mg_subnetToVdrs m subnetID of None \<Rightarrow> Inr 0 | Some s \<Rightarrow> vdrSet_SubsetWeight s validatorIDs)"

definition manager_RemoveWeight :: "('pk, 'l) manager \<Rightarrow> ID \<Rightarrow> NodeID \<Rightarrow> 64 word \<Rightarrow> ('pk, 'l) manager_result" where
  "manager_RemoveWeight m subnetID nodeID weight =
     (if weight = 0 then (Some ErrZeroWeight, m, [])
      else case mg_subnetToVdrs m subnetID of
        None \<Rightarrow> (Some ErrMissingValidator, m, [])
      | Some s \<Rightarrow>
          let (err, s, calls) = vdrSet_RemoveWeight s nodeID weight; m' = store_set m subnetID s in
          if err \<noteq> None then (err, m', calls)
          else if vdrSet_Len s = 0 \<and> \<not> vdrSet_HasCallbackRegistered s
          then (None, m\<lparr>mg_subnetToVdrs := (mg_subnetToVdrs m)(subnetID := None)\<rparr>, calls)
          else (None, m', calls))"

definition manager_NumSubnets :: "('pk, 'l) manager \<Rightarrow> nat" where
  "manager_NumSubnets m = card (dom (mg_subnetToVdrs m))"

definition manager_NumValidators :: "('pk, 'l) manager \<Rightarrow> ID \<Rightarrow> nat" where
  "manager_NumValidators m subnetID =
     (case mg_subnetToVdrs m subnetID of None \<Rightarrow> 0 | Some s \<Rightarrow> vdrSet_Len s)"

definition manager_TotalWeight :: "('pk, 'l) manager \<Rightarrow> ID \<Rightarrow> vdr_error + 64 word" where
  "manager_TotalWeight m subnetID =
     (case mg_subnetToVdrs m subnetID of None \<Rightarrow> Inr 0 | Some s \<Rightarrow> vdrSet_TotalWeight s)"

definition manager_Sample ::
  "'s source \<Rightarrow> ('pk, 'l) manager \<Rightarrow> ID \<Rightarrow> nat \<Rightarrow> 's \<Rightarrow>
     ((vdr_error + NodeID list) \<times> ('pk, 'l) manager \<times> 's) option" where
  "manager_Sample src m subnetID n g =
     (if n = 0 then Some (Inr [], m, g)
      else case mg_subnetToVdrs m subnetID of
        None \<Rightarrow> Some (Inl ErrMissingValidators, m, g)
      | Some s \<Rightarrow> do {
          (res, s', g') \<leftarrow> vdrSet_Sample src s n g;
          Some (res, store_set m subnetID s', g')
        })"

definition manager_GetMap :: "('pk, 'l) manager \<Rightarrow> ID \<Rightarrow> NodeID \<rightharpoonup> 'pk GetValidatorOutput" where
  "manager_GetMap m subnetID =
     (case mg_subnetToVdrs m subnetID of None \<Rightarrow> Map.empty | Some s \<Rightarrow> vdrSet_Map s)"

definition manager_GetAllMaps :: "('pk, 'l) manager \<Rightarrow> ID \<rightharpoonup> (NodeID \<rightharpoonup> 'pk GetValidatorOutput)" where
  "manager_GetAllMaps m = (\<lambda>subnetID. map_option vdrSet_Map (mg_subnetToVdrs m subnetID))"

text \<open>The loop over the sets visits them in the order \<open>subnets\<close>, an enumeration of the keys.\<close>

fun register_all ::
  "'l \<Rightarrow> ID list \<Rightarrow> (ID \<rightharpoonup> ('pk, 'l) vdrSet) \<Rightarrow> (ID \<rightharpoonup> ('pk, 'l) vdrSet) \<times> ('pk, 'l) vdr_call list" where
  "register_all l [] sets = (sets, [])"
| "register_all l (k # rest) sets =
     (let (s, calls) = vdrSet_RegisterManagerCallbackListener (the (sets k)) l;
          (sets', calls') = register_all l rest (sets(k \<mapsto> s)) in
      (sets', calls @ calls'))"

definition manager_RegisterCallbackListener ::
  "ID list \<Rightarrow> ('pk, 'l) manager \<Rightarrow> 'l \<Rightarrow> ('pk, 'l) manager \<times> ('pk, 'l) vdr_call list" where
  "manager_RegisterCallbackListener subnets m l =
     (let m = m\<lparr>mg_callbackListeners := mg_callbackListeners m @ [l]\<rparr>;
          (sets, calls) = register_all l subnets (mg_subnetToVdrs m) in
      (m\<lparr>mg_subnetToVdrs := sets\<rparr>, calls))"

definition manager_RegisterSetCallbackListener ::
  "('pk, 'l) manager \<Rightarrow> ID \<Rightarrow> 'l \<Rightarrow> ('pk, 'l) manager \<times> ('pk, 'l) vdr_call list" where
  "manager_RegisterSetCallbackListener m subnetID l =
     (let (s, calls) = vdrSet_RegisterCallbackListener (set_or_new m subnetID) l in
      (store_set m subnetID s, calls))"

definition manager_GetValidatorIDs :: "('pk, 'l) manager \<Rightarrow> ID \<Rightarrow> NodeID list" where
  "manager_GetValidatorIDs m subnetID =
     (case mg_subnetToVdrs m subnetID of None \<Rightarrow> [] | Some s \<Rightarrow> vdrSet_GetValidatorIDs s)"

end
