(* ===== verification/Validator_Props.thy ===== *)
theory Validator_Props
  imports Validators
begin

text \<open>
  Properties of the validator sets: the redundant representation (map, slice, weights, total, sampler) stays
  consistent, the operations are exactly updates of a map from nodes to weights, and a listener that applies the
  events it is called with always holds the same map.
\<close>

section \<open>The invariant\<close>

definition entry_ok :: "('pk, 'l) vdrSet \<Rightarrow> nat \<Rightarrow> bool" where
  "entry_ok s i \<longleftrightarrow> (\<exists>v. vs_vdrs s (vs_vdrSlice s ! i) = Some v \<and> vdr_index v = i \<and>
     vdr_NodeID v = vs_vdrSlice s ! i \<and> vs_weights s ! i = vdr_Weight v \<and> vdr_Weight v \<noteq> 0)"

definition vset_ok :: "('pk, 'l) vdrSet \<Rightarrow> bool" where
  "vset_ok s \<longleftrightarrow> distinct (vs_vdrSlice s) \<and> length (vs_weights s) = length (vs_vdrSlice s) \<and>
     dom (vs_vdrs s) = set (vs_vdrSlice s) \<and> (\<forall>i < length (vs_vdrSlice s). entry_ok s i) \<and>
     vs_totalWeight s = sum_list (map uint (vs_weights s)) \<and>
     (vs_samplerInitialized s \<longrightarrow> wwr_for (vs_weights s) (vs_sampler s))"

text \<open>What a set holds: the key, the transaction and the weight of each node.\<close>

type_synonym 'pk vdr_view = "NodeID \<rightharpoonup> 'pk option \<times> ID \<times> 64 word"

definition set_view :: "('pk, 'l) vdrSet \<Rightarrow> 'pk vdr_view" where
  "set_view s n = map_option (\<lambda>v. (vdr_PublicKey v, vdr_TxID v, vdr_Weight v)) (vs_vdrs s n)"

lemma vset_okD:
  assumes "vset_ok s"
  shows "distinct (vs_vdrSlice s)" "length (vs_weights s) = length (vs_vdrSlice s)" "dom (vs_vdrs s) = set (vs_vdrSlice s)"
    "i < length (vs_vdrSlice s) \<Longrightarrow> entry_ok s i" "vs_totalWeight s = sum_list (map uint (vs_weights s))"
    "vs_samplerInitialized s \<Longrightarrow> wwr_for (vs_weights s) (vs_sampler s)"
  using assms by (auto simp: vset_ok_def)

lemma vset_lookup:
  assumes ok: "vset_ok s" and n: "vs_vdrs s n = Some v"
  shows "vdr_index v < length (vs_vdrSlice s)" "vs_vdrSlice s ! vdr_index v = n" "vdr_NodeID v = n"
    "vs_weights s ! vdr_index v = vdr_Weight v" "vdr_Weight v \<noteq> 0"
proof -
  have "n \<in> set (vs_vdrSlice s)" using vset_okD(3) [OF ok] n by auto
  then obtain i where i: "i < length (vs_vdrSlice s)" "vs_vdrSlice s ! i = n" by (auto simp: in_set_conv_nth)
  from vset_okD(4) [OF ok i(1)] n i show "vdr_index v < length (vs_vdrSlice s)" "vs_vdrSlice s ! vdr_index v = n"
    "vdr_NodeID v = n" "vs_weights s ! vdr_index v = vdr_Weight v" "vdr_Weight v \<noteq> 0"
    by (auto simp: entry_ok_def)
qed

lemma vset_ok_new: "vset_ok (newSet k ls)"
  by (simp add: vset_ok_def newSet_def)

lemma sum_list_uint_update:
  "i < length ws \<Longrightarrow> sum_list (map uint (ws[i := w])) = sum_list (map uint ws) - uint (ws ! i) + uint w"
  by (induction ws arbitrary: i) (auto split: nat.split)

lemma vdrSet_Add_ok:
  assumes ok: "vset_ok s" and n: "vs_vdrs s n = None" and w: "w \<noteq> 0"
  shows "\<exists>s' calls. vdrSet_Add s n pk tx w = (None, s', calls) \<and> vset_ok s' \<and> set_view s' = (set_view s)(n \<mapsto> (pk, tx, w)) \<and>
    calls = call_listeners s (OnValidatorAdded n pk tx w) \<and> vs_subnetID s' = vs_subnetID s \<and>
    vs_managerCallbackListeners s' = vs_managerCallbackListeners s \<and> vs_setCallbackListeners s' = vs_setCallbackListeners s"
proof -
  have new: "n \<notin> set (vs_vdrSlice s)" using vset_okD(3) [OF ok] n by auto
  let ?l = "length (vs_vdrSlice s)"
  let ?v = "\<lparr>vdr_NodeID = n, vdr_PublicKey = pk, vdr_TxID = tx, vdr_Weight = w, vdr_index = ?l\<rparr>"
  let ?s = "s\<lparr>vs_vdrs := (vs_vdrs s)(n \<mapsto> ?v), vs_vdrSlice := vs_vdrSlice s @ [n], vs_weights := vs_weights s @ [w],
    vs_totalWeight := vs_totalWeight s + uint w, vs_samplerInitialized := False\<rparr>"
  have "entry_ok ?s i" if "i < Suc ?l" for i
  proof (cases "i < ?l")
    case True
    then have "vs_vdrSlice s ! i \<noteq> n" using new by (metis nth_mem)
    with vset_okD(4) [OF ok True] vset_okD(2) [OF ok] True show ?thesis by (auto simp: entry_ok_def nth_append)
  next
    case False
    then have "i = ?l" using that by simp
    then show ?thesis using w vset_okD(2) [OF ok] by (simp add: entry_ok_def nth_append)
  qed
  then have "vset_ok ?s" using ok new by (auto simp: vset_ok_def)
  moreover have "set_view ?s = (set_view s)(n \<mapsto> (pk, tx, w))" by (auto simp: set_view_def fun_eq_iff)
  ultimately show ?thesis using n
    by (simp add: vdrSet_Add_def Let_def domIff callValidatorAddedCallbacks_def call_listeners_def)
qed

text \<open>Changing the weight of a validator in place, common to adding and removing weight.\<close>

lemma set_weight_ok:
  fixes s :: "('pk, 'l) vdrSet"
  defines "s' \<equiv> \<lambda>n v w t. s\<lparr>vs_vdrs := (vs_vdrs s)(n \<mapsto> v\<lparr>vdr_Weight := w\<rparr>),
    vs_weights := (vs_weights s)[vdr_index v := w], vs_totalWeight := t, vs_samplerInitialized := False\<rparr>"
  assumes ok: "vset_ok s" and n: "vs_vdrs s n = Some v" and w: "w \<noteq> 0"
    and t: "t = vs_totalWeight s - uint (vdr_Weight v) + uint w"
  shows "vset_ok (s' n v w t)" "set_view (s' n v w t) = (set_view s)(n \<mapsto> (vdr_PublicKey v, vdr_TxID v, w))"
proof -
  note v = vset_lookup [OF ok n]
  have "entry_ok (s' n v w t) i" if "i < length (vs_vdrSlice s)" for i
  proof (cases "i = vdr_index v")
    case True
    then show ?thesis using v w vset_okD(2) [OF ok] by (simp add: entry_ok_def s'_def)
  next
    case False
    then have "vs_vdrSlice s ! i \<noteq> n" using v(1,2) that vset_okD(1) [OF ok] by (metis nth_eq_iff_index_eq)
    with vset_okD(4) [OF ok that] False show ?thesis by (auto simp: entry_ok_def s'_def)
  qed
  then show "vset_ok (s' n v w t)" using ok v n t
    by (auto simp: vset_ok_def s'_def sum_list_uint_update)
  show "set_view (s' n v w t) = (set_view s)(n \<mapsto> (vdr_PublicKey v, vdr_TxID v, w))"
    by (auto simp: set_view_def fun_eq_iff s'_def)
qed

text \<open>Removing an element of a list by moving the last one to its place.\<close>

definition swap_remove :: "'a list \<Rightarrow> nat \<Rightarrow> 'a list" where
  "swap_remove xs i = take (length xs - 1) (xs[i := xs ! (length xs - 1)])"

lemma swap_remove_nth:
  "i < length xs \<Longrightarrow> j < length xs - 1 \<Longrightarrow> swap_remove xs i ! j = (if j = i then xs ! (length xs - 1) else xs ! j)"
  by (simp add: swap_remove_def)

lemma length_swap_remove [simp]: "length (swap_remove xs i) = length xs - 1"
  by (simp add: swap_remove_def)

lemma mset_swap_remove:
  assumes "i < length xs"
  shows "add_mset (xs ! i) (mset (swap_remove xs i)) = mset xs"
proof -
  obtain ys y where xs: "xs = ys @ [y]" using assms by (cases xs rule: rev_cases) auto
  show ?thesis
  proof (cases "i = length ys")
    case True
    then show ?thesis by (simp add: swap_remove_def xs)
  next
    case False
    then have i: "i < length ys" using assms xs by simp
    have "swap_remove xs i = ys[i := y]" using i by (simp add: swap_remove_def xs list_update_append)
    then show ?thesis using i by (simp add: xs nth_append mset_update)
  qed
qed

lemma distinct_swap_remove:
  assumes "i < length xs" "distinct xs"
  shows "distinct (swap_remove xs i)" "set (swap_remove xs i) = set xs - {xs ! i}"
proof -
  have m: "mset xs = add_mset (xs ! i) (mset (swap_remove xs i))" using mset_swap_remove [OF assms(1)] by simp
  have "distinct (xs ! i # swap_remove xs i)" using assms(2) by (rule mset_eq_imp_distinct_iff [THEN iffD1, rotated]) (simp add: m)
  moreover have "set xs = insert (xs ! i) (set (swap_remove xs i))" using arg_cong [OF m, of set_mset] by simp
  ultimately show "distinct (swap_remove xs i)" "set (swap_remove xs i) = set xs - {xs ! i}" by auto
qed

lemma drop_validator_ok:
  fixes s :: "('pk, 'l) vdrSet"
  defines "s' \<equiv> \<lambda>n v. drop_validator s n v\<lparr>vs_totalWeight := vs_totalWeight s - uint (vdr_Weight v), vs_samplerInitialized := False\<rparr>"
  assumes ok: "vset_ok s" and n: "vs_vdrs s n = Some v"
  shows "vset_ok (s' n v)" "set_view (s' n v) = (set_view s)(n := None)"
proof -
  let ?xs = "vs_vdrSlice s" and ?i = "vdr_index v"
  let ?last = "length ?xs - 1"
  note v = vset_lookup [OF ok n]
  have last: "?last < length ?xs" using v(1) by simp
  obtain z where z: "vs_vdrs s (?xs ! ?last) = Some z" "vs_weights s ! ?last = vdr_Weight z" "vdr_NodeID z = ?xs ! ?last" "vdr_Weight z \<noteq> 0"
    using vset_okD(4) [OF ok last] by (auto simp: entry_ok_def)
  have fields: "vs_vdrSlice (s' n v) = swap_remove ?xs ?i" "vs_weights (s' n v) = swap_remove (vs_weights s) ?i"
    "vs_vdrs (s' n v) = ((vs_vdrs s)(?xs ! ?last \<mapsto> z\<lparr>vdr_index := ?i\<rparr>))(n := None)"
    "vs_totalWeight (s' n v) = vs_totalWeight s - uint (vdr_Weight v)" "\<not> vs_samplerInitialized (s' n v)"
    using z(1,2) vset_okD(2) [OF ok] by (simp_all add: s'_def drop_validator_def Let_def swap_remove_def)
  note dist = distinct_swap_remove [OF v(1) vset_okD(1) [OF ok]]
  have "entry_ok (s' n v) j" if j: "j < ?last" for j
  proof (cases "j = ?i")
    case True
    then have "?xs ! ?last \<noteq> n" using v(1,2) last j vset_okD(1) [OF ok] nth_eq_iff_index_eq [of ?xs ?last ?i] by auto
    then show ?thesis using True j v(1) vset_okD(2) [OF ok] z by (simp add: entry_ok_def fields swap_remove_nth)
  next
    case False
    then have "?xs ! j \<noteq> n" "?xs ! j \<noteq> ?xs ! ?last"
      using v(1,2) last j vset_okD(1) [OF ok] nth_eq_iff_index_eq [of ?xs j ?last] nth_eq_iff_index_eq [of ?xs j ?i] by auto
    moreover have "entry_ok s j" using vset_okD(4) [OF ok] j by simp
    ultimately show ?thesis using False j v(1) vset_okD(2) [OF ok]
      by (auto simp: entry_ok_def fields swap_remove_nth)
  qed
  moreover have "dom (vs_vdrs (s' n v)) = set (vs_vdrSlice (s' n v))"
  proof -
    have "?xs ! ?last \<in> dom (vs_vdrs s)" using z(1) by auto
    then show ?thesis unfolding fields dist(2) v(2) using vset_okD(3) [OF ok] by auto
  qed
  moreover have "sum_list (map uint (swap_remove (vs_weights s) ?i)) = sum_list (map uint (vs_weights s)) - uint (vdr_Weight v)"
  proof -
    have "?i < length (vs_weights s)" using v(1) vset_okD(2) [OF ok] by simp
    from arg_cong [OF mset_swap_remove [OF this], of "\<lambda>M. sum_mset (image_mset uint M)"] v(4)
    show ?thesis by (simp add: sum_mset_sum_list [symmetric])
  qed
  ultimately show "vset_ok (s' n v)"
    using dist vset_okD(2,5) [OF ok] by (simp add: vset_ok_def fields)
  show "set_view (s' n v) = (set_view s)(n := None)"
    using z(1) by (auto simp: set_view_def fun_eq_iff fields)
qed

section \<open>The operations on a set\<close>

definition same_listeners :: "('pk, 'l) vdrSet \<Rightarrow> ('pk, 'l) vdrSet \<Rightarrow> bool" where
  "same_listeners s s' \<longleftrightarrow> vs_subnetID s' = vs_subnetID s \<and>
     vs_managerCallbackListeners s' = vs_managerCallbackListeners s \<and> vs_setCallbackListeners s' = vs_setCallbackListeners s"

text \<open>The effect of an operation on what the set holds: an error and nothing else, or one event and its effect.\<close>

fun apply_event :: "'pk vdr_event \<Rightarrow> 'pk vdr_view \<Rightarrow> 'pk vdr_view" where
  "apply_event (OnValidatorAdded n pk tx w) V = V(n \<mapsto> (pk, tx, w))"
| "apply_event (OnValidatorRemoved n w) V = V(n := None)"
| "apply_event (OnValidatorWeightChanged n old new) V = V(n := map_option (\<lambda>(pk, tx, _). (pk, tx, new)) (V n))"

definition set_effect :: "('pk, 'l) vdrSet \<Rightarrow> ('pk, 'l) set_result \<Rightarrow> vdr_error + 'pk vdr_event \<Rightarrow> bool" where
  "set_effect s r eff \<longleftrightarrow>
     (case eff of
        Inl err \<Rightarrow> r = (Some err, s, [])
      | Inr ev \<Rightarrow> \<exists>s'. r = (None, s', call_listeners s ev) \<and> vset_ok s' \<and> set_view s' = apply_event ev (set_view s) \<and>
          same_listeners s s')"

definition add_effect :: "'pk vdr_view \<Rightarrow> NodeID \<Rightarrow> 'pk option \<Rightarrow> ID \<Rightarrow> 64 word \<Rightarrow> vdr_error + 'pk vdr_event" where
  "add_effect V n pk tx w = (if n \<in> dom V then Inl ErrDuplicateValidator else Inr (OnValidatorAdded n pk tx w))"

definition add_weight_effect :: "'pk vdr_view \<Rightarrow> NodeID \<Rightarrow> 64 word \<Rightarrow> vdr_error + 'pk vdr_event" where
  "add_weight_effect V n w =
     (case V n of
        None \<Rightarrow> Inl ErrMissingValidator
      | Some (pk, tx, old) \<Rightarrow>
          if unat old + unat w < 2 ^ 64 then Inr (OnValidatorWeightChanged n old (old + w)) else Inl (ErrMath ErrOverflow))"

definition remove_weight_effect :: "'pk vdr_view \<Rightarrow> NodeID \<Rightarrow> 64 word \<Rightarrow> vdr_error + 'pk vdr_event" where
  "remove_weight_effect V n w =
     (case V n of
        None \<Rightarrow> Inl ErrMissingValidator
      | Some (pk, tx, old) \<Rightarrow>
          if old < w then Inl (ErrMath ErrUnderflow)
          else if old = w then Inr (OnValidatorRemoved n old)
          else Inr (OnValidatorWeightChanged n old (old - w)))"

lemma vdrSet_Add_effect:
  assumes "vset_ok s" "w \<noteq> 0"
  shows "set_effect s (vdrSet_Add s n pk tx w) (add_effect (set_view s) n pk tx w)"
proof (cases "vs_vdrs s n")
  case None
  then have "n \<notin> dom (set_view s)" by (simp add: set_view_def domIff)
  with vdrSet_Add_ok [OF assms(1) None assms(2), of pk tx] show ?thesis
    by (auto simp: set_effect_def add_effect_def same_listeners_def)
next
  case (Some v)
  then show ?thesis by (auto simp: set_effect_def add_effect_def vdrSet_Add_def set_view_def)
qed

lemma uint_add_fits: "unat a + unat b < 2 ^ 64 \<Longrightarrow> uint (a + b) = uint a + uint b" for a b :: "64 word"
proof -
  assume fits: "unat a + unat b < 2 ^ 64"
  have int: "uint x = int (unat x)" for x :: "64 word" by simp
  have "unat (a + b) = unat a + unat b" using fits by (simp add: unat_word_ariths)
  then show ?thesis unfolding int by simp
qed

lemma vdrSet_AddWeight_effect:
  assumes ok: "vset_ok s" and w: "w \<noteq> 0"
  shows "set_effect s (vdrSet_AddWeight s n w) (add_weight_effect (set_view s) n w)"
proof (cases "vs_vdrs s n")
  case None
  then show ?thesis by (simp add: set_effect_def add_weight_effect_def vdrSet_AddWeight_def set_view_def)
next
  case (Some v)
  show ?thesis
  proof (cases "unat (vdr_Weight v) + unat w < 2 ^ 64")
    case True
    have nz: "vdr_Weight v + w \<noteq> 0"
    proof
      assume "vdr_Weight v + w = 0"
      then have "uint (vdr_Weight v) + uint w = 0" using uint_add_fits [OF True] by simp
      then show False using w by (metis add_nonneg_eq_0_iff uint_0_iff uint_ge_0)
    qed
    have "vs_totalWeight s + uint w = vs_totalWeight s - uint (vdr_Weight v) + uint (vdr_Weight v + w)"
      using uint_add_fits [OF True] by simp
    note sw = set_weight_ok [OF ok Some nz this]
    have "math_Add (vdr_Weight v) w = Inr (vdr_Weight v + w)" using True by (simp add: math_Add_def math_Add_guard)
    then show ?thesis using sw Some True
      by (auto simp: set_effect_def add_weight_effect_def vdrSet_AddWeight_def set_view_def [of s] Let_def
          callWeightChangeCallbacks_def call_listeners_def same_listeners_def)
  next
    case False
    then show ?thesis using Some
      by (simp add: set_effect_def add_weight_effect_def vdrSet_AddWeight_def set_view_def math_Add_def math_Add_guard)
  qed
qed

lemma vdrSet_RemoveWeight_effect:
  assumes ok: "vset_ok s" and w: "w \<noteq> 0"
  shows "set_effect s (vdrSet_RemoveWeight s n w) (remove_weight_effect (set_view s) n w)"
proof (cases "vs_vdrs s n")
  case None
  then show ?thesis by (simp add: set_effect_def remove_weight_effect_def vdrSet_RemoveWeight_def set_view_def)
next
  case (Some v)
  consider "vdr_Weight v < w" | "vdr_Weight v = w" | "\<not> vdr_Weight v < w" "vdr_Weight v \<noteq> w" by blast
  then show ?thesis
  proof cases
    case 1
    then show ?thesis using Some
      by (simp add: set_effect_def remove_weight_effect_def vdrSet_RemoveWeight_def set_view_def math_Sub_def)
  next
    case 2
    then show ?thesis using Some drop_validator_ok [OF ok Some]
      by (auto simp: set_effect_def remove_weight_effect_def vdrSet_RemoveWeight_def set_view_def [of s] Let_def math_Sub_def
          callValidatorRemovedCallbacks_def call_listeners_def same_listeners_def drop_validator_def)
  next
    case 3
    then have nz: "vdr_Weight v - w \<noteq> 0" by simp
    have "uint (vdr_Weight v - w) = uint (vdr_Weight v) - uint w" using 3(1) by (simp add: uint_sub_if' word_less_def)
    then have "vs_totalWeight s - uint w = vs_totalWeight s - uint (vdr_Weight v) + uint (vdr_Weight v - w)" by simp
    from set_weight_ok [OF ok Some nz this] show ?thesis using Some 3
      by (auto simp: set_effect_def remove_weight_effect_def vdrSet_RemoveWeight_def set_view_def [of s] Let_def math_Sub_def
          callWeightChangeCallbacks_def call_listeners_def same_listeners_def)
  qed
qed

section \<open>The manager\<close>

definition manager_view :: "('pk, 'l) manager \<Rightarrow> ID \<Rightarrow> 'pk vdr_view" where
  "manager_view m k = (case mg_subnetToVdrs m k of None \<Rightarrow> Map.empty | Some s \<Rightarrow> set_view s)"

definition manager_ok :: "('pk, 'l) manager \<Rightarrow> bool" where
  "manager_ok m \<longleftrightarrow> (\<forall>k s. mg_subnetToVdrs m k = Some s \<longrightarrow> vset_ok s \<and> vs_subnetID s = k \<and>
     vs_managerCallbackListeners s = mg_callbackListeners m \<and> (vs_vdrSlice s = [] \<longrightarrow> vs_setCallbackListeners s \<noteq> []))"

datatype ('pk, 'l) manager_op =
    AddStakerOp ID NodeID "'pk option" ID "64 word"
  | AddWeightOp ID NodeID "64 word"
  | RemoveWeightOp ID NodeID "64 word"
  | ListenOp "ID list" 'l
  | ListenSetOp ID 'l

fun manager_step :: "('pk, 'l) manager_op \<Rightarrow> ('pk, 'l) manager \<Rightarrow> ('pk, 'l) manager_result" where
  "manager_step (AddStakerOp k n pk tx w) m = manager_AddStaker m k n pk tx w"
| "manager_step (AddWeightOp k n w) m = manager_AddWeight m k n w"
| "manager_step (RemoveWeightOp k n w) m = manager_RemoveWeight m k n w"
| "manager_step (ListenOp ks l) m = (let (m', calls) = manager_RegisterCallbackListener ks m l in (None, m', calls))"
| "manager_step (ListenSetOp k l) m = (let (m', calls) = manager_RegisterSetCallbackListener m k l in (None, m', calls))"

text \<open>The enumeration of the subnets by the loop of \<open>RegisterCallbackListener\<close>.\<close>

fun op_fits :: "('pk, 'l) manager_op \<Rightarrow> ('pk, 'l) manager \<Rightarrow> bool" where
  "op_fits (ListenOp ks l) m \<longleftrightarrow> distinct ks \<and> set ks = dom (mg_subnetToVdrs m)"
| "op_fits _ m \<longleftrightarrow> True"

text \<open>The specification: a map per subnet; an operation gives an error and no change, or an event.\<close>

definition nonzero :: "64 word \<Rightarrow> vdr_error + 'pk vdr_event \<Rightarrow> vdr_error + 'pk vdr_event" where
  "nonzero w eff = (if w = 0 then Inl ErrZeroWeight else eff)"

fun op_effect :: "('pk, 'l) manager_op \<Rightarrow> (ID \<Rightarrow> 'pk vdr_view) \<Rightarrow> (vdr_error + ID \<times> 'pk vdr_event) option" where
  "op_effect (AddStakerOp k n pk tx w) V = Some (map_sum id (Pair k) (nonzero w (add_effect (V k) n pk tx w)))"
| "op_effect (AddWeightOp k n w) V = Some (map_sum id (Pair k) (nonzero w (add_weight_effect (V k) n w)))"
| "op_effect (RemoveWeightOp k n w) V = Some (map_sum id (Pair k) (nonzero w (remove_weight_effect (V k) n w)))"
| "op_effect (ListenOp ks l) V = None"
| "op_effect (ListenSetOp k l) V = None"

definition apply_effect :: "(vdr_error + ID \<times> 'pk vdr_event) option \<Rightarrow> (ID \<Rightarrow> 'pk vdr_view) \<Rightarrow> vdr_error option \<times> (ID \<Rightarrow> 'pk vdr_view)" where
  "apply_effect eff V =
     (case eff of
        None \<Rightarrow> (None, V)
      | Some (Inl err) \<Rightarrow> (Some err, V)
      | Some (Inr (k, ev)) \<Rightarrow> (None, V(k := apply_event ev (V k))))"

lemma manager_okD:
  assumes "manager_ok m" "mg_subnetToVdrs m k = Some s"
  shows "vset_ok s" "vs_subnetID s = k" "vs_managerCallbackListeners s = mg_callbackListeners m"
    "vs_vdrSlice s = [] \<Longrightarrow> vs_setCallbackListeners s \<noteq> []"
  using assms by (auto simp: manager_ok_def)

lemma set_view_empty_iff: "vset_ok s \<Longrightarrow> vs_vdrSlice s = [] \<longleftrightarrow> set_view s = Map.empty"
proof -
  have "set_view s = Map.empty \<longleftrightarrow> dom (vs_vdrs s) = {}" by (auto simp: set_view_def fun_eq_iff)
  then show "vset_ok s \<Longrightarrow> vs_vdrSlice s = [] \<longleftrightarrow> set_view s = Map.empty" by (simp add: vset_okD(3))
qed

lemma manager_ok_store:
  assumes "manager_ok m" "vset_ok s'" "vs_subnetID s' = k" "vs_managerCallbackListeners s' = mg_callbackListeners m"
    "vs_vdrSlice s' = [] \<longrightarrow> vs_setCallbackListeners s' \<noteq> []"
  shows "manager_ok (store_set m k s')" "manager_view (store_set m k s') = (manager_view m)(k := set_view s')"
  using assms by (auto simp: manager_ok_def store_set_def manager_view_def fun_eq_iff)

lemma set_or_new_ok:
  assumes "manager_ok m"
  shows "vset_ok (set_or_new m k)" "vs_subnetID (set_or_new m k) = k"
    "vs_managerCallbackListeners (set_or_new m k) = mg_callbackListeners m" "set_view (set_or_new m k) = manager_view m k"
proof -
  note ok = manager_okD [OF assms, of k]
  show "vset_ok (set_or_new m k)" using ok(1) by (auto simp: set_or_new_def vset_ok_new split: option.split)
  show "vs_subnetID (set_or_new m k) = k" "vs_managerCallbackListeners (set_or_new m k) = mg_callbackListeners m"
    using ok(2,3) by (auto simp: set_or_new_def newSet_def split: option.split)
  show "set_view (set_or_new m k) = manager_view m k"
    by (auto simp: set_or_new_def newSet_def manager_view_def set_view_def split: option.split)
qed

text \<open>A listener that starts with nothing and applies the events it is called with.\<close>

fun replay1 :: "'l \<Rightarrow> ('pk, 'l) vdr_call \<Rightarrow> (ID \<Rightarrow> 'pk vdr_view) \<Rightarrow> ID \<Rightarrow> 'pk vdr_view" where
  "replay1 l (ManagerCall l' k ev) V = (if l' = l then V(k := apply_event ev (V k)) else V)"
| "replay1 l (SetCall l' ev) V = V"

definition replay :: "'l \<Rightarrow> ('pk, 'l) vdr_call list \<Rightarrow> (ID \<Rightarrow> 'pk vdr_view) \<Rightarrow> ID \<Rightarrow> 'pk vdr_view" where
  "replay l calls V = fold (replay1 l) calls V"

lemma replay_append: "replay l (xs @ ys) V = replay l ys (replay l xs V)"
  by (simp add: replay_def)

lemma apply_event_idem: "apply_event ev (apply_event ev V) = apply_event ev V"
  by (cases ev) (auto simp: fun_eq_iff map_option_case split: option.splits)

lemma replay_manager_calls:
  "replay l (map (\<lambda>l'. ManagerCall l' k ev) ls) V = (if l \<in> set ls then V(k := apply_event ev (V k)) else V)"
proof (induction ls arbitrary: V)
  case (Cons l' ls)
  define W where "W = V(k := apply_event ev (V k))"
  have "W(k := apply_event ev (W k)) = W" unfolding W_def by (rule ext) (simp add: apply_event_idem)
  then have IH: "replay l (map (\<lambda>l'. ManagerCall l' k ev) ls) W = W" using Cons [of W] by (cases "l \<in> set ls") (simp_all only: if_True if_False)
  show ?case
  proof (cases "l' = l")
    case True
    then have "replay l (map (\<lambda>l'. ManagerCall l' k ev) (l' # ls)) V = W" using IH unfolding W_def by (simp add: replay_def)
    with True show ?thesis by (simp add: W_def)
  next
    case False
    then have "replay l (map (\<lambda>l'. ManagerCall l' k ev) (l' # ls)) V = replay l (map (\<lambda>l'. ManagerCall l' k ev) ls) V"
      by (simp add: replay_def)
    with Cons [of V] False show ?thesis by simp
  qed
qed (simp add: replay_def)

lemma replay_call_listeners:
  "replay l (call_listeners s ev) V =
     (if l \<in> set (vs_managerCallbackListeners s) then V(vs_subnetID s := apply_event ev (V (vs_subnetID s))) else V)"
proof -
  have "replay l (map (\<lambda>l. SetCall l ev) ls) W = W" for ls W
    unfolding replay_def by (induction ls arbitrary: W) auto
  then show ?thesis by (simp add: call_listeners_def replay_append replay_manager_calls)
qed

text \<open>The result of an operation on the manager, for an effect of the specification on subnet \<open>k\<close>.\<close>

definition manager_effect :: "('pk, 'l) manager \<Rightarrow> ID \<Rightarrow> ('pk, 'l) manager_result \<Rightarrow> vdr_error + 'pk vdr_event \<Rightarrow> bool" where
  "manager_effect m k r eff \<longleftrightarrow>
     (case eff of
        Inl err \<Rightarrow> r = (Some err, m, [])
      | Inr ev \<Rightarrow> \<exists>m' calls. r = (None, m', calls) \<and> manager_ok m' \<and> mg_callbackListeners m' = mg_callbackListeners m \<and>
          manager_view m' = (manager_view m)(k := apply_event ev (manager_view m k)) \<and>
          (\<forall>l V. replay l calls V = (if l \<in> set (mg_callbackListeners m) then V(k := apply_event ev (V k)) else V)))"

lemma manager_effectI:
  assumes m: "manager_ok m" and s: "vs_subnetID s = k" "vs_managerCallbackListeners s = mg_callbackListeners m"
    "set_view s = manager_view m k" and s': "vset_ok s'" "set_view s' = apply_event ev (set_view s)" "same_listeners s s'"
    and ne: "vs_vdrSlice s' = [] \<longrightarrow> vs_setCallbackListeners s' \<noteq> []"
  shows "manager_effect m k (None, store_set m k s', call_listeners s ev) (Inr ev)"
proof -
  have "vs_subnetID s' = k" "vs_managerCallbackListeners s' = mg_callbackListeners m"
    using s s'(3) by (simp_all add: same_listeners_def)
  note st = manager_ok_store [OF m s'(1) this ne]
  then show ?thesis
    using s s' by (auto simp: manager_effect_def replay_call_listeners) (simp add: store_set_def)
qed

lemma apply_Added_nonempty: "apply_event (OnValidatorAdded n pk tx w) V \<noteq> Map.empty"
  by (simp add: fun_eq_iff) (metis option.distinct(1))

lemma AddStaker_effect:
  assumes m: "manager_ok m"
  shows "manager_effect m k (manager_AddStaker m k n pk tx w) (nonzero w (add_effect (manager_view m k) n pk tx w))"
proof (cases "w = 0")
  case True
  then show ?thesis by (simp add: manager_AddStaker_def manager_effect_def nonzero_def)
next
  case w: False
  note sn = set_or_new_ok [OF m, of k]
  note eff = vdrSet_Add_effect [OF sn(1) w, of n pk tx]
  show ?thesis
  proof (cases "n \<in> dom (manager_view m k)")
    case True
    then have "mg_subnetToVdrs m k = Some (set_or_new m k)"
      by (auto simp: manager_view_def set_or_new_def split: option.splits)
    then have "store_set m k (set_or_new m k) = m" by (simp add: store_set_def fun_upd_idem)
    then show ?thesis using eff True w
      by (simp add: set_effect_def add_effect_def sn(4) manager_AddStaker_def manager_effect_def nonzero_def)
  next
    case False
    let ?ev = "OnValidatorAdded n pk tx w"
    from eff False obtain s' where s': "vdrSet_Add (set_or_new m k) n pk tx w = (None, s', call_listeners (set_or_new m k) ?ev)"
      "vset_ok s'" "set_view s' = apply_event ?ev (set_view (set_or_new m k))" "same_listeners (set_or_new m k) s'"
      by (auto simp: set_effect_def add_effect_def sn(4))
    have "vs_vdrSlice s' \<noteq> []" using set_view_empty_iff [OF s'(2)] s'(3) apply_Added_nonempty by metis
    with manager_effectI [OF m sn(2-4) s'(2-4)] show ?thesis using s'(1) w False
      by (simp add: manager_AddStaker_def nonzero_def add_effect_def)
  qed
qed

lemma AddWeight_effect:
  assumes m: "manager_ok m"
  shows "manager_effect m k (manager_AddWeight m k n w) (nonzero w (add_weight_effect (manager_view m k) n w))"
proof (cases "w = 0 \<or> mg_subnetToVdrs m k = None")
  case True
  then show ?thesis
    by (auto simp: manager_AddWeight_def manager_effect_def nonzero_def add_weight_effect_def manager_view_def)
next
  case False
  then obtain s where w: "w \<noteq> 0" and s: "mg_subnetToVdrs m k = Some s" by auto
  note ok = manager_okD [OF m s]
  have v: "set_view s = manager_view m k" using s by (simp add: manager_view_def)
  note eff = vdrSet_AddWeight_effect [OF ok(1) w, of n, unfolded v]
  show ?thesis
  proof (cases "add_weight_effect (manager_view m k) n w")
    case (Inl err)
    have "store_set m k s = m" using s by (simp add: store_set_def fun_upd_idem)
    with eff Inl w s show ?thesis
      by (simp add: set_effect_def manager_AddWeight_def manager_effect_def nonzero_def)
  next
    case (Inr ev)
    with eff obtain s' where s': "vdrSet_AddWeight s n w = (None, s', call_listeners s ev)"
      "vset_ok s'" "set_view s' = apply_event ev (set_view s)" "same_listeners s s'"
      by (auto simp: set_effect_def v)
    have "set_view s' \<noteq> Map.empty"
      using Inr s'(3) unfolding v by (auto simp: add_weight_effect_def fun_eq_iff split: option.splits if_splits prod.splits)
    then have "vs_vdrSlice s' \<noteq> []" using set_view_empty_iff [OF s'(2)] by simp
    with manager_effectI [OF m ok(2,3) v s'(2-4)] show ?thesis using s'(1) w s Inr
      by (simp add: manager_AddWeight_def nonzero_def)
  qed
qed

lemma manager_ok_delete:
  assumes "manager_ok m" "m' = m\<lparr>mg_subnetToVdrs := (mg_subnetToVdrs m)(k := None)\<rparr>"
  shows "manager_ok m'" "manager_view m' = (manager_view m)(k := Map.empty)"
  using assms by (auto simp: manager_ok_def manager_view_def fun_eq_iff)

lemma RemoveWeight_effect:
  assumes m: "manager_ok m"
  shows "manager_effect m k (manager_RemoveWeight m k n w) (nonzero w (remove_weight_effect (manager_view m k) n w))"
proof (cases "w = 0 \<or> mg_subnetToVdrs m k = None")
  case True
  then show ?thesis
    by (auto simp: manager_RemoveWeight_def manager_effect_def nonzero_def remove_weight_effect_def manager_view_def)
next
  case False
  then obtain s where w: "w \<noteq> 0" and s: "mg_subnetToVdrs m k = Some s" by auto
  note ok = manager_okD [OF m s]
  have v: "set_view s = manager_view m k" using s by (simp add: manager_view_def)
  note eff = vdrSet_RemoveWeight_effect [OF ok(1) w, of n, unfolded v]
  show ?thesis
  proof (cases "remove_weight_effect (manager_view m k) n w")
    case (Inl err)
    have "store_set m k s = m" using s by (simp add: store_set_def fun_upd_idem)
    with eff Inl w s show ?thesis
      by (simp add: set_effect_def manager_RemoveWeight_def manager_effect_def nonzero_def)
  next
    case (Inr ev)
    with eff obtain s' where s': "vdrSet_RemoveWeight s n w = (None, s', call_listeners s ev)"
      "vset_ok s'" "set_view s' = apply_event ev (set_view s)" "same_listeners s s'"
      by (auto simp: set_effect_def v)
    show ?thesis
    proof (cases "vs_vdrSlice s' = [] \<and> vs_setCallbackListeners s' = []")
      case True
      let ?m = "m\<lparr>mg_subnetToVdrs := (mg_subnetToVdrs m)(k := None)\<rparr>"
      have "set_view s' = Map.empty" using set_view_empty_iff [OF s'(2)] True by simp
      then have "apply_event ev (manager_view m k) = Map.empty" using s'(3) v by simp
      with manager_ok_delete [OF m refl, of k] show ?thesis using s'(1) w s Inr True ok(2,3)
        by (auto simp: manager_RemoveWeight_def nonzero_def vdrSet_Len_def vdrSet_HasCallbackRegistered_def manager_effect_def
            replay_call_listeners)
    next
      case False
      then have "vs_vdrSlice s' = [] \<longrightarrow> vs_setCallbackListeners s' \<noteq> []" by simp
      from manager_effectI [OF m ok(2,3) v s'(2-4) this] show ?thesis using s'(1) w s Inr False
        by (auto simp: manager_RemoveWeight_def nonzero_def vdrSet_Len_def vdrSet_HasCallbackRegistered_def)
    qed
  qed
qed

section \<open>Listeners\<close>

lemma replay_added_view:
  assumes ok: "vset_ok s"
  shows "replay l (replay_added s (ManagerCall l' k)) V = (if l' = l then V(k := V k ++ set_view s) else V)"
proof -
  let ?ev = "\<lambda>n. let vdr = the (vs_vdrs s n) in
    ManagerCall l' k (OnValidatorAdded (vdr_NodeID vdr) (vdr_PublicKey vdr) (vdr_TxID vdr) (vdr_Weight vdr))"
  have "replay l (map ?ev ns) V = (if l' = l then V(k := V k ++ (set_view s |` set ns)) else V)"
    if "set ns \<subseteq> dom (vs_vdrs s)" for ns
    using that
  proof (induction ns rule: rev_induct)
    case (snoc n ns)
    then obtain v where v: "vs_vdrs s n = Some v" by auto
    have "replay1 l (?ev n) W = (if l' = l then W(k := (W k)(n \<mapsto> (vdr_PublicKey v, vdr_TxID v, vdr_Weight v))) else W)" for W
      using vset_lookup(3) [OF ok v] v by (simp add: Let_def)
    moreover have "(V k ++ (set_view s |` set ns))(n \<mapsto> (vdr_PublicKey v, vdr_TxID v, vdr_Weight v)) =
        V k ++ (set_view s |` set (ns @ [n]))"
      using v by (auto simp: fun_eq_iff map_add_def restrict_map_def set_view_def split: option.splits)
    ultimately show ?case using snoc by (auto simp: replay_def)
  qed (simp add: replay_def)
  from this [of "vs_vdrSlice s"] vset_okD(3) [OF ok] have "replay l (map ?ev (vs_vdrSlice s)) V =
      (if l' = l then V(k := V k ++ (set_view s |` dom (vs_vdrs s))) else V)" by simp
  moreover have "set_view s |` dom (vs_vdrs s) = set_view s"
    by (auto simp: fun_eq_iff restrict_map_def set_view_def)
  ultimately show ?thesis by (simp add: replay_added_def)
qed

definition add_listener :: "'l \<Rightarrow> ('pk, 'l) vdrSet \<Rightarrow> ('pk, 'l) vdrSet" where
  "add_listener l s = s\<lparr>vs_managerCallbackListeners := vs_managerCallbackListeners s @ [l]\<rparr>"

lemma vset_ok_add_listener: "vset_ok (add_listener l s) \<longleftrightarrow> vset_ok s"
  by (simp add: vset_ok_def entry_ok_def add_listener_def)

lemma register_all_sets:
  assumes "distinct ks" "set ks \<subseteq> dom sets"
  shows "fst (register_all l ks sets) k = (if k \<in> set ks then map_option (add_listener l) (sets k) else sets k)"
  using assms
proof (induction ks arbitrary: sets)
  case (Cons k' ks)
  then obtain s where s: "sets k' = Some s" by auto
  define t where "t = sets(k' \<mapsto> add_listener l s)"
  have "set ks \<subseteq> dom t" using Cons.prems by (auto simp: t_def)
  then have IH: "fst (register_all l ks t) k = (if k \<in> set ks then map_option (add_listener l) (t k) else t k)"
    using Cons.IH [of t] Cons.prems(1) by auto
  have "fst (register_all l (k' # ks) sets) = fst (register_all l ks t)"
    by (simp add: s vdrSet_RegisterManagerCallbackListener_def t_def add_listener_def split_beta Let_def)
  moreover have "t j = (if j = k' then Some (add_listener l s) else sets j)" for j by (simp add: t_def)
  ultimately show ?case using IH Cons.prems s by (simp del: register_all.simps)
qed simp

lemma register_all_calls:
  assumes "distinct ks" "set ks \<subseteq> dom sets" "\<And>k. k \<in> set ks \<Longrightarrow> vs_subnetID (the (sets k)) = k"
  shows "snd (register_all l ks sets) = concat (map (\<lambda>k. replay_added (the (sets k)) (ManagerCall l k)) ks)"
  using assms
proof (induction ks arbitrary: sets)
  case (Cons k' ks)
  then obtain s where s: "sets k' = Some s" by auto
  define t where "t = sets(k' \<mapsto> add_listener l s)"
  have same: "t k = sets k" if "k \<in> set ks" for k using that Cons.prems(1) by (auto simp: t_def)
  have "set ks \<subseteq> dom t" using Cons.prems by (auto simp: t_def)
  note dom = this
  have "snd (register_all l (k' # ks) sets) = replay_added s (ManagerCall l k') @ snd (register_all l ks t)"
    using Cons.prems(3) [of k']
    by (simp add: s vdrSet_RegisterManagerCallbackListener_def t_def add_listener_def split_beta Let_def)
  moreover have "snd (register_all l ks t) = concat (map (\<lambda>k. replay_added (the (t k)) (ManagerCall l k)) ks)"
    by (rule Cons.IH [OF _ dom]) (use Cons.prems(1,3) in \<open>auto simp: same\<close>)
  moreover have "map (\<lambda>k. replay_added (the (t k)) (ManagerCall l k)) ks = map (\<lambda>k. replay_added (the (sets k)) (ManagerCall l k)) ks"
    by (simp add: same)
  ultimately show ?case by (simp add: s del: register_all.simps)
qed simp

lemma replay_registered:
  assumes "distinct ks" "\<And>k. k \<in> set ks \<Longrightarrow> vset_ok (the (sets k))"
  shows "replay l (concat (map (\<lambda>k. replay_added (the (sets k)) (ManagerCall l' k)) ks)) V k =
    (if l' = l \<and> k \<in> set ks then V k ++ set_view (the (sets k)) else V k)"
  using assms
proof (induction ks arbitrary: V)
  case Nil
  then show ?case by (simp add: replay_def)
next
  case (Cons k' ks)
  define W where "W = replay l (replay_added (the (sets k')) (ManagerCall l' k')) V"
  have W: "W j = (if l' = l \<and> j = k' then V k' ++ set_view (the (sets k')) else V j)" for j
    using replay_added_view [of "the (sets k')" l l' k' V] Cons.prems(2) [of k'] by (simp add: W_def)
  have "replay l (concat (map (\<lambda>k. replay_added (the (sets k)) (ManagerCall l' k)) (k' # ks))) V k =
      replay l (concat (map (\<lambda>k. replay_added (the (sets k)) (ManagerCall l' k)) ks)) W k"
    by (simp add: replay_append W_def)
  also have "\<dots> = (if l' = l \<and> k \<in> set ks then W k ++ set_view (the (sets k)) else W k)"
    by (rule Cons.IH) (use Cons.prems in auto)
  finally show ?case using Cons.prems(1) unfolding W by auto
qed

lemma RegisterCallbackListener_effect:
  assumes m: "manager_ok m" and ks: "distinct ks" "set ks = dom (mg_subnetToVdrs m)"
  shows "\<exists>m' calls. manager_RegisterCallbackListener ks m l' = (m', calls) \<and> manager_ok m' \<and>
    mg_callbackListeners m' = mg_callbackListeners m @ [l'] \<and> manager_view m' = manager_view m \<and>
    (\<forall>l V k. replay l calls V k = (if l' = l then V k ++ manager_view m k else V k))"
proof -
  let ?sets = "mg_subnetToVdrs m"
  define m' where "m' = fst (manager_RegisterCallbackListener ks m l')"
  define calls where "calls = snd (manager_RegisterCallbackListener ks m l')"
  note ok = manager_okD [OF m]
  have sub: "set ks \<subseteq> dom ?sets" using ks(2) by simp
  have sets: "mg_subnetToVdrs m' k = map_option (add_listener l') (?sets k)" for k
    using register_all_sets [OF ks(1) sub, of l' k] ks(2)
    by (auto simp: m'_def manager_RegisterCallbackListener_def split_beta Let_def)
  have ls: "mg_callbackListeners m' = mg_callbackListeners m @ [l']"
    by (simp add: m'_def manager_RegisterCallbackListener_def split_beta Let_def)
  have "vs_subnetID (the (?sets k)) = k" "vset_ok (the (?sets k))" if "k \<in> set ks" for k
    using that ks(2) ok(1,2) [of k] by auto
  then have r: "replay l calls V k = (if l' = l \<and> k \<in> set ks then V k ++ set_view (the (?sets k)) else V k)" for l V k
    using register_all_calls [OF ks(1) sub, of l'] replay_registered [OF ks(1), of ?sets l l' V k]
    by (simp add: calls_def manager_RegisterCallbackListener_def split_beta Let_def)
  have "replay l calls V k = (if l' = l then V k ++ manager_view m k else V k)" for l V k
    using ks(2) by (auto simp: r manager_view_def split: option.splits)
  moreover have "manager_ok m'" unfolding manager_ok_def
    using ok by (auto simp: sets ls vset_ok_add_listener) (auto simp: add_listener_def)
  moreover have "manager_view m' = manager_view m"
    by (auto simp: fun_eq_iff manager_view_def sets add_listener_def set_view_def split: option.split)
  ultimately show ?thesis using ls by (auto simp: m'_def calls_def intro!: exI [of _ m'] exI [of _ calls])
qed

lemma RegisterSetCallbackListener_effect:
  assumes m: "manager_ok m"
  shows "\<exists>m' calls. manager_RegisterSetCallbackListener m k l' = (m', calls) \<and> manager_ok m' \<and>
    mg_callbackListeners m' = mg_callbackListeners m \<and> manager_view m' = manager_view m \<and> (\<forall>l V. replay l calls V = V)"
proof -
  define s where "s = set_or_new m k"
  let ?s = "s\<lparr>vs_setCallbackListeners := vs_setCallbackListeners s @ [l']\<rparr>"
  note ok = set_or_new_ok [OF m, of k, folded s_def]
  have "vset_ok ?s" using ok(1) by (simp add: vset_ok_def entry_ok_def)
  note st = manager_ok_store [OF m this, of k]
  have "set_view ?s = manager_view m k" using ok(4) by (auto simp: set_view_def fun_eq_iff)
  moreover have "fold (replay1 l) (map (\<lambda>n. SetCall l' (f n)) ns) V = V" for l V f and ns :: "NodeID list"
    by (induction ns arbitrary: V) auto
  ultimately show ?thesis using st ok(2,3)
    by (auto simp: manager_RegisterSetCallbackListener_def vdrSet_RegisterCallbackListener_def s_def [symmetric]
        store_set_def replay_def replay_added_def Let_def)
qed

end
