(* ===== verification/Validator_Reach.thy ===== *)
theory Validator_Reach
  imports Validator_Props
begin

text \<open>
  The validator manager over all its executions: any sequence of operations from the empty manager, sampling included.
  The representation invariant holds, every operation is the operation on the map from subnets and nodes to weights,
  a listener mirrors that map, the queries read it and a sample respects it.
\<close>

section \<open>Executions\<close>

inductive mgr_reach :: "'s source \<Rightarrow> ('pk, 'l) manager \<Rightarrow> ('pk, 'l) vdr_call list \<Rightarrow> bool" for src where
  mgr_new: "mgr_reach src NewManager []"
| mgr_op: "mgr_reach src m calls \<Longrightarrow> op_fits op m \<Longrightarrow> manager_step op m = (err, m', calls') \<Longrightarrow> mgr_reach src m' (calls @ calls')"
| mgr_sample: "mgr_reach src m calls \<Longrightarrow> manager_Sample src m k n g = Some (res, m', g') \<Longrightarrow> mgr_reach src m' calls"

definition step_effect :: "('pk, 'l) manager_op \<Rightarrow> ('pk, 'l) manager \<Rightarrow> bool" where
  "step_effect op m \<longleftrightarrow>
     (case manager_step op m of (err, m', calls) \<Rightarrow>
        manager_ok m' \<and> (err, manager_view m') = apply_effect (op_effect op (manager_view m)) (manager_view m) \<and>
        (err \<noteq> None \<longrightarrow> m' = m \<and> calls = []))"

lemma manager_effect_step:
  assumes "manager_ok m" "manager_effect m k (manager_step op m) eff" "op_effect op (manager_view m) = Some (map_sum id (Pair k) eff)"
  shows "step_effect op m"
  using assms by (cases eff) (auto simp: manager_effect_def step_effect_def apply_effect_def)

lemma step_effect_ok:
  assumes m: "manager_ok m" and fits: "op_fits op m"
  shows "step_effect op m"
proof (cases op)
  case (AddStakerOp k n pk tx w)
  with AddStaker_effect [OF m] show ?thesis by (intro manager_effect_step [OF m, of k]) (auto intro!: refl)
next
  case (AddWeightOp k n w)
  with AddWeight_effect [OF m] show ?thesis by (intro manager_effect_step [OF m, of k]) (auto intro!: refl)
next
  case (RemoveWeightOp k n w)
  with RemoveWeight_effect [OF m] show ?thesis by (intro manager_effect_step [OF m, of k]) (auto intro!: refl)
next
  case (ListenOp ks l)
  with RegisterCallbackListener_effect [OF m, of ks l] fits show ?thesis
    by (auto simp: step_effect_def apply_effect_def)
next
  case (ListenSetOp k l)
  with RegisterSetCallbackListener_effect [OF m, of k l] show ?thesis
    by (auto simp: step_effect_def apply_effect_def)
qed

section \<open>Sampling\<close>

definition view_weight :: "'pk vdr_view \<Rightarrow> NodeID \<Rightarrow> nat" where
  "view_weight V n = (case V n of None \<Rightarrow> 0 | Some (pk, tx, w) \<Rightarrow> unat w)"

definition view_total :: "'pk vdr_view \<Rightarrow> nat" where
  "view_total V = (\<Sum>n \<in> dom V. view_weight V n)"

lemma slice_weight:
  assumes ok: "vset_ok s" and i: "i < length (vs_vdrSlice s)"
  shows "unat (vs_weights s ! i) = view_weight (set_view s) (vs_vdrSlice s ! i)"
  using vset_okD(4) [OF ok i] by (auto simp: entry_ok_def view_weight_def set_view_def)

lemma slice_weights:
  assumes "vset_ok s"
  shows "map unat (vs_weights s) = map (view_weight (set_view s)) (vs_vdrSlice s)"
  using assms by (intro nth_equalityI) (auto simp: vset_okD(2) slice_weight)

lemma dom_set_view: "dom (set_view s) = dom (vs_vdrs s)"
  by (auto simp: set_view_def)

lemma view_total_set:
  assumes "vset_ok s"
  shows "view_total (set_view s) = weights_total (vs_weights s)" "vs_totalWeight s = int (view_total (set_view s))"
proof -
  have "view_total (set_view s) = sum_list (map (view_weight (set_view s)) (vs_vdrSlice s))"
    using vset_okD(1,3) [OF assms] by (simp add: view_total_def dom_set_view sum.distinct_set_conv_list)
  also have "\<dots> = sum_list (map unat (vs_weights s))" by (simp only: slice_weights [OF assms])
  finally have t: "view_total (set_view s) = sum_list (map unat (vs_weights s))" .
  then show "view_total (set_view s) = weights_total (vs_weights s)" by (simp add: weights_total_list)
  have "sum_list (map uint ws) = int (sum_list (map unat ws))" for ws :: "64 word list" by (induction ws) auto
  then show "vs_totalWeight s = int (view_total (set_view s))" using vset_okD(5) [OF assms] t by simp
qed

definition sampler_ready :: "('pk, 'l) vdrSet \<Rightarrow> ('pk, 'l) vdrSet \<Rightarrow> bool" where
  "sampler_ready s t \<longleftrightarrow> (\<exists>w. t = s\<lparr>vs_sampler := w, vs_samplerInitialized := True\<rparr> \<and> wwr_for (vs_weights s) w)"

lemma sampler_ready_ok:
  assumes "vset_ok s" "sampler_ready s t"
  shows "vset_ok t" "set_view t = set_view s" "same_listeners s t" "vs_vdrSlice t = vs_vdrSlice s"
proof -
  obtain w where t: "t = s\<lparr>vs_sampler := w, vs_samplerInitialized := True\<rparr>" "wwr_for (vs_weights s) w"
    using assms(2) by (auto simp: sampler_ready_def)
  show "vset_ok t" using assms(1) t(2) by (simp add: t(1) vset_ok_def entry_ok_def)
  show "set_view t = set_view s" "same_listeners s t" "vs_vdrSlice t = vs_vdrSlice s"
    by (simp_all add: t(1) fun_eq_iff set_view_def same_listeners_def)
qed

lemma vdrSet_Sample_cases:
  assumes ok: "vset_ok s" and r: "vdrSet_Sample src s n g = Some (res, t, g')"
  shows "t = s \<or> sampler_ready s t"
proof -
  have "wwr_for (vs_weights s) (vs_sampler s)" if "vs_samplerInitialized s" using vset_okD(6) [OF ok that] .
  with r show ?thesis
    by (cases "wwr_Initialize (vs_weights s)")
      (auto simp: vdrSet_Sample_def sampler_ready_def Let_def split: if_splits Option.bind_splits
        dest!: wwr_Sample_for [rotated] dest: wwr_for_Initialize)
qed

lemma count_list_nodes:
  assumes "distinct xs" "\<And>i. count_list idx i \<le> (if i < length xs then f (xs ! i) else 0)"
  shows "count_list (map (\<lambda>i. xs ! i) idx) x \<le> (if x \<in> set xs then f x else 0)"
proof -
  have len: "i < length xs" if "i \<in> set idx" for i
    using assms(2) [of i] that by (cases "i < length xs") (simp_all add: count_list_0_iff)
  show ?thesis
  proof (cases "x \<in> set xs")
    case True
    then obtain j where j: "j < length xs" "xs ! j = x" by (auto simp: in_set_conv_nth)
    have "count_list (map (\<lambda>i. xs ! i) idx) x = count_list idx j"
      using len by (induction idx) (auto simp: j nth_eq_iff_index_eq [OF assms(1) _ j(1)] simp flip: j(2))
    then show ?thesis using assms(2) [of j] j True by simp
  next
    case False
    then have "x \<notin> set (map (\<lambda>i. xs ! i) idx)" using len by auto
    then show ?thesis by (simp add: count_list_0_iff del: set_map)
  qed
qed

text \<open>What a sample of \<open>n\<close> nodes may return if the set holds \<open>V\<close>.\<close>

definition sample_ok :: "'pk vdr_view \<Rightarrow> nat \<Rightarrow> vdr_error + NodeID list \<Rightarrow> bool" where
  "sample_ok V n res \<longleftrightarrow>
     (case res of
        Inl err \<Rightarrow> err = (if 2 ^ 64 \<le> view_total V then ErrMath ErrOverflow else ErrInsufficientWeight) \<and>
          (view_total V < 2 ^ 64 \<longrightarrow> view_total V < n)
      | Inr nodes \<Rightarrow> view_total V < 2 ^ 64 \<and> n \<le> view_total V \<and> length nodes = n \<and>
          (\<forall>x. count_list nodes x \<le> view_weight V x))"

lemma wwr_for_total: "wwr_for ws w \<Longrightarrow> weights_total ws < 2 ^ 64"
  using unsigned_less [of "ur_length (wwr_u w)", where ?'a = nat] by (simp add: wwr_for_def)

lemma vdrSet_Sample_ok:
  assumes ok: "vset_ok s" and rng: "rng_returns src"
  shows "\<exists>res t g'. vdrSet_Sample src s n g = Some (res, t, g') \<and> sample_ok (set_view s) n res"
proof -
  have run: "\<exists>res t g'. (do {
          (indices, w, g') \<leftarrow> wwr_Sample src n (vs_sampler u) g;
          let v = u\<lparr>vs_sampler := w\<rparr>;
          Some (case indices of None \<Rightarrow> Inl ErrInsufficientWeight | Some idx \<Rightarrow> Inr (map (\<lambda>i. vs_vdrSlice v ! i) idx), v, g')
        }) = Some (res, t, g') \<and> sample_ok (set_view s) n res"
    if u: "wwr_for (vs_weights s) (vs_sampler u)" "vs_vdrSlice u = vs_vdrSlice s" for u
  proof -
    obtain ind w g' where w: "wwr_Sample src n (vs_sampler u) g = Some (ind, w, g')"
      and c: "case ind of None \<Rightarrow> weights_total (vs_weights s) < n
       | Some idx \<Rightarrow> n \<le> weights_total (vs_weights s) \<and> length idx = n \<and>
         (\<forall>i. count_list idx i \<le> (if i < length (vs_weights s) then unat (vs_weights s ! i) else 0))"
      using wwr_Sample_spec [OF rng u(1), of n g] by (elim exE conjE)
    note t = wwr_for_total [OF u(1)] view_total_set(1) [OF ok]
    show ?thesis
    proof (cases ind)
      case None
      with w c t show ?thesis by (simp add: sample_ok_def Let_def)
    next
      case (Some idx)
      have "count_list idx i \<le> (if i < length (vs_vdrSlice s) then view_weight (set_view s) (vs_vdrSlice s ! i) else 0)" for i
        using c Some slice_weight [OF ok, of i] vset_okD(2) [OF ok] by (auto split: if_splits dest: spec [of _ i])
      note cnt = count_list_nodes [OF vset_okD(1) [OF ok], of idx "view_weight (set_view s)", OF this]
      have "count_list (map (\<lambda>i. vs_vdrSlice s ! i) idx) x \<le> view_weight (set_view s) x" for x
        using cnt [of x] by (simp split: if_splits)
      with w c t Some u(2) show ?thesis by (simp add: sample_ok_def Let_def)
    qed
  qed
  show ?thesis
  proof (cases "vs_samplerInitialized s")
    case True
    with run [of s] vset_okD(6) [OF ok] show ?thesis by (simp add: vdrSet_Sample_def)
  next
    case False
    show ?thesis
    proof (cases "wwr_Initialize (vs_weights s)")
      case (Inl err)
      with wwr_Initialize_ok [of "vs_weights s"] have "err = ErrOverflow" "2 ^ 64 \<le> weights_total (vs_weights s)"
        by (metis Inl_Inr_False not_less sum.inject(1))+
      with False Inl show ?thesis by (simp add: vdrSet_Sample_def sample_ok_def view_total_set(1) [OF ok])
    next
      case (Inr w)
      with False run [of "s\<lparr>vs_sampler := w, vs_samplerInitialized := True\<rparr>"] wwr_for_Initialize [OF Inr] show ?thesis
        by (simp add: vdrSet_Sample_def)
    qed
  qed
qed

lemma manager_Sample_keeps:
  assumes m: "manager_ok m" and r: "manager_Sample src m k n g = Some (res, m', g')"
  shows "manager_ok m'" "manager_view m' = manager_view m" "mg_callbackListeners m' = mg_callbackListeners m"
proof -
  have "m' = m \<or> (\<exists>s t. mg_subnetToVdrs m k = Some s \<and> m' = store_set m k t \<and> (t = s \<or> sampler_ready s t))"
    using r vdrSet_Sample_cases manager_okD(1) [OF m]
    by (fastforce simp: manager_Sample_def split: if_splits option.splits Option.bind_splits)
  then consider "m' = m" | s t where "mg_subnetToVdrs m k = Some s" "m' = store_set m k t" "t = s \<or> sampler_ready s t"
    by blast
  then have "manager_ok m' \<and> manager_view m' = manager_view m \<and> mg_callbackListeners m' = mg_callbackListeners m"
  proof cases
    case 2
    note s = manager_okD [OF m 2(1)]
    have v: "manager_view m k = set_view s" using 2(1) by (simp add: manager_view_def)
    have t: "vset_ok t" "set_view t = set_view s" "same_listeners s t" "vs_vdrSlice t = vs_vdrSlice s"
      using 2(3) sampler_ready_ok [OF s(1), of t] s(1) by (auto simp: same_listeners_def)
    note st = manager_ok_store [OF m t(1), of k]
    show ?thesis unfolding 2(2) using st s t v by (simp add: same_listeners_def fun_upd_idem) (simp add: store_set_def)
  qed (simp add: m)
  then show "manager_ok m'" "manager_view m' = manager_view m" "mg_callbackListeners m' = mg_callbackListeners m" by auto
qed

lemma manager_ok_New: "manager_ok NewManager" "manager_view NewManager = (\<lambda>k. Map.empty)"
  by (auto simp: manager_ok_def NewManager_def manager_view_def)

lemma mgr_reach_ok: "mgr_reach src m calls \<Longrightarrow> manager_ok m"
proof (induction rule: mgr_reach.induct)
  case (mgr_op m calls op err m' calls')
  with step_effect_ok [of m op] show ?case by (simp add: step_effect_def)
qed (auto simp: manager_ok_New manager_Sample_keeps)

section \<open>Mirrors\<close>

definition mirror :: "('pk, 'l) manager \<Rightarrow> ('pk, 'l) vdr_call list \<Rightarrow> 'l \<Rightarrow> bool" where
  "mirror m calls l \<longleftrightarrow>
     replay l calls (\<lambda>k. Map.empty) = (if l \<in> set (mg_callbackListeners m) then manager_view m else (\<lambda>k. Map.empty))"

lemma mirror_effect:
  assumes "manager_effect m k (err, m', calls') eff" "mirror m calls l"
  shows "mirror m' (calls @ calls') l"
proof (cases eff)
  case (Inl e)
  with assms show ?thesis by (simp add: manager_effect_def)
next
  case (Inr ev)
  with assms(1) have m': "mg_callbackListeners m' = mg_callbackListeners m"
    "manager_view m' = (manager_view m)(k := apply_event ev (manager_view m k))"
    "replay l calls' V = (if l \<in> set (mg_callbackListeners m) then V(k := apply_event ev (V k)) else V)" for V
    by (auto simp: manager_effect_def)
  show ?thesis using assms(2) unfolding mirror_def replay_append m' by (cases "l \<in> set (mg_callbackListeners m)") simp_all
qed

lemma mirror_step:
  assumes m: "manager_ok m" and fits: "op_fits op m" and r: "manager_step op m = (err, m', calls')" and mir: "mirror m calls l"
  shows "mirror m' (calls @ calls') l"
proof (cases op)
  case (AddStakerOp k n pk tx w)
  with AddStaker_effect [OF m, of k n pk tx w] r mirror_effect [OF _ mir] show ?thesis by simp
next
  case (AddWeightOp k n w)
  with AddWeight_effect [OF m, of k n w] r mirror_effect [OF _ mir] show ?thesis by simp
next
  case (RemoveWeightOp k n w)
  with RemoveWeight_effect [OF m, of k n w] r mirror_effect [OF _ mir] show ?thesis by simp
next
  case (ListenOp ks l')
  with fits r RegisterCallbackListener_effect [OF m, of ks l'] have
    m': "mg_callbackListeners m' = mg_callbackListeners m @ [l']" "manager_view m' = manager_view m"
    "replay l calls' V k = (if l' = l then V k ++ manager_view m k else V k)" for V k
    by auto
  show ?thesis using mir unfolding mirror_def replay_append m'
    by (auto simp: fun_eq_iff map_add_def split: option.splits)
next
  case (ListenSetOp k l')
  with r RegisterSetCallbackListener_effect [OF m, of k l'] have
    m': "mg_callbackListeners m' = mg_callbackListeners m" "manager_view m' = manager_view m" "replay l calls' V = V" for V
    by auto
  show ?thesis using mir unfolding mirror_def replay_append m' .
qed

lemma mgr_reach_mirror: "mgr_reach src m calls \<Longrightarrow> mirror m calls l"
proof (induction rule: mgr_reach.induct)
  case mgr_new
  then show ?case by (simp add: mirror_def replay_def NewManager_def)
next
  case (mgr_op m calls op err m' calls')
  then show ?case using mirror_step mgr_reach_ok by metis
next
  case (mgr_sample m calls k n g res m' g')
  with manager_Sample_keeps [OF mgr_reach_ok] show ?case by (metis mirror_def)
qed

section \<open>Queries\<close>

lemma unat_GetWeight: "unat (vdrSet_GetWeight s n) = view_weight (set_view s) n"
  by (simp add: vdrSet_GetWeight_def view_weight_def set_view_def split: option.split)

lemma subset_loop_exact:
  "subset_loop s ns t =
     (if unat t + sum_list (map (view_weight (set_view s)) ns) < 2 ^ 64
      then Inr (word_of_nat (unat t + sum_list (map (view_weight (set_view s)) ns))) else Inl (ErrMath ErrOverflow))"
proof (induction ns arbitrary: t)
  case Nil
  then show ?case using unsigned_less [of t, where ?'a = nat] by simp
next
  case (Cons n ns)
  let ?w = "vdrSet_GetWeight s n"
  show ?case
  proof (cases "unat t + unat ?w < 2 ^ 64")
    case True
    then have "unat (t + ?w) = unat t + view_weight (set_view s) n" by (simp add: unat_word_ariths unat_GetWeight)
    with True Cons [of "t + ?w"] show ?thesis by (simp add: math_Add_def math_Add_guard unat_GetWeight add.assoc del: of_nat_add)
  next
    case False
    then show ?thesis by (simp add: math_Add_def math_Add_guard unat_GetWeight)
  qed
qed

lemma vdrSet_Map_view:
  assumes "vset_ok s"
  shows "vdrSet_Map s n = map_option (\<lambda>(pk, tx, w). \<lparr>gvo_NodeID = n, gvo_PublicKey = pk, gvo_Weight = w\<rparr>) (set_view s n)"
proof -
  have "fold (\<lambda>n m. let vdr = the (vs_vdrs s n) in
             m(vdr_NodeID vdr \<mapsto> \<lparr>gvo_NodeID = vdr_NodeID vdr, gvo_PublicKey = vdr_PublicKey vdr, gvo_Weight = vdr_Weight vdr\<rparr>))
       ns M n = (if n \<in> set ns then map_option (\<lambda>(pk, tx, w). \<lparr>gvo_NodeID = n, gvo_PublicKey = pk, gvo_Weight = w\<rparr>) (set_view s n)
         else M n)" if "set ns \<subseteq> dom (vs_vdrs s)" for ns M
    using that
  proof (induction ns arbitrary: M)
    case (Cons n' ns)
    then obtain v where v: "vs_vdrs s n' = Some v" by auto
    show ?case using Cons vset_lookup(3) [OF assms v] v by (auto simp: set_view_def Let_def)
  qed simp
  from this [of "vs_vdrSlice s" Map.empty] vset_okD(3) [OF assms] show ?thesis
    by (auto simp: vdrSet_Map_def set_view_def)
qed

lemma vdrSet_GetValidatorIDs_slice: "vset_ok s \<Longrightarrow> vdrSet_GetValidatorIDs s = vs_vdrSlice s"
  unfolding vdrSet_GetValidatorIDs_def by (intro map_idI) (metis domD option.sel vset_okD(3) vset_lookup(3))

section \<open>Theorems\<close>

text \<open>C12. The validator manager implements a map from subnets and nodes to weights.  In every state that operations and samples reach from the empty manager,
  the map, the slice, the weights, the total and the sampler of every set agree and no set is kept without a purpose;
  every operation then returns the error, and has the effect, that it has on the map; an operation that returns an error
  changes nothing and calls no listener.\<close>

theorem validators_refine:
  assumes "mgr_reach src m calls" "op_fits op m"
  shows "manager_ok m \<and>
    (case manager_step op m of (err, m', calls') \<Rightarrow>
       manager_ok m' \<and> (err, manager_view m') = apply_effect (op_effect op (manager_view m)) (manager_view m) \<and>
       (err \<noteq> None \<longrightarrow> m' = m \<and> calls' = []))"
  using mgr_reach_ok [OF assms(1)] step_effect_ok [OF _ assms(2)] by (simp add: step_effect_def)

theorem validators_refine_witness:
  "case manager_step (AddStakerOp 1 2 None 3 5) (NewManager :: (unit, unit) manager) of (err, m', calls') \<Rightarrow>
     err = None \<and> manager_view m' 1 2 = Some (None, 3, 5)"
  using validators_refine [OF mgr_new [of counter], of "AddStakerOp 1 2 None 3 5 :: (unit, unit) manager_op"]
  by (simp add: apply_effect_def nonzero_def add_effect_def manager_ok_New split: prod.splits)

text \<open>C13. A listener mirrors the manager.  Whenever and however often a listener is registered, the events that it has been called with, applied in their order
  to an empty map, give exactly the validators of the manager, on every subnet; a listener that is not
  registered is never called.\<close>

theorem listener_mirrors_manager:
  assumes "mgr_reach src m calls"
  shows "replay l calls (\<lambda>k. Map.empty) = (if l \<in> set (mg_callbackListeners m) then manager_view m else (\<lambda>k. Map.empty))"
  using mgr_reach_mirror [OF assms] by (simp add: mirror_def)

theorem listener_mirrors_manager_witness:
  "let (_, m1, calls1) = manager_step (AddStakerOp 1 2 None 3 5) (NewManager :: (unit, bool) manager);
       (_, m2, calls2) = manager_step (ListenOp [1] True) m1;
       (_, m3, calls3) = manager_step (RemoveWeightOp 1 2 4) m2 in
   replay True (calls1 @ calls2 @ calls3) (\<lambda>k. Map.empty) 1 = [2 \<mapsto> (None, 3, 1)] \<and>
   replay False (calls1 @ calls2 @ calls3) (\<lambda>k. Map.empty) 1 = Map.empty"
proof -
  define m1 where "m1 = fst (snd (manager_step (AddStakerOp 1 2 None 3 5) (NewManager :: (unit, bool) manager)))"
  define calls1 where "calls1 = snd (snd (manager_step (AddStakerOp 1 2 None 3 5) (NewManager :: (unit, bool) manager)))"
  have 1: "manager_step (AddStakerOp 1 2 None 3 5) (NewManager :: (unit, bool) manager) = (None, m1, calls1)"
    "mg_subnetToVdrs m1 = [1 \<mapsto> \<lparr>vs_subnetID = 1, vs_vdrs = [2 \<mapsto> \<lparr>vdr_NodeID = 2, vdr_PublicKey = None, vdr_TxID = 3,
      vdr_Weight = 5, vdr_index = 0\<rparr>], vs_vdrSlice = [2], vs_weights = [5], vs_totalWeight = 5, vs_samplerInitialized = False,
      vs_sampler = \<lparr>wwr_u = uniformReplacer_Initialize 0, wwr_w = []\<rparr>, vs_managerCallbackListeners = [], vs_setCallbackListeners = []\<rparr>]"
    "mg_callbackListeners m1 = []"
    by (simp_all add: m1_def calls1_def manager_AddStaker_def vdrSet_Add_def NewManager_def set_or_new_def newSet_def store_set_def
        callValidatorAddedCallbacks_def call_listeners_def)
  define m2 where "m2 = fst (snd (manager_step (ListenOp [1] True) m1))"
  define calls2 where "calls2 = snd (snd (manager_step (ListenOp [1] True) m1))"
  have 2: "manager_step (ListenOp [1] True) m1 = (None, m2, calls2)" "mg_callbackListeners m2 = [True]"
    "mg_subnetToVdrs m2 = [1 \<mapsto> (the (mg_subnetToVdrs m1 1))\<lparr>vs_managerCallbackListeners := [True]\<rparr>]"
    by (simp_all add: m2_def calls2_def 1 manager_RegisterCallbackListener_def vdrSet_RegisterManagerCallbackListener_def)
  define m3 where "m3 = fst (snd (manager_step (RemoveWeightOp 1 2 4) m2))"
  define calls3 where "calls3 = snd (snd (manager_step (RemoveWeightOp 1 2 4) m2))"
  have 3: "manager_step (RemoveWeightOp 1 2 4) m2 = (None, m3, calls3)" "mg_callbackListeners m3 = [True]"
    "manager_view m3 1 = [2 \<mapsto> (None, 3, 1)]"
    by (simp_all add: m3_def calls3_def 1 2 Let_def manager_RemoveWeight_def vdrSet_RemoveWeight_def store_set_def math_Sub_def vdrSet_Len_def
        vdrSet_HasCallbackRegistered_def manager_view_def set_view_def fun_eq_iff)
  have "mgr_reach counter m3 ((([] @ calls1) @ calls2) @ calls3)"
    by (rule mgr_op [OF mgr_op [OF mgr_op [OF mgr_new _ 1(1)] _ 2(1)] _ 3(1)]) (simp_all add: 1(2))
  from listener_mirrors_manager [OF this, of True] listener_mirrors_manager [OF this, of False] show ?thesis
    by (simp add: 1(1) 2(1) 3 del: manager_step.simps)
qed

text \<open>C29. The queries of a reachable manager read its validators exactly.  The total weight and the weight of a list of nodes are sums of the weights, an error exactly if
  they do not fit 64 bits; the number of validators, their identifiers and the map of a subnet are those of its
  validators; a subnet without a set has no validators.\<close>

theorem validator_queries_exact:
  fixes m :: "('b, 'l) manager"
  assumes "mgr_reach src m calls"
  shows "unat (manager_GetWeight m k n) = view_weight (manager_view m k) n \<and>
    map_option (\<lambda>v. (vdr_PublicKey v, vdr_TxID v, vdr_Weight v)) (manager_GetValidator m k n) = manager_view m k n \<and>
    manager_TotalWeight m k =
      (if view_total (manager_view m k) < 2 ^ 64 then Inr (word_of_nat (view_total (manager_view m k)))
       else Inl ErrTotalWeightNotUint64) \<and>
    manager_SubsetWeight m k ns =
      (if sum_list (map (view_weight (manager_view m k)) ns) < 2 ^ 64
       then Inr (word_of_nat (sum_list (map (view_weight (manager_view m k)) ns))) else Inl (ErrMath ErrOverflow)) \<and>
    manager_NumValidators m k = card (dom (manager_view m k)) \<and>
    distinct (manager_GetValidatorIDs m k) \<and> set (manager_GetValidatorIDs m k) = dom (manager_view m k) \<and>
    manager_GetMap m k n =
      map_option (\<lambda>(pk, tx, w). \<lparr>gvo_NodeID = n, gvo_PublicKey = pk, gvo_Weight = w\<rparr>) (manager_view m k n)"
proof (cases "mg_subnetToVdrs m k")
  case None
  have "view_weight (Map.empty :: 'b vdr_view) = (\<lambda>_. 0)" by (simp add: view_weight_def fun_eq_iff)
  with None show ?thesis
    by (simp add: manager_view_def manager_GetWeight_def manager_GetValidator_def manager_TotalWeight_def manager_SubsetWeight_def
        manager_NumValidators_def manager_GetValidatorIDs_def manager_GetMap_def view_total_def)
next
  case (Some s)
  note ok = manager_okD(1) [OF mgr_reach_ok [OF assms] Some]
  have v: "manager_view m k = set_view s" using Some by (simp add: manager_view_def)
  have "vdrSet_TotalWeight s = (if view_total (set_view s) < 2 ^ 64 then Inr (word_of_nat (view_total (set_view s)))
      else Inl ErrTotalWeightNotUint64)"
    by (simp add: vdrSet_TotalWeight_def view_total_set(2) [OF ok])
  moreover have "card (dom (set_view s)) = vdrSet_Len s"
    using vset_okD(1,3) [OF ok] by (simp add: dom_set_view vdrSet_Len_def distinct_card)
  moreover have "vdrSet_SubsetWeight s ns = (if sum_list (map (view_weight (set_view s)) ns) < 2 ^ 64
       then Inr (word_of_nat (sum_list (map (view_weight (set_view s)) ns))) else Inl (ErrMath ErrOverflow))"
    by (simp add: vdrSet_SubsetWeight_def subset_loop_exact)
  ultimately show ?thesis using Some v vset_okD(1,3) [OF ok]
    by (simp add: manager_GetWeight_def manager_GetValidator_def manager_TotalWeight_def manager_SubsetWeight_def
        manager_NumValidators_def manager_GetValidatorIDs_def manager_GetMap_def unat_GetWeight vdrSet_Get_def
        vdrSet_Map_view [OF ok] vdrSet_GetValidatorIDs_slice [OF ok] dom_set_view) (simp add: set_view_def)
qed

text \<open>The manager of the witnesses: one subnet with a validator of weight 5.\<close>

definition one_validator :: "(unit, unit) manager" where
  "one_validator = fst (snd (manager_AddStaker NewManager 1 2 None 3 5))"

lemma one_validator_reach: "mgr_reach counter one_validator []"
proof -
  have "manager_step (AddStakerOp 1 2 None 3 5) (NewManager :: (unit, unit) manager) = (None, one_validator, [])"
    by (simp add: one_validator_def manager_AddStaker_def vdrSet_Add_def NewManager_def set_or_new_def newSet_def
        callValidatorAddedCallbacks_def call_listeners_def)
  from mgr_op [OF mgr_new _ this] show ?thesis by simp
qed

lemma one_validator_view: "manager_view one_validator = (\<lambda>k. Map.empty)(1 := [2 \<mapsto> (None, 3, 5)])"
  by (simp add: one_validator_def manager_AddStaker_def vdrSet_Add_def NewManager_def set_or_new_def newSet_def
      store_set_def manager_view_def set_view_def fun_eq_iff Let_def)

theorem validator_queries_exact_witness:
  "manager_TotalWeight one_validator 1 = Inr 5 \<and> manager_SubsetWeight one_validator 1 [2, 7] = Inr 5 \<and>
   manager_NumValidators one_validator 1 = 1"
  using validator_queries_exact [OF one_validator_reach, of 1 2 "[2, 7]"]
  by (simp add: one_validator_view view_total_def view_weight_def)

text \<open>C14. A sample of a reachable manager is a multiset of its validators.  With a source that does not fail forever it returns, changes no validator, and gives \<open>n\<close> nodes, each at most as often as its weight;
  it fails exactly if a nonempty sample is asked of a subnet without a set, of a total weight that overflows 64 bits, or of a
  total below \<open>n\<close>, and the manager is again a reachable one.\<close>

theorem validator_sample_exact:
  assumes "mgr_reach src m calls" "rng_returns src"
  shows "\<exists>res m' g'. manager_Sample src m k n g = Some (res, m', g') \<and> mgr_reach src m' calls \<and>
    manager_view m' = manager_view m \<and>
    (if n = 0 then res = Inr []
     else if mg_subnetToVdrs m k = None then res = Inl ErrMissingValidators
     else case res of
       Inl err \<Rightarrow> err = (if 2 ^ 64 \<le> view_total (manager_view m k) then ErrMath ErrOverflow else ErrInsufficientWeight) \<and>
         (view_total (manager_view m k) < 2 ^ 64 \<longrightarrow> view_total (manager_view m k) < n)
     | Inr nodes \<Rightarrow> view_total (manager_view m k) < 2 ^ 64 \<and> n \<le> view_total (manager_view m k) \<and> length nodes = n \<and>
         (\<forall>x. count_list nodes x \<le> view_weight (manager_view m k) x))"
proof -
  note ok = mgr_reach_ok [OF assms(1)]
  have "\<exists>res m' g'. manager_Sample src m k n g = Some (res, m', g') \<and>
    (if n = 0 then res = Inr []
     else if mg_subnetToVdrs m k = None then res = Inl ErrMissingValidators else sample_ok (manager_view m k) n res)"
  proof (cases "n = 0 \<or> mg_subnetToVdrs m k = None")
    case True
    then show ?thesis by (auto simp: manager_Sample_def)
  next
    case False
    then obtain s where n: "n \<noteq> 0" and s: "mg_subnetToVdrs m k = Some s" by auto
    have v: "manager_view m k = set_view s" using s by (simp add: manager_view_def)
    from vdrSet_Sample_ok [OF manager_okD(1) [OF ok s] assms(2), of n g] show ?thesis
      using n s v by (auto simp: manager_Sample_def)
  qed
  then obtain res m' g' where r: "manager_Sample src m k n g = Some (res, m', g')"
    "if n = 0 then res = Inr []
     else if mg_subnetToVdrs m k = None then res = Inl ErrMissingValidators else sample_ok (manager_view m k) n res"
    by (elim exE conjE)
  show ?thesis
    using r(1) mgr_sample [OF assms(1) r(1)] manager_Sample_keeps(2) [OF ok r(1)] r(2) [unfolded sample_ok_def]
    by (intro exI [of _ res] exI [of _ m'] exI [of _ g'] conjI)
qed

theorem validator_sample_exact_witness:
  "\<exists>nodes m' g'. manager_Sample counter one_validator 1 3 0 = Some (Inr nodes, m', g') \<and> length nodes = 3"
proof -
  have "manager_view one_validator 1 \<noteq> Map.empty" by (simp add: one_validator_view)
  then have "mg_subnetToVdrs one_validator 1 \<noteq> None" unfolding manager_view_def by (rule contrapos_nn) simp
  moreover have "view_total (manager_view one_validator 1) = 5" by (simp add: one_validator_view view_total_def view_weight_def)
  moreover obtain res m' g' where r: "manager_Sample counter one_validator 1 3 0 = Some (res, m', g')"
    "if (3 :: nat) = 0 then res = Inr []
     else if mg_subnetToVdrs one_validator 1 = None then res = Inl ErrMissingValidators
     else case res of
       Inl err \<Rightarrow> err = (if 2 ^ 64 \<le> view_total (manager_view one_validator 1) then ErrMath ErrOverflow else ErrInsufficientWeight) \<and>
         (view_total (manager_view one_validator 1) < 2 ^ 64 \<longrightarrow> view_total (manager_view one_validator 1) < 3)
     | Inr nodes \<Rightarrow> view_total (manager_view one_validator 1) < 2 ^ 64 \<and> 3 \<le> view_total (manager_view one_validator 1) \<and>
         length nodes = 3 \<and> (\<forall>x. count_list nodes x \<le> view_weight (manager_view one_validator 1) x)"
    using validator_sample_exact [OF one_validator_reach counter_returns, of 1 3 0] by (elim exE conjE)
  ultimately show ?thesis by (cases res) auto
qed

section \<open>Empty sets\<close>

text \<open>A set that is only listened to is counted by \<open>NumSubnets\<close> although it has no weight.\<close>

lemma NumSubnets_counts_empty:
  "manager_NumSubnets (fst (manager_RegisterSetCallbackListener NewManager k l)) = 1 \<and>
   manager_view (fst (manager_RegisterSetCallbackListener NewManager k l)) k = Map.empty"
  by (simp add: manager_RegisterSetCallbackListener_def vdrSet_RegisterCallbackListener_def manager_NumSubnets_def
      store_set_def set_or_new_def NewManager_def newSet_def manager_view_def set_view_def fun_eq_iff)

end
