(* ===== verification/Gas.thy ===== *)
theory Gas
  imports Safe_Math
begin

text \<open>
  \<open>vms/components/gas\<close>: gas amounts that saturate, the gas state of a chain, the dimensions of a fee, and the price as
  an exponential of the excess.  The package \<open>uint256\<close> is not part of the repository: its operations are a parameter,
  and its documented behaviour is the predicate \<open>uint256_laws\<close>.
\<close>

section \<open>Saturating amounts\<close>

definition Gas_Cost :: "64 word \<Rightarrow> 64 word \<Rightarrow> math_error + 64 word" where
  "Gas_Cost g price = math_Mul g price"

definition AddOverTime :: "64 word \<Rightarrow> 64 word \<Rightarrow> 64 word \<Rightarrow> 64 word" where
  "AddOverTime g gasRate duration =
     (case math_Mul gasRate duration of
        Inl err \<Rightarrow> MaxUint
      | Inr newGas \<Rightarrow>
          (case math_Add g newGas of
             Inl err \<Rightarrow> MaxUint
           | Inr totalGas \<Rightarrow> totalGas))"

definition SubOverTime :: "64 word \<Rightarrow> 64 word \<Rightarrow> 64 word \<Rightarrow> 64 word" where
  "SubOverTime g gasRate duration =
     (case math_Mul gasRate duration of
        Inl err \<Rightarrow> 0
      | Inr gasToRemove \<Rightarrow>
          (case math_Sub g gasToRemove of
             Inl err \<Rightarrow> 0
           | Inr totalGas \<Rightarrow> totalGas))"

section \<open>The gas state\<close>

record gas_State =
  gs_Capacity :: "64 word"
  gs_Excess :: "64 word"

definition gas_AdvanceTime :: "gas_State \<Rightarrow> 64 word \<Rightarrow> 64 word \<Rightarrow> 64 word \<Rightarrow> 64 word \<Rightarrow> gas_State" where
  "gas_AdvanceTime s maxCapacity capacityRate targetRate duration =
     \<lparr>gs_Capacity = min (AddOverTime (gs_Capacity s) capacityRate duration) maxCapacity,
      gs_Excess = SubOverTime (gs_Excess s) targetRate duration\<rparr>"

datatype gas_error = ErrInsufficientCapacity

definition ConsumeGas :: "gas_State \<Rightarrow> 64 word \<Rightarrow> gas_error + gas_State" where
  "ConsumeGas s gas =
     (case math_Sub (gs_Capacity s) gas of
        Inl err \<Rightarrow> Inl ErrInsufficientCapacity
      | Inr newCapacity \<Rightarrow>
          (case math_Add (gs_Excess s) gas of
             Inl err \<Rightarrow> Inr \<lparr>gs_Capacity = newCapacity, gs_Excess = MaxUint\<rparr>
           | Inr newExcess \<Rightarrow> Inr \<lparr>gs_Capacity = newCapacity, gs_Excess = newExcess\<rparr>))"

section \<open>Dimensions\<close>

text \<open>An array of four amounts is a list; a method returns the array it has computed so far with an error.\<close>

type_synonym Dimensions = "64 word list"

definition NumDimensions :: nat where
  "NumDimensions = 4"

fun dimensions_loop ::
  "(64 word \<Rightarrow> 64 word \<Rightarrow> math_error + 64 word) \<Rightarrow> Dimensions \<Rightarrow> nat list \<Rightarrow> Dimensions \<Rightarrow> Dimensions \<times> math_error option" where
  "dimensions_loop op o' [] d = (d, None)"
| "dimensions_loop op o' (i # rest) d =
     (case op (d ! i) (o' ! i) of
        Inl err \<Rightarrow> (d[i := 0], Some err)
      | Inr v \<Rightarrow> dimensions_loop op o' rest (d[i := v]))"

fun dimensions_all ::
  "(64 word \<Rightarrow> 64 word \<Rightarrow> math_error + 64 word) \<Rightarrow> Dimensions list \<Rightarrow> Dimensions \<Rightarrow> Dimensions \<times> math_error option" where
  "dimensions_all op [] d = (d, None)"
| "dimensions_all op (o' # os) d =
     (let (d, err) = dimensions_loop op o' [0..<NumDimensions] d in
      if err \<noteq> None then (d, err) else dimensions_all op os d)"

definition Dimensions_Add :: "Dimensions \<Rightarrow> Dimensions list \<Rightarrow> Dimensions \<times> math_error option" where
  "Dimensions_Add d os = dimensions_all math_Add os d"

definition Dimensions_Sub :: "Dimensions \<Rightarrow> Dimensions list \<Rightarrow> Dimensions \<times> math_error option" where
  "Dimensions_Sub d os = dimensions_all math_Sub os d"

fun to_gas_loop :: "Dimensions \<Rightarrow> Dimensions \<Rightarrow> nat list \<Rightarrow> 64 word \<Rightarrow> math_error + 64 word" where
  "to_gas_loop d weights [] res = Inr res"
| "to_gas_loop d weights (i # rest) res =
     (case math_Mul (d ! i) (weights ! i) of
        Inl err \<Rightarrow> Inl err
      | Inr v \<Rightarrow>
          (case math_Add res v of
             Inl err \<Rightarrow> Inl err
           | Inr res \<Rightarrow> to_gas_loop d weights rest res))"

definition ToGas :: "Dimensions \<Rightarrow> Dimensions \<Rightarrow> math_error + 64 word" where
  "ToGas d weights = to_gas_loop d weights [0..<NumDimensions] 0"

section \<open>The price\<close>

record 'u uint256 =
  u_zero :: 'u
  u_SetOne :: 'u
  u_SetUint64 :: "64 word \<Rightarrow> 'u"
  u_Uint64 :: "'u \<Rightarrow> 64 word"
  u_Add :: "'u \<Rightarrow> 'u \<Rightarrow> 'u"
  u_AddUint64 :: "'u \<Rightarrow> 64 word \<Rightarrow> 'u"
  u_Mul :: "'u \<Rightarrow> 'u \<Rightarrow> 'u"
  u_Div :: "'u \<Rightarrow> 'u \<Rightarrow> 'u"
  u_Sign :: "'u \<Rightarrow> int"
  u_Cmp :: "'u \<Rightarrow> 'u \<Rightarrow> int"

partial_function (option) price_loop ::
  "'u uint256 \<Rightarrow> 'u \<Rightarrow> 'u \<Rightarrow> 'u \<Rightarrow> 'u \<Rightarrow> 'u \<Rightarrow> 'u \<Rightarrow> 64 word option" where
  "price_loop U numerator denominator maxOutput i out numeratorAccum =
     (if u_Sign U numeratorAccum > 0 then
        let out = u_Add U out numeratorAccum in
        if u_Cmp U out maxOutput \<ge> 0 then Some MaxUint
        else
          let numeratorAccum = u_Mul U numeratorAccum numerator;
              numeratorAccum = u_Div U numeratorAccum denominator;
              numeratorAccum = u_Div U numeratorAccum i;
              i = u_AddUint64 U i 1 in
          price_loop U numerator denominator maxOutput i out numeratorAccum
      else Some (u_Uint64 U (u_Div U out denominator)))"

definition CalculatePrice :: "'u uint256 \<Rightarrow> 64 word \<Rightarrow> 64 word \<Rightarrow> 64 word \<Rightarrow> 64 word option" where
  "CalculatePrice U minPrice excess excessConversionConstant =
     (let numerator = u_SetUint64 U excess;
          denominator = u_SetUint64 U excessConversionConstant;
          i = u_SetOne U;
          out = u_zero U;
          numeratorAccum = u_SetUint64 U minPrice;
          numeratorAccum = u_Mul U numeratorAccum denominator;
          maxOutput = u_Mul U denominator (u_SetUint64 U MaxUint) in
      price_loop U numerator denominator maxOutput i out numeratorAccum)"

text \<open>The documented behaviour of \<open>uint256\<close>: \<open>val\<close> is the number that an object holds, arithmetic is modulo
  \<open>2 ^ 256\<close>, a division by zero gives zero, and \<open>Sign\<close> reads the number as a signed one.\<close>

definition uint256_laws :: "'u uint256 \<Rightarrow> ('u \<Rightarrow> nat) \<Rightarrow> bool" where
  "uint256_laws U val \<longleftrightarrow>
     val (u_zero U) = 0 \<and> val (u_SetOne U) = 1 \<and>
     (\<forall>x. val (u_SetUint64 U x) = unat x) \<and>
     (\<forall>a. u_Uint64 U a = word_of_nat (val a)) \<and>
     (\<forall>a b. val (u_Add U a b) = (val a + val b) mod 2 ^ 256) \<and>
     (\<forall>a x. val (u_AddUint64 U a x) = (val a + unat x) mod 2 ^ 256) \<and>
     (\<forall>a b. val (u_Mul U a b) = (val a * val b) mod 2 ^ 256) \<and>
     (\<forall>a b. val (u_Div U a b) = val a div val b) \<and>
     (\<forall>a. u_Sign U a = (if val a = 0 then 0 else if val a < 2 ^ 255 then 1 else -1)) \<and>
     (\<forall>a b. u_Cmp U a b = (if val a < val b then -1 else if val a = val b then 0 else 1))"

section \<open>Saturation\<close>

lemma unat64_le: "unat (x :: 64 word) \<le> 2 ^ 64 - 1"
  using unsigned_less [of x, where ?'a = nat] by simp

lemma math_Add_saturated:
  fixes a b :: "64 word"
  shows "unat (case math_Add a b of Inl err \<Rightarrow> MaxUint | Inr c \<Rightarrow> c) = min (2 ^ 64 - 1) (unat a + unat b)"
  using math_Add_cases [of a b]
proof (elim disjE exE conjE)
  fix c
  assume "math_Add a b = Inr c" "unat c = unat a + unat b"
  then show ?thesis using unat64_le [of c] by simp
qed (simp add: unat_MaxUint64)

lemma math_Mul_saturated:
  fixes a b :: "64 word"
  shows "unat (case math_Mul a b of Inl err \<Rightarrow> MaxUint | Inr c \<Rightarrow> c) = min (2 ^ 64 - 1) (unat a * unat b)"
  using math_Mul_cases [of a b]
proof (elim disjE exE conjE)
  fix c
  assume "math_Mul a b = Inr c" "unat c = unat a * unat b"
  then show ?thesis using unat64_le [of c] by simp
qed (simp add: unat_MaxUint64)

lemma AddOverTime_exact: "unat (AddOverTime g r d) = min (2 ^ 64 - 1) (unat g + unat r * unat d)"
  using math_Mul_cases [of r d]
proof (elim disjE exE conjE)
  fix c
  assume "math_Mul r d = Inr c" "unat c = unat r * unat d"
  then show ?thesis using math_Add_saturated [of g c] by (simp add: AddOverTime_def)
qed (simp add: AddOverTime_def unat_MaxUint64)

lemma SubOverTime_exact: "unat (SubOverTime g r d) = unat g - unat r * unat d"
  using math_Mul_cases [of r d]
proof (elim disjE exE conjE)
  fix c
  assume "math_Mul r d = Inr c" "unat c = unat r * unat d"
  then show ?thesis using math_Sub_cases [of g c] by (auto simp: SubOverTime_def)
next
  assume "math_Mul r d = Inl ErrOverflow" "2 ^ LENGTH(64) \<le> unat r * unat d"
  then show ?thesis using unsigned_less [of g, where ?'a = nat] by (simp add: SubOverTime_def)
qed

section \<open>Sums over the dimensions\<close>

lemma to_gas_loop_exact:
  "to_gas_loop d w is res =
     (if unat res + (\<Sum>i \<leftarrow> is. unat (d ! i) * unat (w ! i)) < 2 ^ 64
      then Inr (word_of_nat (unat res + (\<Sum>i \<leftarrow> is. unat (d ! i) * unat (w ! i)))) else Inl ErrOverflow)"
proof (induction "is" arbitrary: res)
  case Nil
  then show ?case using unsigned_less [of res, where ?'a = nat] by simp
next
  case (Cons i js)
  from math_Mul_cases [of "d ! i" "w ! i"] show ?case
  proof (elim disjE exE conjE)
    fix v
    assume v: "math_Mul (d ! i) (w ! i) = Inr v" "unat v = unat (d ! i) * unat (w ! i)"
    from math_Add_cases [of res v] show ?thesis
    proof (elim disjE exE conjE)
      fix r
      assume "math_Add res v = Inr r" "unat r = unat res + unat v"
      with v show ?thesis by (simp add: Cons [of r] add.assoc del: of_nat_add)
    qed (use v in simp)
  qed simp
qed

lemma ToGas_exact:
  "ToGas d w =
     (if (\<Sum>i < NumDimensions. unat (d ! i) * unat (w ! i)) < 2 ^ 64
      then Inr (word_of_nat (\<Sum>i < NumDimensions. unat (d ! i) * unat (w ! i))) else Inl ErrOverflow)"
proof -
  have "(\<Sum>i \<leftarrow> [0..<n]. f i) = (\<Sum>i < n. f i)" for f :: "nat \<Rightarrow> nat" and n
    by (simp add: interv_sum_list_conv_sum_set_nat atLeast0LessThan)
  then show ?thesis by (simp add: ToGas_def to_gas_loop_exact del: of_nat_sum)
qed

lemma dimensions_loop_Add:
  assumes "distinct is" "\<forall>i \<in> set is. i < length d"
  shows "case dimensions_loop math_Add o' is d of (d', err) \<Rightarrow> length d' = length d \<and>
    (if \<forall>i \<in> set is. unat (d ! i) + unat (o' ! i) < 2 ^ 64
     then err = None \<and> (\<forall>i. unat (d' ! i) = unat (d ! i) + (if i \<in> set is then unat (o' ! i) else 0))
     else err = Some ErrOverflow)"
  using assms
proof (induction "is" arbitrary: d)
  case (Cons i js)
  from math_Add_cases [of "d ! i" "o' ! i"] show ?case
  proof (elim disjE exE conjE)
    fix v
    assume v: "math_Add (d ! i) (o' ! i) = Inr v" "unat v = unat (d ! i) + unat (o' ! i)"
    have lt: "unat (d ! i) + unat (o' ! i) < 2 ^ 64" using v(2) unat64_le [of v] by simp
    have nth: "d[i := v] ! j = (if j = i then v else d ! j)" for j using Cons.prems(2) by simp
    from Cons.IH [of "d[i := v]"] Cons.prems v lt show ?thesis
      by (auto simp: nth split: prod.splits if_splits)
  qed auto
qed simp

lemma Dimensions_Add_exact:
  assumes "length d = NumDimensions"
  shows "case Dimensions_Add d os of (d', err) \<Rightarrow>
    (if \<forall>i < NumDimensions. unat (d ! i) + (\<Sum>o' \<leftarrow> os. unat (o' ! i)) < 2 ^ 64
     then err = None \<and> (\<forall>i < NumDimensions. unat (d' ! i) = unat (d ! i) + (\<Sum>o' \<leftarrow> os. unat (o' ! i)))
     else err = Some ErrOverflow)"
  unfolding Dimensions_Add_def using assms
proof (induction os arbitrary: d)
  case Nil
  have "unat x < 2 ^ 64" for x :: "64 word" using unsigned_less [of x, where ?'a = nat] by simp
  then show ?case by simp
next
  case (Cons o' os)
  obtain d1 err where 1: "dimensions_loop math_Add o' [0..<NumDimensions] d = (d1, err)" by fastforce
  from dimensions_loop_Add [of "[0..<NumDimensions]" d o'] 1 Cons.prems have l: "length d1 = NumDimensions"
    and e: "if \<forall>i < NumDimensions. unat (d ! i) + unat (o' ! i) < 2 ^ 64
     then err = None \<and> (\<forall>i < NumDimensions. unat (d1 ! i) = unat (d ! i) + unat (o' ! i)) else err = Some ErrOverflow"
    by (auto split: if_splits)
  show ?case
  proof (cases "\<forall>i < NumDimensions. unat (d ! i) + unat (o' ! i) < 2 ^ 64")
    case True
    with e have "err = None" "\<forall>i < NumDimensions. unat (d1 ! i) = unat (d ! i) + unat (o' ! i)" by simp_all
    with Cons.IH [OF l] 1 show ?thesis by (auto simp: add.assoc split: prod.splits if_splits)
  next
    case False
    then obtain i where "i < NumDimensions" "\<not> unat (d ! i) + unat (o' ! i) < 2 ^ 64" by blast
    then have "\<not> unat (d ! i) + (\<Sum>o' \<leftarrow> o' # os. unat (o' ! i)) < 2 ^ 64" by simp
    with \<open>i < NumDimensions\<close> e False 1 show ?thesis by auto
  qed
qed

section \<open>The exponential\<close>

text \<open>The terms of the series and their sum, as in EIP-4844 over unbounded numbers.\<close>

primrec exp_term :: "nat \<Rightarrow> nat \<Rightarrow> nat \<Rightarrow> nat \<Rightarrow> nat" where
  "exp_term f num den 0 = f * den"
| "exp_term f num den (Suc k) = exp_term f num den k * num div (den * Suc k)"

definition fake_exponential :: "nat \<Rightarrow> nat \<Rightarrow> nat \<Rightarrow> nat" where
  "fake_exponential f num den = (\<Sum>k | exp_term f num den k \<noteq> 0. exp_term f num den k) div den"

lemma exp_term_zero: "exp_term f num den k = 0 \<Longrightarrow> k \<le> j \<Longrightarrow> exp_term f num den j = 0"
  by (induction j) (auto simp: le_Suc_eq)

lemma exp_term_vanishes: "\<exists>k. exp_term f num den k = 0"
proof (cases "den = 0")
  case False
  have "exp_term f num den (num + j) \<le> exp_term f num den num - j" for j
  proof (induction j)
    case (Suc j)
    let ?t = "exp_term f num den (num + j)"
    have "?t * num div (den * Suc (num + j)) \<le> ?t - 1"
    proof (cases "?t = 0")
      case t: False
      have "1 * num < den * Suc (num + j)" using False by (intro mult_le_less_imp_less) auto
      then have "?t * num < ?t * (den * Suc (num + j))" using t by simp
      then have "?t * num div (den * Suc (num + j)) < ?t" using False by (simp add: div_less_iff_less_mult del: mult_Suc_right)
      then show ?thesis by linarith
    qed simp
    then show ?case using Suc by simp
  qed simp
  then have "exp_term f num den (num + exp_term f num den num) = 0" by (metis diff_self_eq_0 le_zero_eq)
  then show ?thesis ..
qed (auto intro: exI [of _ 0])

definition exp_length :: "nat \<Rightarrow> nat \<Rightarrow> nat \<Rightarrow> nat" where
  "exp_length f num den = (LEAST k. exp_term f num den k = 0)"

lemma exp_length: "exp_term f num den k = 0 \<longleftrightarrow> exp_length f num den \<le> k"
  unfolding exp_length_def using exp_term_vanishes [of f num den] exp_term_zero
  by (metis (mono_tags, lifting) LeastI_ex Least_le)

lemma fake_exponential_sum: "fake_exponential f num den = (\<Sum>k < exp_length f num den. exp_term f num den k) div den"
proof -
  have "{k. exp_term f num den k \<noteq> 0} = {..<exp_length f num den}" by (auto simp: exp_length)
  then show ?thesis by (simp only: fake_exponential_def)
qed

lemma sum_terms_ge: "k \<le> exp_length f num den \<Longrightarrow> k \<le> (\<Sum>j < k. exp_term f num den j)"
proof (induction k)
  case (Suc k)
  then have "exp_term f num den k \<noteq> 0" by (simp add: exp_length)
  with Suc show ?case by simp
qed simp

lemma uint256_lawsD:
  assumes "uint256_laws U val"
  shows "val (u_zero U) = 0" "val (u_SetOne U) = 1" "val (u_SetUint64 U x) = unat x" "u_Uint64 U a = word_of_nat (val a)"
    "val (u_Add U a b) = (val a + val b) mod 2 ^ 256" "val (u_AddUint64 U a x) = (val a + unat x) mod 2 ^ 256"
    "val (u_Mul U a b) = (val a * val b) mod 2 ^ 256" "val (u_Div U a b) = val a div val b"
    "u_Sign U a = (if val a = 0 then 0 else if val a < 2 ^ 255 then 1 else -1)"
    "u_Cmp U a b = (if val a < val b then -1 else if val a = val b then 0 else 1)"
  using assms unfolding uint256_laws_def by blast+

text \<open>One iteration: the state of the loop after \<open>k\<close> iterations, and that nothing exceeds 193 bits.\<close>

definition price_state :: "('u \<Rightarrow> nat) \<Rightarrow> nat \<Rightarrow> nat \<Rightarrow> nat \<Rightarrow> nat \<Rightarrow> 'u \<Rightarrow> 'u \<Rightarrow> 'u \<Rightarrow> bool" where
  "price_state val f num den k i out acc \<longleftrightarrow>
     val i = Suc k \<and> val out = (\<Sum>j < k. exp_term f num den j) \<and> val acc = exp_term f num den k \<and>
     val out \<le> den * (2 ^ 64 - 1) \<and> val acc < 2 ^ 192"

lemma price_step:
  assumes U: "uint256_laws U val" and st: "price_state val f num den k i out acc"
    and k: "k < exp_length f num den" and num: "val n = num" "num < 2 ^ 64" and den: "val d = den" "den < 2 ^ 64"
  shows "u_Sign U acc > 0" "val (u_Add U out acc) = (\<Sum>j < Suc k. exp_term f num den j)"
    "val (u_Add U out acc) < den * (2 ^ 64 - 1) \<Longrightarrow>
       price_state val f num den (Suc k) (u_AddUint64 U i 1) (u_Add U out acc) (u_Div U (u_Div U (u_Mul U acc n) d) i)"
proof -
  note [simp] = uint256_lawsD [OF U]
  have st': "val i = Suc k" "val out = (\<Sum>j < k. exp_term f num den j)" "val acc = exp_term f num den k"
    "val out \<le> den * (2 ^ 64 - 1)" "val acc < 2 ^ 192"
    using st by (auto simp: price_state_def)
  have d64: "den * (2 ^ 64 - 1) < 2 ^ 128" using den(2) by simp
  have "exp_term f num den k \<noteq> 0" using k by (simp add: exp_length)
  then show "u_Sign U acc > 0" using st'(3,5) by simp
  have "val out + val acc < 2 ^ 256" using st'(4,5) d64 by simp
  then show sum: "val (u_Add U out acc) = (\<Sum>j < Suc k. exp_term f num den j)"
    using st'(2,3) by simp
  assume lt: "val (u_Add U out acc) < den * (2 ^ 64 - 1)"
  have acc: "val acc < 2 ^ 128" using lt d64 sum st'(3) by simp
  have "val acc * num < 2 ^ 128 * 2 ^ 64" using acc num(2) by (intro mult_strict_mono) auto
  then have m: "val acc * num < 2 ^ 192" by (simp flip: power_add)
  have "Suc k \<le> (\<Sum>j < Suc k. exp_term f num den j)" using k by (intro sum_terms_ge) simp
  then have "Suc k < 2 ^ 128" using lt d64 sum by simp
  then have "val (u_AddUint64 U i 1) = Suc (Suc k)" using st'(1) by simp
  moreover have "val (u_Div U (u_Div U (u_Mul U acc n) d) i) = exp_term f num den (Suc k)"
    using m st'(1,3) num(1) den(1) by (simp add: div_mult2_eq del: mult_Suc_right)
  moreover have "\<dots> < 2 ^ 192" using m st'(3) by (simp add: le_less_trans [OF div_le_dividend] del: mult_Suc_right)
  ultimately show "price_state val f num den (Suc k) (u_AddUint64 U i 1) (u_Add U out acc) (u_Div U (u_Div U (u_Mul U acc n) d) i)"
    using sum lt unfolding price_state_def by simp
qed

lemma price_loop_exact:
  assumes U: "uint256_laws U val" and num: "val n = num" "num < 2 ^ 64" and den: "val d = den" "den < 2 ^ 64"
    and mo: "val mo = den * (2 ^ 64 - 1)"
    and st: "price_state val f num den k i out acc" "k \<le> exp_length f num den"
  shows "\<exists>p. price_loop U n d mo i out acc = Some p \<and> unat p = min (2 ^ 64 - 1) (fake_exponential f num den)"
  using st
proof (induction "exp_length f num den - k" arbitrary: k i out acc)
  case 0
  note [simp] = uint256_lawsD [OF U]
  have k: "k = exp_length f num den" using 0 by simp
  then have acc: "val acc = 0" and out: "val out = (\<Sum>j < exp_length f num den. exp_term f num den j)"
    using 0(2) by (auto simp: price_state_def exp_length)
  have "val out div den \<le> 2 ^ 64 - 1" using 0(2) div_le_mono [of "val out" "den * (2 ^ 64 - 1)" den]
    by (cases "den = 0") (simp_all add: price_state_def)
  then have "unat (word_of_nat (val out div den) :: 64 word) = min (2 ^ 64 - 1) (val out div den)"
    by (simp add: unat_of_nat)
  with acc den(1) out show ?case by (subst price_loop.simps) (simp add: fake_exponential_sum)
next
  case (Suc x)
  then have k: "k < exp_length f num den" by simp
  note step = price_step [OF U Suc.prems(1) k num den]
  show ?case
  proof (cases "val (u_Add U out acc) < den * (2 ^ 64 - 1)")
    case True
    then have "\<not> u_Cmp U (u_Add U out acc) mo \<ge> 0" using uint256_lawsD(10) [OF U] mo by simp
    with Suc.hyps(1) [OF _ step(3) [OF True]] Suc.hyps(2) k step(1) show ?thesis
      by (subst price_loop.simps) (simp add: Let_def)
  next
    case False
    then have "u_Cmp U (u_Add U out acc) mo \<ge> 0" using uint256_lawsD(10) [OF U] mo by simp
    then have r: "price_loop U n d mo i out acc = Some MaxUint" using step(1) by (subst price_loop.simps) (simp add: Let_def)
    have "exp_term f num den 0 \<noteq> 0" using k exp_length [of f num den 0] by simp
    then have d0: "0 < den" by simp
    have "val (u_Add U out acc) \<le> (\<Sum>j < exp_length f num den. exp_term f num den j)"
      unfolding step(2) using k by (intro sum_mono2) auto
    then have "den * (2 ^ 64 - 1) \<le> (\<Sum>j < exp_length f num den. exp_term f num den j)" using False by linarith
    then have "2 ^ 64 - 1 \<le> fake_exponential f num den"
      unfolding fake_exponential_sum using d0 by (simp add: less_eq_div_iff_mult_less_eq mult.commute)
    then show ?thesis using r unat_MaxUint64 by simp
  qed
qed

lemma CalculatePrice_exact:
  assumes U: "uint256_laws U val"
  shows "\<exists>p. CalculatePrice U f e K = Some p \<and> unat p = min (2 ^ 64 - 1) (fake_exponential (unat f) (unat e) (unat K))"
proof -
  note [simp] = uint256_lawsD [OF U]
  have lt: "unat x < 2 ^ 64" for x :: "64 word" using unsigned_less [of x, where ?'a = nat] by simp
  have "unat f * unat K < 2 ^ 64 * 2 ^ 64" by (intro mult_strict_mono lt) auto
  then have m: "unat f * unat K < 2 ^ 128" by (simp flip: power_add)
  have "unat K * (2 ^ 64 - 1) < 2 ^ 128" using lt [of K] by simp
  then have mo: "val (u_Mul U (u_SetUint64 U K) (u_SetUint64 U MaxUint)) = unat K * (2 ^ 64 - 1)"
    by (simp add: unat_MaxUint64)
  have "price_state val (unat f) (unat e) (unat K) 0 (u_SetOne U) (u_zero U) (u_Mul U (u_SetUint64 U f) (u_SetUint64 U K))"
    using m by (simp add: price_state_def)
  from price_loop_exact [OF U _ lt [of e] _ lt [of K] mo this] show ?thesis by (simp add: CalculatePrice_def Let_def)
qed

lemma fake_exponential_simps:
  "fake_exponential 0 num den = 0"
  "0 < den \<Longrightarrow> fake_exponential f 0 den = f"
  "0 < den \<Longrightarrow> f \<le> fake_exponential f num den"
proof -
  have "exp_length 0 num den = 0" using exp_length [of 0 num den 0] by simp
  then show "fake_exponential 0 num den = 0" by (simp add: fake_exponential_sum)
  assume den: "0 < den"
  have "exp_length f 0 den \<le> 1" using exp_length [of f 0 den 1] by simp
  moreover have "f = 0" if "exp_length f 0 den = 0" using exp_length [of f 0 den 0] that den by simp
  ultimately show "fake_exponential f 0 den = f" using den
    by (cases "exp_length f 0 den") (auto simp: fake_exponential_sum)
  show "f \<le> fake_exponential f num den"
  proof (cases "exp_length f num den")
    case 0
    then show ?thesis using exp_length [of f num den 0] den by simp
  next
    case (Suc k)
    then have "exp_term f num den 0 \<le> (\<Sum>k < exp_length f num den. exp_term f num den k)" by (intro member_le_sum) auto
    then show ?thesis using den by (simp add: fake_exponential_sum less_eq_div_iff_mult_less_eq)
  qed
qed

section \<open>Theorems\<close>

text \<open>C26. The gas price is the capped exponential.  The loop ends for all arguments, no intermediate value leaves 256 bits, and the price is the EIP-4844 series over unbounded
  numbers, cut off at the largest 64-bit number; it is at least the minimum price and equal to it without excess,
  provided that the conversion constant is not zero.\<close>

theorem gas_price_exact:
  assumes "uint256_laws U val"
  shows "\<exists>p. CalculatePrice U minPrice excess K = Some p \<and>
    unat p = min (2 ^ 64 - 1) (fake_exponential (unat minPrice) (unat excess) (unat K)) \<and>
    (if K = 0 then p = 0 else minPrice \<le> p \<and> (if excess = 0 then p = minPrice else True))"
proof -
  obtain p where p: "CalculatePrice U minPrice excess K = Some p"
    "unat p = min (2 ^ 64 - 1) (fake_exponential (unat minPrice) (unat excess) (unat K))"
    using CalculatePrice_exact [OF assms] by blast
  note m = unat64_le [of minPrice]
  have "if K = 0 then p = 0 else minPrice \<le> p \<and> (if excess = 0 then p = minPrice else True)"
  proof (cases "K = 0")
    case True
    then have "unat p = 0" using p(2) by (simp add: fake_exponential_def)
    then show ?thesis using True by (simp add: unat_eq_0)
  next
    case False
    then have "0 < unat K" by (simp add: unat_gt_0)
    note fe = fake_exponential_simps(2,3) [OF this]
    have "minPrice \<le> p" using p(2) m fe(2) [of "unat minPrice" "unat excess"] by (simp add: word_le_nat_alt)
    moreover have "p = minPrice" if "excess = 0" using p(2) m fe(1) [of "unat minPrice"] that by (simp add: word_unat_eq_iff)
    ultimately show ?thesis using False by simp
  qed
  with p show ?thesis by blast
qed

text \<open>The operations of \<open>uint256\<close> on words.\<close>

definition word256 :: "256 word uint256" where
  "word256 = \<lparr>u_zero = 0, u_SetOne = 1, u_SetUint64 = ucast, u_Uint64 = ucast, u_Add = (+), u_AddUint64 = (\<lambda>a x. a + ucast x),
     u_Mul = (*), u_Div = (\<lambda>a b. a div b), u_Sign = (\<lambda>a. if a = 0 then 0 else if unat a < 2 ^ 255 then 1 else -1),
     u_Cmp = (\<lambda>a b. if a < b then -1 else if a = b then 0 else 1)\<rparr>"

lemma word256_laws: "uint256_laws word256 unat"
proof -
  have up: "unat (ucast x :: 256 word) = unat x" for x :: "64 word"
    using unsigned_less [of x, where ?'a = nat] by (simp add: unsigned_ucast_eq take_bit_nat_eq_self)
  show ?thesis
    unfolding uint256_laws_def word256_def
    by (simp add: up unat_word_ariths(1,2) unat_div word_less_nat_alt word_unat_eq_iff)
qed

theorem gas_price_exact_witness:
  "\<exists>p. CalculatePrice word256 7 0 5 = Some p \<and> unat p = 7 \<and> 7 \<le> p"
  using gas_price_exact [OF word256_laws, of 7 0 5] by auto

text \<open>C28. The gas state saturates and never wraps.  Advancing the time adds to the capacity up to its cap and subtracts from the excess down to zero, and advancing twice is advancing by
  the sum of the durations; consuming gas fails exactly beyond the capacity, and otherwise moves the amount from the
  capacity to the excess, which is cut off at the largest 64-bit number.\<close>

theorem gas_state_exact:
  "unat (gs_Capacity (gas_AdvanceTime s M c t d)) = min (unat M) (unat (gs_Capacity s) + unat c * unat d) \<and>
   unat (gs_Excess (gas_AdvanceTime s M c t d)) = unat (gs_Excess s) - unat t * unat d \<and>
   (unat d + unat d' < 2 ^ 64 \<longrightarrow>
      gas_AdvanceTime (gas_AdvanceTime s M c t d) M c t d' = gas_AdvanceTime s M c t (d + d')) \<and>
   ConsumeGas s g =
     (if unat g \<le> unat (gs_Capacity s)
      then Inr \<lparr>gs_Capacity = gs_Capacity s - g, gs_Excess = word_of_nat (min (2 ^ 64 - 1) (unat (gs_Excess s) + unat g))\<rparr>
      else Inl ErrInsufficientCapacity)"
proof -
  have min: "unat (min a b) = min (unat a) (unat b)" for a b :: "64 word" by (simp add: min_def word_le_nat_alt)
  have cap: "unat (gs_Capacity (gas_AdvanceTime s M c t d)) = min (unat M) (unat (gs_Capacity s) + unat c * unat d)" for s d
    using unat64_le [of M] by (simp add: gas_AdvanceTime_def min AddOverTime_exact)
  have exc: "unat (gs_Excess (gas_AdvanceTime s M c t d)) = unat (gs_Excess s) - unat t * unat d" for s d
    by (simp add: gas_AdvanceTime_def SubOverTime_exact)
  have "gas_AdvanceTime (gas_AdvanceTime s M c t d) M c t d' = gas_AdvanceTime s M c t (d + d')" if "unat d + unat d' < 2 ^ 64"
  proof -
    have "unat (d + d') = unat d + unat d'" using that by (simp add: unat_word_ariths)
    then show ?thesis by (intro gas_State.equality) (simp_all add: word_unat_eq_iff cap exc algebra_simps)
  qed
  moreover have "ConsumeGas s g =
     (if unat g \<le> unat (gs_Capacity s)
      then Inr \<lparr>gs_Capacity = gs_Capacity s - g, gs_Excess = word_of_nat (min (2 ^ 64 - 1) (unat (gs_Excess s) + unat g))\<rparr>
      else Inl ErrInsufficientCapacity)"
    using math_Add_cases [of "gs_Excess s" g]
  proof (elim disjE exE conjE)
    fix e
    assume e: "math_Add (gs_Excess s) g = Inr e" "unat e = unat (gs_Excess s) + unat g"
    then have "e = word_of_nat (min (2 ^ 64 - 1) (unat (gs_Excess s) + unat g))"
      using unat64_le [of e] by (simp only: min_absorb2 flip: e(2)) simp
    then show ?thesis using e(1) by (simp add: ConsumeGas_def math_Sub_def word_less_nat_alt)
  qed (simp add: ConsumeGas_def math_Sub_def word_less_nat_alt word_unat_eq_iff unat_MaxUint64 unat_of_nat)
  ultimately show ?thesis using cap exc by blast
qed

theorem gas_state_exact_witness:
  "gas_AdvanceTime (gas_AdvanceTime \<lparr>gs_Capacity = 1, gs_Excess = 9\<rparr> 100 10 2 3) 100 10 2 4 =
   gas_AdvanceTime \<lparr>gs_Capacity = 1, gs_Excess = 9\<rparr> 100 10 2 7"
  using gas_state_exact [of "\<lparr>gs_Capacity = 1, gs_Excess = 9\<rparr>" 100 10 2 3 4 0] by simp

end
