(* ===== verification/Validator_Fee.thy ===== *)
theory Validator_Fee
  imports Gas "HOL-Library.Monad_Syntax"
begin

text \<open>
  \<open>vms/platformvm/validators/fee/fee.go\<close>: the continuous fee of a validator.  The fee of a second depends on the excess
  after that second, and both loops stop early when the excess has reached zero.  A division by zero is a panic, \<open>None\<close>.
\<close>

record fee_Config =
  fc_Capacity :: "64 word"
  fc_Target :: "64 word"
  fc_MinPrice :: "64 word"
  fc_ExcessConversionConstant :: "64 word"

record fee_State =
  fs_Current :: "64 word"
  fs_Excess :: "64 word"

definition fee_AdvanceTime :: "fee_State \<Rightarrow> 64 word \<Rightarrow> 64 word \<Rightarrow> fee_State" where
  "fee_AdvanceTime s target seconds =
     (let excess = fs_Excess s;
          excess = (if fs_Current s < target then SubOverTime excess (target - fs_Current s) seconds
                    else if fs_Current s > target then AddOverTime excess (fs_Current s - target) seconds
                    else excess) in
      \<lparr>fs_Current = fs_Current s, fs_Excess = excess\<rparr>)"

partial_function (option) cost_loop ::
  "'u uint256 \<Rightarrow> fee_Config \<Rightarrow> 64 word \<Rightarrow> 64 word \<Rightarrow> fee_State \<Rightarrow> 64 word \<Rightarrow> 64 word option" where
  "cost_loop U c seconds i s cost =
     (if i < seconds then
        let s = fee_AdvanceTime s (fc_Target c) 1 in
        if fs_Excess s = 0 then
          let secondsWithZeroExcess = seconds - i in
          (case math_Mul (fc_MinPrice c) secondsWithZeroExcess of
             Inl err \<Rightarrow> Some MaxUint
           | Inr zeroExcessCost \<Rightarrow>
               (case math_Add cost zeroExcessCost of
                  Inl err \<Rightarrow> Some MaxUint
                | Inr cost \<Rightarrow> Some cost))
        else do {
          price \<leftarrow> CalculatePrice U (fc_MinPrice c) (fs_Excess s) (fc_ExcessConversionConstant c);
          (case math_Add cost price of
             Inl err \<Rightarrow> Some MaxUint
           | Inr cost \<Rightarrow> cost_loop U c seconds (i + 1) s cost)
        }
      else Some cost)"

definition CostOf :: "'u uint256 \<Rightarrow> fee_State \<Rightarrow> fee_Config \<Rightarrow> 64 word \<Rightarrow> 64 word option" where
  "CostOf U s c seconds =
     (if fs_Current s = fc_Target c then do {
        price \<leftarrow> CalculatePrice U (fc_MinPrice c) (fs_Excess s) (fc_ExcessConversionConstant c);
        Some (case math_Mul seconds price of
                Inl err \<Rightarrow> MaxUint
              | Inr cost \<Rightarrow> cost)
      }
      else cost_loop U c seconds 0 s 0)"

partial_function (option) seconds_loop ::
  "'u uint256 \<Rightarrow> fee_Config \<Rightarrow> 64 word \<Rightarrow> 64 word \<Rightarrow> fee_State \<Rightarrow> 64 word \<Rightarrow> 64 word option" where
  "seconds_loop U c maxSeconds seconds s fundsRemaining =
     (if seconds < maxSeconds then
        let s = fee_AdvanceTime s (fc_Target c) 1 in
        if fs_Excess s = 0 then
          if fc_MinPrice c = 0 then None
          else
            let secondsWithZeroExcess = fundsRemaining div fc_MinPrice c in
            (case math_Add seconds secondsWithZeroExcess of
               Inl err \<Rightarrow> Some maxSeconds
             | Inr totalSeconds \<Rightarrow> Some (min totalSeconds maxSeconds))
        else do {
          price \<leftarrow> CalculatePrice U (fc_MinPrice c) (fs_Excess s) (fc_ExcessConversionConstant c);
          if price > fundsRemaining then Some seconds
          else seconds_loop U c maxSeconds (seconds + 1) s (fundsRemaining - price)
        }
      else Some maxSeconds)"

definition SecondsRemaining :: "'u uint256 \<Rightarrow> fee_State \<Rightarrow> fee_Config \<Rightarrow> 64 word \<Rightarrow> 64 word \<Rightarrow> 64 word option" where
  "SecondsRemaining U s c maxSeconds fundsRemaining =
     (if fc_MinPrice c = 0 then Some maxSeconds
      else if fs_Current s = fc_Target c then do {
        price \<leftarrow> CalculatePrice U (fc_MinPrice c) (fs_Excess s) (fc_ExcessConversionConstant c);
        if price = 0 then None
        else Some (min (fundsRemaining div price) maxSeconds)
      }
      else seconds_loop U c maxSeconds 0 s fundsRemaining)"

section \<open>The cost, second by second\<close>

text \<open>The excess after \<open>n\<close> seconds, the price of a second with a given excess, and the cost of \<open>n\<close> seconds over unbounded
  numbers.\<close>

definition excess_after :: "fee_Config \<Rightarrow> fee_State \<Rightarrow> nat \<Rightarrow> nat" where
  "excess_after c s n =
     (if fs_Current s < fc_Target c then unat (fs_Excess s) - (unat (fc_Target c) - unat (fs_Current s)) * n
      else min (2 ^ 64 - 1) (unat (fs_Excess s) + (unat (fs_Current s) - unat (fc_Target c)) * n))"

definition price_at :: "fee_Config \<Rightarrow> nat \<Rightarrow> nat" where
  "price_at c excess =
     min (2 ^ 64 - 1) (fake_exponential (unat (fc_MinPrice c)) excess (unat (fc_ExcessConversionConstant c)))"

definition cost_over :: "fee_Config \<Rightarrow> fee_State \<Rightarrow> nat \<Rightarrow> nat" where
  "cost_over c s n = (\<Sum>i < n. price_at c (excess_after c s (Suc i)))"

definition next_second :: "fee_Config \<Rightarrow> fee_State \<Rightarrow> fee_State" where
  "next_second c s = fee_AdvanceTime s (fc_Target c) 1"

lemma next_second_excess: "unat (fs_Excess (next_second c s)) = excess_after c s 1"
proof -
  have "unat (a - b) = unat a - unat b" if "b < a" for a b :: "64 word" using that by (simp add: unat_sub)
  then show ?thesis using unat64_le [of "fs_Excess s"]
    by (auto simp: next_second_def fee_AdvanceTime_def excess_after_def SubOverTime_exact AddOverTime_exact Let_def)
qed

lemma excess_after_next: "excess_after c (next_second c s) n = excess_after c s (Suc n)"
proof -
  have "fs_Current (next_second c s) = fs_Current s" by (simp add: next_second_def fee_AdvanceTime_def Let_def)
  moreover have "e - a * 1 - a * n = e - a * Suc n" "min m (min m (e + a * 1) + a * n) = min m (e + a * Suc n)" for a e m :: nat
    by (auto simp: min_def)
  ultimately show ?thesis unfolding excess_after_def next_second_excess by (simp only: if_split) presburger
qed

lemma cost_over_Suc:
  "cost_over c s (Suc n) = price_at c (unat (fs_Excess (next_second c s))) + cost_over c (next_second c s) n"
  unfolding cost_over_def by (simp only: sum.lessThan_Suc_shift excess_after_next next_second_excess comp_def One_nat_def)

lemma CalculatePrice_at:
  assumes "uint256_laws U val"
  shows "\<exists>p. CalculatePrice U (fc_MinPrice c) e (fc_ExcessConversionConstant c) = Some p \<and> unat p = price_at c (unat e)"
  using CalculatePrice_exact [OF assms] by (simp add: price_at_def)

text \<open>Without excess the price is the minimum for the rest of the time.\<close>

lemma cost_over_zero:
  assumes "fs_Excess (next_second c s) = 0" "fc_ExcessConversionConstant c \<noteq> 0"
  shows "cost_over c s n = n * unat (fc_MinPrice c)"
proof -
  have K: "0 < unat (fc_ExcessConversionConstant c)" using assms(2) by (simp add: unat_gt_0)
  have z: "excess_after c s 1 = 0" using next_second_excess [of c s] assms(1) by simp
  have "excess_after c s (Suc i) = 0" for i using z by (auto simp: excess_after_def split: if_splits)
  moreover have "price_at c 0 = unat (fc_MinPrice c)"
    using unat64_le [of "fc_MinPrice c"] by (simp add: price_at_def fake_exponential_simps(2) [OF K])
  ultimately show ?thesis by (simp add: cost_over_def)
qed

lemma cost_over_constant:
  assumes "fs_Current s = fc_Target c"
  shows "cost_over c s n = n * price_at c (unat (fs_Excess s))"
  using unat64_le [of "fs_Excess s"] by (simp add: cost_over_def excess_after_def assms)

section \<open>The loops\<close>

lemma word_diff_Suc:
  fixes i n :: "64 word"
  assumes "i < n"
  shows "unat (n - i) = Suc (unat (n - (i + 1)))" "i + 1 \<le> n" "unat (i + 1) = Suc (unat i)"
proof -
  have "unat i < unat n" using assms by (simp add: word_less_nat_alt)
  then show i: "unat (i + 1) = Suc (unat i)" using unat64_le [of n] by (simp add: unat_word_ariths)
  then show "i + 1 \<le> n" using assms by (simp add: word_le_nat_alt word_less_nat_alt)
  then show "unat (n - i) = Suc (unat (n - (i + 1)))" using i assms by (simp add: unat_sub word_le_nat_alt word_less_nat_alt)
qed

lemma cost_loop_exact:
  assumes U: "uint256_laws U val" and K: "fc_ExcessConversionConstant c \<noteq> 0" and i: "i \<le> seconds"
  shows "\<exists>r. cost_loop U c seconds i s cost = Some r \<and>
    unat r = min (2 ^ 64 - 1) (unat cost + cost_over c s (unat (seconds - i)))"
  using i
proof (induction "unat (seconds - i)" arbitrary: i s cost)
  case 0
  then have "seconds - i = 0" by (simp add: unat_eq_0)
  then have "i = seconds" by simp
  then show ?case using unat64_le [of cost] by (subst cost_loop.simps) (simp add: cost_over_def)
next
  case (Suc n)
  then have lt: "i < seconds" by (metis diff_self nat.distinct(1) order.not_eq_order_implies_strict unat_0)
  note w = word_diff_Suc [OF lt]
  let ?s = "next_second c s"
  show ?case
  proof (cases "fs_Excess ?s = 0")
    case True
    note z = cost_over_zero [OF True K, of "unat (seconds - i)"]
    have r: "cost_loop U c seconds i s cost =
        (case math_Mul (fc_MinPrice c) (seconds - i) of
           Inl err \<Rightarrow> Some MaxUint
         | Inr z \<Rightarrow> Some (case math_Add cost z of Inl err \<Rightarrow> MaxUint | Inr cost \<Rightarrow> cost))"
      using lt True by (subst cost_loop.simps) (simp add: next_second_def Let_def split: sum.split)
    from math_Mul_cases [of "fc_MinPrice c" "seconds - i"] show ?thesis
    proof (elim disjE exE conjE)
      fix p
      assume p: "math_Mul (fc_MinPrice c) (seconds - i) = Inr p" "unat p = unat (fc_MinPrice c) * unat (seconds - i)"
      then have "unat p = cost_over c s (unat (seconds - i))" using z by (simp add: mult.commute)
      with r p(1) math_Add_saturated [of cost p] show ?thesis by simp
    qed (use r z in \<open>simp add: unat_MaxUint64 mult.commute\<close>)
  next
    case False
    obtain p where p: "CalculatePrice U (fc_MinPrice c) (fs_Excess ?s) (fc_ExcessConversionConstant c) = Some p"
      "unat p = price_at c (unat (fs_Excess ?s))" using CalculatePrice_at [OF U] by blast
    have r: "cost_loop U c seconds i s cost =
        (case math_Add cost p of Inl err \<Rightarrow> Some MaxUint | Inr cost \<Rightarrow> cost_loop U c seconds (i + 1) ?s cost)"
      using lt False p(1) by (subst cost_loop.simps) (simp add: Let_def flip: next_second_def)
    have n: "n = unat (seconds - (i + 1))" using Suc.hyps(2) w(1) by simp
    have c: "cost_over c s (unat (seconds - i)) = unat p + cost_over c ?s (unat (seconds - (i + 1)))"
      by (simp only: w(1) cost_over_Suc p(2))
    from math_Add_cases [of cost p] show ?thesis
    proof (elim disjE exE conjE)
      fix q
      assume "math_Add cost p = Inr q" "unat q = unat cost + unat p"
      with r c Suc.hyps(1) [OF n w(2), of ?s q] show ?thesis by (simp add: add.assoc)
    qed (use r c in \<open>simp add: unat_MaxUint64\<close>)
  qed
qed

lemma CostOf_exact:
  assumes U: "uint256_laws U val" and K: "fc_ExcessConversionConstant c \<noteq> 0"
  shows "\<exists>r. CostOf U s c seconds = Some r \<and> unat r = min (2 ^ 64 - 1) (cost_over c s (unat seconds))"
proof (cases "fs_Current s = fc_Target c")
  case True
  obtain p where p: "CalculatePrice U (fc_MinPrice c) (fs_Excess s) (fc_ExcessConversionConstant c) = Some p"
    "unat p = price_at c (unat (fs_Excess s))" using CalculatePrice_at [OF U] by blast
  have "cost_over c s (unat seconds) = unat seconds * unat p" using cost_over_constant [OF True] p(2) by simp
  with True p(1) math_Mul_saturated [of seconds p] show ?thesis by (simp add: CostOf_def)
next
  case False
  with cost_loop_exact [OF U K, of 0 seconds s 0] show ?thesis by (simp add: CostOf_def)
qed

text \<open>\<open>m\<close> is the largest number of seconds, up to \<open>n\<close>, that the funds pay for.\<close>

definition affords :: "fee_Config \<Rightarrow> fee_State \<Rightarrow> nat \<Rightarrow> nat \<Rightarrow> nat \<Rightarrow> bool" where
  "affords c s n funds m \<longleftrightarrow> m \<le> n \<and> cost_over c s m \<le> funds \<and> (m < n \<longrightarrow> funds < cost_over c s (Suc m))"

lemma affords_linear:
  assumes "\<And>n. cost_over c s n = n * p" "0 < p"
  shows "affords c s n funds (min (funds div p) n)"
proof -
  have le: "k * p \<le> funds" if "k \<le> funds div p" for k
    using mult_le_mono1 [OF that, of p] div_times_less_eq_dividend [of funds p] by linarith
  have "funds < Suc (funds div p) * p" using assms(2) by (simp add: dividend_less_div_times add.commute)
  with le show ?thesis unfolding affords_def assms(1) by (auto simp: min_def simp del: mult_Suc)
qed

lemma affords_Suc:
  assumes "affords c (next_second c s) n (funds - p) m" "p \<le> funds" "p = price_at c (unat (fs_Excess (next_second c s)))"
  shows "affords c s (Suc n) funds (Suc m)"
  using assms by (auto simp: affords_def cost_over_Suc)

lemma seconds_loop_exact:
  assumes U: "uint256_laws U val" and K: "fc_ExcessConversionConstant c \<noteq> 0" and P: "fc_MinPrice c \<noteq> 0"
    and i: "i \<le> maxSeconds"
  shows "\<exists>r. seconds_loop U c maxSeconds i s funds = Some r \<and> i \<le> r \<and>
    affords c s (unat (maxSeconds - i)) (unat funds) (unat (r - i))"
  using i
proof (induction "unat (maxSeconds - i)" arbitrary: i s funds)
  case 0
  then have "maxSeconds - i = 0" by (simp add: unat_eq_0)
  then have "i = maxSeconds" by simp
  then show ?case by (subst seconds_loop.simps) (simp add: cost_over_def affords_def)
next
  case (Suc n)
  then have lt: "i < maxSeconds" by (metis diff_self nat.distinct(1) order.not_eq_order_implies_strict unat_0)
  note w = word_diff_Suc [OF lt]
  let ?s = "next_second c s"
  show ?case
  proof (cases "fs_Excess ?s = 0")
    case True
    let ?z = "funds div fc_MinPrice c"
    have r: "seconds_loop U c maxSeconds i s funds =
        (case math_Add i ?z of Inl err \<Rightarrow> Some maxSeconds | Inr t \<Rightarrow> Some (min t maxSeconds))"
      using lt True P by (subst seconds_loop.simps) (simp add: next_second_def Let_def)
    have z: "unat ?z = unat funds div unat (fc_MinPrice c)" by (simp add: unat_div)
    have sub: "unat (r - i) = unat r - unat i" if "i \<le> r" for r using that by (simp add: unat_sub)
    have le: "unat i \<le> unat maxSeconds" using lt by (simp add: word_less_nat_alt)
    have "\<exists>r. seconds_loop U c maxSeconds i s funds = Some r \<and> unat r = min (unat i + unat ?z) (unat maxSeconds)"
      using math_Add_cases [of i ?z] r unat64_le [of maxSeconds] by (auto simp: min_def word_le_nat_alt)
    then obtain q where q: "seconds_loop U c maxSeconds i s funds = Some q" "unat q = min (unat i + unat ?z) (unat maxSeconds)"
      by blast
    then have "i \<le> q" using le by (simp add: word_le_nat_alt)
    moreover have "unat (q - i) = min (unat funds div unat (fc_MinPrice c)) (unat (maxSeconds - i))"
      using sub [OF \<open>i \<le> q\<close>] sub [of maxSeconds] lt q(2) z by simp
    ultimately show ?thesis using q(1) affords_linear [of c s "unat (fc_MinPrice c)", OF cost_over_zero [OF True K]] P
      by (simp add: unat_gt_0)
  next
    case False
    obtain p where p: "CalculatePrice U (fc_MinPrice c) (fs_Excess ?s) (fc_ExcessConversionConstant c) = Some p"
      "unat p = price_at c (unat (fs_Excess ?s))" using CalculatePrice_at [OF U] by blast
    have r: "seconds_loop U c maxSeconds i s funds =
        (if p > funds then Some i else seconds_loop U c maxSeconds (i + 1) ?s (funds - p))"
      using lt False p(1) by (subst seconds_loop.simps) (simp add: Let_def flip: next_second_def)
    have n: "n = unat (maxSeconds - (i + 1))" using Suc.hyps(2) w(1) by simp
    show ?thesis
    proof (cases "p > funds")
      case True
      then have "unat funds < unat p" by (simp add: word_less_nat_alt)
      then have "affords c s (unat (maxSeconds - i)) (unat funds) 0"
        using cost_over_Suc [of c s 0] p(2) by (simp add: affords_def cost_over_def)
      then show ?thesis using r True by simp
    next
      case False
      then have f: "unat (funds - p) = unat funds - unat p" "unat p \<le> unat funds" by (simp_all add: unat_sub word_le_nat_alt not_less)
      obtain q where q: "seconds_loop U c maxSeconds (i + 1) ?s (funds - p) = Some q" "i + 1 \<le> q"
        "affords c ?s (unat (maxSeconds - (i + 1))) (unat (funds - p)) (unat (q - (i + 1)))"
        using Suc.hyps(1) [OF n w(2)] by blast
      then have "i < q" using w(3) by (simp add: word_less_nat_alt word_le_nat_alt)
      with word_diff_Suc(1) [OF this] affords_Suc [OF q(3) [unfolded f(1)] f(2) p(2)] w(1) r False q(1) show ?thesis by simp
    qed
  qed
qed

lemma SecondsRemaining_exact:
  assumes U: "uint256_laws U val" and K: "fc_ExcessConversionConstant c \<noteq> 0"
  shows "\<exists>m. SecondsRemaining U s c n funds = Some m \<and> affords c s (unat n) (unat funds) (unat m)"
proof (cases "fc_MinPrice c = 0")
  case True
  then have "price_at c e = 0" for e by (simp add: price_at_def fake_exponential_simps(1))
  then have "cost_over c s k = 0" for k by (simp add: cost_over_def)
  with True show ?thesis by (simp add: SecondsRemaining_def affords_def)
next
  case P: False
  show ?thesis
  proof (cases "fs_Current s = fc_Target c")
    case True
    obtain p where p: "CalculatePrice U (fc_MinPrice c) (fs_Excess s) (fc_ExcessConversionConstant c) = Some p"
      "unat p = price_at c (unat (fs_Excess s))" using CalculatePrice_at [OF U] by blast
    have "0 < unat (fc_ExcessConversionConstant c)" "0 < unat (fc_MinPrice c)" using K P by (simp_all add: unat_gt_0)
    then have pos: "0 < unat p" using fake_exponential_simps(3) [of "unat (fc_ExcessConversionConstant c)" "unat (fc_MinPrice c)"
        "unat (fs_Excess s)"] p(2) by (simp add: price_at_def)
    have "unat (min (funds div p) n) = min (unat funds div unat p) (unat n)" by (simp add: min_def word_le_nat_alt unat_div)
    moreover have "p \<noteq> 0" using pos by (simp add: unat_gt_0)
    ultimately show ?thesis
      using True P p affords_linear [of c s "unat p", OF _ pos] cost_over_constant [OF True] by (simp add: SecondsRemaining_def)
  next
    case False
    with seconds_loop_exact [OF U K P, of 0 n s funds] P show ?thesis by (simp add: SecondsRemaining_def)
  qed
qed

text \<open>The loop returns for every conversion constant.\<close>

lemma seconds_loop_returns:
  assumes U: "uint256_laws U val" and P: "fc_MinPrice c \<noteq> 0"
  shows "seconds_loop U c maxSeconds i s funds \<noteq> None"
proof (induction "unat maxSeconds - unat i" arbitrary: i s funds rule: less_induct)
  case less
  let ?s = "next_second c s"
  obtain p where p: "CalculatePrice U (fc_MinPrice c) (fs_Excess ?s) (fc_ExcessConversionConstant c) = Some p"
    using CalculatePrice_at [OF U] by blast
  have "seconds_loop U c maxSeconds (i + 1) ?s (funds - p) \<noteq> None" if lt: "i < maxSeconds"
    using word_diff_Suc(3) [OF lt] lt by (intro less) (simp add: word_less_nat_alt)
  then show ?case using p P
    by (subst seconds_loop.simps) (simp add: Let_def flip: next_second_def split: sum.split)
qed

section \<open>Theorems\<close>

text \<open>C25. The validator fee is exact although both loops stop early.  With a nonzero conversion constant, \<open>CostOf\<close> is the sum of the prices of the seconds, cut off at the largest 64-bit number, and
  \<open>SecondsRemaining\<close> is the largest number of seconds, up to its bound, whose cost the funds cover.  With a zero constant
  \<open>SecondsRemaining\<close> divides by zero exactly if the current and the target amount are equal and the minimum price is not zero.\<close>

theorem validator_fee_exact:
  assumes "uint256_laws U val"
  shows "if fc_ExcessConversionConstant c = 0
    then SecondsRemaining U s c n funds = None \<longleftrightarrow> fc_MinPrice c \<noteq> 0 \<and> fs_Current s = fc_Target c
    else (\<exists>r. CostOf U s c n = Some r \<and> unat r = min (2 ^ 64 - 1) (cost_over c s (unat n))) \<and>
      (\<exists>m. SecondsRemaining U s c n funds = Some m \<and> m \<le> n \<and> cost_over c s (unat m) \<le> unat funds \<and>
        (m < n \<longrightarrow> unat funds < cost_over c s (Suc (unat m))))"
proof (cases "fc_ExcessConversionConstant c = 0")
  case True
  obtain p where p: "CalculatePrice U (fc_MinPrice c) (fs_Excess s) (fc_ExcessConversionConstant c) = Some p"
    "unat p = price_at c (unat (fs_Excess s))" using CalculatePrice_at [OF assms] by blast
  have "unat p = 0" using p(2) True by (simp add: price_at_def fake_exponential_def)
  then have "SecondsRemaining U s c n funds = None \<longleftrightarrow> fc_MinPrice c \<noteq> 0 \<and> fs_Current s = fc_Target c"
    using p(1) seconds_loop_returns [OF assms, of c n 0 s funds] by (simp add: SecondsRemaining_def unat_eq_0)
  with True show ?thesis by simp
next
  case False
  with CostOf_exact [OF assms False, of s n] SecondsRemaining_exact [OF assms False, of s n funds] show ?thesis
    by (auto simp: affords_def word_le_nat_alt word_less_nat_alt)
qed

theorem validator_fee_exact_witness:
  "\<exists>m. SecondsRemaining word256 \<lparr>fs_Current = 3, fs_Excess = 0\<rparr> \<lparr>fc_Capacity = 9, fc_Target = 3, fc_MinPrice = 2,
      fc_ExcessConversionConstant = 1\<rparr> 100 50 = Some m \<and> unat m \<le> 100 \<and>
    cost_over \<lparr>fc_Capacity = 9, fc_Target = 3, fc_MinPrice = 2, fc_ExcessConversionConstant = 1\<rparr>
      \<lparr>fs_Current = 3, fs_Excess = 0\<rparr> (unat m) \<le> 50"
  using validator_fee_exact [OF word256_laws, of "\<lparr>fc_Capacity = 9, fc_Target = 3, fc_MinPrice = 2,
      fc_ExcessConversionConstant = 1\<rparr>" "\<lparr>fs_Current = 3, fs_Excess = 0\<rparr>" 100 50]
  by (auto simp: word_le_nat_alt)

end
