(* ===== verification/Ancestor_Tree.thy ===== *)
theory Ancestor_Tree
  imports Poll_Graph
begin

text \<open>
  \<open>snow/engine/snowman/ancestor/tree.go\<close>: the partial view of the block tree that the engine keeps for blocks that wait
  for their ancestors.  A map from children to parents and its inverse are kept together.  The loop over a set of
  children visits them in the order \<open>iter\<close>.
\<close>

record ancestor_tree =
  at_childToParent :: parents
  at_parentToChildren :: "ID \<rightharpoonup> ID set"

definition ancestor_NewTree :: ancestor_tree where
  "ancestor_NewTree = \<lparr>at_childToParent = Map.empty, at_parentToChildren = Map.empty\<rparr>"

definition children_get :: "ancestor_tree \<Rightarrow> ID \<Rightarrow> ID set" where
  "children_get t p = (case at_parentToChildren t p of None \<Rightarrow> {} | Some cs \<Rightarrow> cs)"

definition ancestor_Add :: "ancestor_tree \<Rightarrow> ID \<Rightarrow> ID \<Rightarrow> ancestor_tree" where
  "ancestor_Add t blkID parentID =
     t\<lparr>at_childToParent := (at_childToParent t)(blkID \<mapsto> parentID),
       at_parentToChildren := (at_parentToChildren t)(parentID \<mapsto> insert blkID (children_get t parentID))\<rparr>"

definition ancestor_Has :: "ancestor_tree \<Rightarrow> ID \<Rightarrow> bool" where
  "ancestor_Has t blkID \<longleftrightarrow> at_childToParent t blkID \<noteq> None"

partial_function (option) ancestor_GetAncestor :: "ancestor_tree \<Rightarrow> ID \<Rightarrow> ID option" where
  "ancestor_GetAncestor t blkID =
     (case at_childToParent t blkID of
        None \<Rightarrow> Some blkID
      | Some parentID \<Rightarrow> ancestor_GetAncestor t parentID)"

definition ancestor_Remove :: "ancestor_tree \<Rightarrow> ID \<Rightarrow> ancestor_tree" where
  "ancestor_Remove t blkID =
     (case at_childToParent t blkID of
        None \<Rightarrow> t
      | Some parent \<Rightarrow>
          let t = t\<lparr>at_childToParent := (at_childToParent t)(blkID := None)\<rparr>;
              children = children_get t parent - {blkID} in
          if card children = 0 then t\<lparr>at_parentToChildren := (at_parentToChildren t)(parent := None)\<rparr>
          else t\<lparr>at_parentToChildren := (at_parentToChildren t)(parent \<mapsto> children)\<rparr>)"

partial_function (option) remove_loop :: "(ID set \<Rightarrow> ID list) \<Rightarrow> ancestor_tree \<Rightarrow> ID list \<Rightarrow> ancestor_tree option" where
  "remove_loop iter t childrenList =
     (if childrenList = [] then Some t
      else
        let childID = last childrenList;
            childrenList = butlast childrenList;
            t = ancestor_Remove t childID in
        remove_loop iter t (childrenList @ iter (children_get t childID)))"

definition ancestor_RemoveDescendants :: "(ID set \<Rightarrow> ID list) \<Rightarrow> ancestor_tree \<Rightarrow> ID \<Rightarrow> ancestor_tree option" where
  "ancestor_RemoveDescendants iter t blkID = remove_loop iter t [blkID]"

definition ancestor_Len :: "ancestor_tree \<Rightarrow> nat" where
  "ancestor_Len t = card (dom (at_childToParent t))"

section \<open>The inverse map\<close>

definition anc_ok :: "ancestor_tree \<Rightarrow> bool" where
  "anc_ok t \<longleftrightarrow> acyclic_parents (at_childToParent t) \<and>
     (\<forall>p. at_parentToChildren t p =
        (if kids_of (at_childToParent t) p = {} then None else Some (kids_of (at_childToParent t) p)))"

lemma children_get_ok: "anc_ok t \<Longrightarrow> children_get t p = kids_of (at_childToParent t) p"
  by (auto simp: anc_ok_def children_get_def)

lemma acyclic_parents_submap:
  assumes "acyclic_parents gp" "gp' \<subseteq>\<^sub>m gp"
  shows "acyclic_parents gp'"
proof -
  have "parent_rel gp' \<subseteq> parent_rel gp" using assms(2) by (auto simp: parent_rel_def map_le_def dom_def)
  then show ?thesis using assms(1) unfolding acyclic_parents_def by (rule acyclic_subset [rotated])
qed

lemma anc_ok_New: "anc_ok ancestor_NewTree"
  by (simp add: anc_ok_def ancestor_NewTree_def acyclic_parents_def acyclic_def parent_rel_def kids_of_def)

text \<open>A block has one parent, which does not build on the block.\<close>

definition add_fits :: "ancestor_tree \<Rightarrow> ID \<Rightarrow> ID \<Rightarrow> bool" where
  "add_fits t b p \<longleftrightarrow> (at_childToParent t b = None \<or> at_childToParent t b = Some p) \<and>
     p \<notin> descendants (at_childToParent t) b"

lemma ancestor_Add_ok:
  assumes ok: "anc_ok t" and fits: "add_fits t b p"
  shows "anc_ok (ancestor_Add t b p)" "at_childToParent (ancestor_Add t b p) = (at_childToParent t)(b \<mapsto> p)"
proof -
  let ?gp = "at_childToParent t"
  have rel: "parent_rel (?gp(b \<mapsto> p)) = insert (b, p) (parent_rel ?gp)"
    using fits by (auto simp: parent_rel_def add_fits_def split: if_splits)
  have "acyclic_parents (?gp(b \<mapsto> p))"
    using ok fits unfolding acyclic_parents_def rel acyclic_insert
    by (simp add: anc_ok_def acyclic_parents_def add_fits_def descendants_def)
  moreover have "kids_of (?gp(b \<mapsto> p)) q = (if q = p then insert b (kids_of ?gp p) else kids_of ?gp q)" for q
    using fits by (auto simp: kids_of_def add_fits_def split: if_splits)
  ultimately show "anc_ok (ancestor_Add t b p)"
    using ok by (simp add: anc_ok_def ancestor_Add_def children_get_ok [OF ok])
  show "at_childToParent (ancestor_Add t b p) = ?gp(b \<mapsto> p)" by (simp add: ancestor_Add_def)
qed

lemma ancestor_Remove_ok:
  assumes ok: "anc_ok t"
  shows "anc_ok (ancestor_Remove t b)" "at_childToParent (ancestor_Remove t b) = (at_childToParent t)(b := None)"
proof -
  let ?gp = "at_childToParent t"
  have "acyclic_parents (?gp(b := None))"
    using ok by (auto simp: anc_ok_def map_le_def intro: acyclic_parents_submap)
  moreover have "kids_of (?gp(b := None)) q = kids_of ?gp q - {b}" for q by (auto simp: kids_of_def)
  moreover have "b \<notin> kids_of ?gp q" if "?gp b \<noteq> Some q" for q using that by (simp add: kids_of_def)
  ultimately show "anc_ok (ancestor_Remove t b)"
    using ok by (auto simp: anc_ok_def ancestor_Remove_def children_get_def Let_def fun_upd_idem split: option.split)
  show "at_childToParent (ancestor_Remove t b) = ?gp(b := None)"
    by (auto simp: ancestor_Remove_def Let_def fun_upd_idem split: option.split)
qed

section \<open>Walking up and removing a subtree\<close>

lemma GetAncestor_ok:
  assumes "anc_ok t"
  shows "\<exists>r. ancestor_GetAncestor t b = Some r \<and> b \<in> descendants (at_childToParent t) r \<and> at_childToParent t r = None"
proof -
  have "acyclic_parents (at_childToParent t)" using assms by (simp add: anc_ok_def)
  then show ?thesis
  proof (induction b rule: acyclic_parents_climb)
    case (less b)
    show ?case
    proof (cases "at_childToParent t b")
      case None
      then show ?thesis by (subst ancestor_GetAncestor.simps) auto
    next
      case (Some p)
      with less obtain r where "ancestor_GetAncestor t p = Some r" "p \<in> descendants (at_childToParent t) r"
        "at_childToParent t r = None" by blast
      moreover from this have "b \<in> descendants (at_childToParent t) r"
        using Some by (auto simp: descendants_def parent_rel_def intro: converse_rtrancl_into_rtrancl)
      ultimately show ?thesis using Some by (subst ancestor_GetAncestor.simps) auto
    qed
  qed
qed

text \<open>A tree that still has the whole subtree of a block of the original tree \<open>gp\<close>.\<close>

definition subtree_of :: "parents \<Rightarrow> ancestor_tree \<Rightarrow> ID \<Rightarrow> bool" where
  "subtree_of gp t x \<longleftrightarrow> anc_ok t \<and> at_childToParent t \<subseteq>\<^sub>m gp \<and> (\<forall>y \<in> descendants gp x. at_childToParent t y = gp y)"

definition removes :: "(ID set \<Rightarrow> ID list) \<Rightarrow> ancestor_tree \<Rightarrow> ID list \<Rightarrow> ID list \<Rightarrow> ID set \<Rightarrow> bool" where
  "removes iter t L xs D \<longleftrightarrow>
     (\<exists>t'. remove_loop iter t (L @ xs) = remove_loop iter t' L \<and> anc_ok t' \<and> at_childToParent t' = at_childToParent t |` (- D))"

lemma removes_siblings:
  assumes step: "\<And>c t L. c \<in> set cs \<Longrightarrow> subtree_of gp t c \<Longrightarrow> removes iter t L [c] (descendants gp c)"
    and dis: "\<And>c d. c \<in> set cs \<Longrightarrow> d \<in> set cs \<Longrightarrow> c \<noteq> d \<Longrightarrow> descendants gp c \<inter> descendants gp d = {}"
    and "distinct cs" "\<And>c. c \<in> set cs \<Longrightarrow> subtree_of gp t c" "anc_ok t"
  shows "removes iter t L cs (\<Union>c \<in> set cs. descendants gp c)"
  using assms
proof (induction cs arbitrary: t rule: rev_induct)
  case Nil
  then show ?case by (auto simp: removes_def restrict_map_def intro!: exI [of _ t])
next
  case (snoc c cs)
  obtain t1 where 1: "remove_loop iter t ((L @ cs) @ [c]) = remove_loop iter t1 (L @ cs)" "anc_ok t1"
    "at_childToParent t1 = at_childToParent t |` (- descendants gp c)"
    using snoc.prems(1) [of c t "L @ cs"] snoc.prems(4) by (auto simp: removes_def)
  have "subtree_of gp t1 d" if d: "d \<in> set cs" for d
  proof -
    have "descendants gp c \<inter> descendants gp d = {}" using snoc.prems(2,3) d by auto
    moreover have "subtree_of gp t d" using snoc.prems(4) d by simp
    ultimately show ?thesis using 1(2) by (auto simp: subtree_of_def 1(3) map_le_def restrict_map_def)
  qed
  then have "removes iter t1 L cs (\<Union>c \<in> set cs. descendants gp c)"
    using snoc.prems by (intro snoc.IH) (auto intro: 1(2))
  then obtain t2 where 2: "remove_loop iter t1 (L @ cs) = remove_loop iter t2 L" "anc_ok t2"
    "at_childToParent t2 = at_childToParent t1 |` (- (\<Union>c \<in> set cs. descendants gp c))"
    by (auto simp: removes_def)
  have "at_childToParent t2 = at_childToParent t |` (- (\<Union>c \<in> set (cs @ [c]). descendants gp c))"
    unfolding 2(3) 1(3) by (auto simp: restrict_map_def fun_eq_iff)
  with 1(1) 2(1,2) show ?case unfolding removes_def by auto
qed

lemma removes_descendants:
  assumes gp: "acyclic_parents gp" and iter: "iter_ok iter" and "subtree_of gp t x"
  shows "removes iter t L [x] (descendants gp x)"
  using gp assms(3)
proof (induction x arbitrary: t L rule: acyclic_parents_induct)
  case (less x)
  let ?t = "ancestor_Remove t x"
  have t: "anc_ok t" "at_childToParent t \<subseteq>\<^sub>m gp" "\<forall>y \<in> descendants gp x. at_childToParent t y = gp y"
    using less.prems by (auto simp: subtree_of_def)
  note rm = ancestor_Remove_ok [OF t(1), of x]
  have nx: "x \<notin> descendants gp c" if "gp c = Some x" for c using kid_not_ancestor [OF gp that] .
  have kid: "c \<in> descendants gp x" if "gp c = Some x" for c using descendants_step [of gp c x c] that by simp
  have kids: "kids_of (at_childToParent ?t) x = kids_of gp x"
  proof -
    have "at_childToParent t c = Some x \<longleftrightarrow> gp c = Some x" for c
      using t(2,3) kid by (metis domI map_le_def)
    moreover have "gp x \<noteq> Some x" using nx [of x] by auto
    ultimately show ?thesis by (auto simp: kids_of_def rm(2))
  qed
  have "subtree_of gp ?t c" if "c \<in> kids_of gp x" for c
  proof -
    have c: "gp c = Some x" using that by (simp add: kids_of_def)
    then show ?thesis using rm t nx [OF c] descendants_step [of gp c x]
      by (auto simp: subtree_of_def map_le_def)
  qed
  moreover have "set (iter (kids_of gp x)) = kids_of gp x" "distinct (iter (kids_of gp x))" using iter by (auto simp: iter_ok_def)
  ultimately have "removes iter ?t L (iter (kids_of gp x)) (\<Union>c \<in> set (iter (kids_of gp x)). descendants gp c)"
    using rm(1) siblings_disjoint [OF gp, of _ x]
    by (intro removes_siblings less.IH) (auto simp: kids_of_def)
  then obtain t' where t': "remove_loop iter ?t (L @ iter (kids_of gp x)) = remove_loop iter t' L" "anc_ok t'"
    "at_childToParent t' = at_childToParent ?t |` (- (\<Union>c \<in> kids_of gp x. descendants gp c))"
    using \<open>set (iter (kids_of gp x)) = kids_of gp x\<close> by (auto simp: removes_def)
  have "at_childToParent t' = at_childToParent t |` (- descendants gp x)"
    unfolding t'(3) rm(2) by (subst descendants_unfold) (auto simp: restrict_map_def fun_eq_iff)
  moreover have "remove_loop iter t (L @ [x]) = remove_loop iter ?t (L @ iter (kids_of gp x))"
    using children_get_ok [OF rm(1), of x] kids by (subst remove_loop.simps) (simp add: Let_def)
  ultimately show ?case using t'(1,2) by (auto simp: removes_def)
qed

lemma RemoveDescendants_ok:
  assumes ok: "anc_ok t" and iter: "iter_ok iter"
  shows "\<exists>t'. ancestor_RemoveDescendants iter t b = Some t' \<and> anc_ok t' \<and>
    at_childToParent t' = at_childToParent t |` (- descendants (at_childToParent t) b)"
proof -
  have "acyclic_parents (at_childToParent t)" "subtree_of (at_childToParent t) t b"
    using ok by (auto simp: anc_ok_def subtree_of_def)
  from removes_descendants [OF this(1) iter this(2), of "[]"] show ?thesis
    by (auto simp: removes_def ancestor_RemoveDescendants_def remove_loop.simps [of _ _ "[]"])
qed

section \<open>Executions\<close>

inductive anc_reach :: "(ID set \<Rightarrow> ID list) \<Rightarrow> ancestor_tree \<Rightarrow> bool" for iter where
  anc_new: "anc_reach iter ancestor_NewTree"
| anc_add: "anc_reach iter t \<Longrightarrow> add_fits t b p \<Longrightarrow> anc_reach iter (ancestor_Add t b p)"
| anc_remove: "anc_reach iter t \<Longrightarrow> anc_reach iter (ancestor_Remove t b)"
| anc_remove_descendants: "anc_reach iter t \<Longrightarrow> ancestor_RemoveDescendants iter t b = Some t' \<Longrightarrow> anc_reach iter t'"

lemma anc_reach_ok:
  assumes "anc_reach iter t" "iter_ok iter"
  shows "anc_ok t"
  using assms(1)
proof (induction rule: anc_reach.induct)
  case (anc_remove_descendants t b t')
  then show ?case using RemoveDescendants_ok [OF _ assms(2), of t b] by auto
qed (simp_all add: anc_ok_New ancestor_Add_ok ancestor_Remove_ok)

text \<open>C27. The ancestor tree keeps a map and its inverse.  In every tree that additions of blocks with one, older, parent and removals reach, the children of a block are exactly the blocks with this parent,
  and no empty set is kept; \<open>GetAncestor\<close> ends at the oldest known ancestor, \<open>Remove\<close> forgets one block, and
  \<open>RemoveDescendants\<close> ends and forgets exactly the block and the blocks that build on it.\<close>

theorem ancestor_tree_exact:
  assumes "anc_reach iter t" "iter_ok iter"
  shows "at_parentToChildren t p =
      (if {c. at_childToParent t c = Some p} = {} then None else Some {c. at_childToParent t c = Some p}) \<and>
    (\<exists>r. ancestor_GetAncestor t b = Some r \<and> b \<in> descendants (at_childToParent t) r \<and> \<not> ancestor_Has t r) \<and>
    at_childToParent (ancestor_Remove t b) = (at_childToParent t)(b := None) \<and>
    (\<exists>t'. ancestor_RemoveDescendants iter t b = Some t' \<and>
       at_childToParent t' = at_childToParent t |` (- descendants (at_childToParent t) b))"
proof -
  note ok = anc_reach_ok [OF assms]
  from GetAncestor_ok [OF ok, of b] RemoveDescendants_ok [OF ok assms(2), of b] ancestor_Remove_ok(2) [OF ok, of b] ok
  show ?thesis by (auto simp: anc_ok_def kids_of_def ancestor_Has_def)
qed

theorem ancestor_tree_exact_witness:
  "(\<exists>r. ancestor_GetAncestor (ancestor_Add (ancestor_Add ancestor_NewTree 3 2) 2 1) 3 = Some r) \<and>
   (\<exists>t'. ancestor_RemoveDescendants sorted_list_of_set (ancestor_Add (ancestor_Add ancestor_NewTree 3 2) 2 1) 2 = Some t' \<and>
      at_childToParent t' 2 = None)"
proof -
  have iter: "iter_ok sorted_list_of_set" by (simp add: iter_ok_def)
  have "(x, y) \<in> (parent_rel Map.empty)\<^sup>* \<longleftrightarrow> x = y" for x y by (simp add: parent_rel_def)
  then have 1: "add_fits ancestor_NewTree 3 2" by (simp add: add_fits_def ancestor_NewTree_def descendants_def)
  have "(1, 2) \<notin> (parent_rel [3 \<mapsto> 2])\<^sup>*"
    by (rule notI, erule converse_rtranclE) (auto simp: parent_rel_def split: if_splits)
  then have 2: "add_fits (ancestor_Add ancestor_NewTree 3 2) 2 1"
    by (simp add: add_fits_def ancestor_Add_def ancestor_NewTree_def descendants_def)
  note t = anc_add [OF anc_add [OF anc_new 1] 2]
  from ancestor_tree_exact [OF t iter, of 0 2] ancestor_tree_exact [OF t iter, of 0 3] show ?thesis
    by (auto simp: restrict_map_def)
qed

end
