(* ===== verification/Spec2Isabelle.thy ===== *)
theory Spec2Isabelle
  imports Bag_Int Topological_Reach Linked_Hashmap Poll_Set Validator_Reach Validator_Fee Ancestor_Tree
begin

text \<open>
  A verification library for the consensus core of avalanchego, an Avalanche node in Go, and for the arithmetic of
  validators and fees that it rests on.

  \<^bold>\<open>The program.\<close>  A node samples \<open>K\<close> validators by weight (\<open>snow/validators\<close>, \<open>utils/sampler\<close>) and asks them for
  their preferred block.  The answers are collected in a poll (\<open>snow/consensus/snowman/poll\<close>), which may end before all
  validators have answered.  The votes of a finished poll go to the linear chain consensus
  (\<open>snow/consensus/snowman/topological.go\<close>), which adds up the votes below every block and gives each block with enough
  of them to its own snow tree (\<open>snow/consensus/snowball/tree.go\<close>), a Patricia tree of one-bit snow instances that decides
  between the children of the block.  Decided blocks are accepted or rejected in the virtual machine.  The engine
  keeps blocks that wait for their ancestors in a partial tree (\<open>snow/engine/snowman/ancestor\<close>).  The P-chain prices
  transactions and validators by an exponential of the excess demand (\<open>vms/components/gas\<close>,
  \<open>vms/platformvm/validators/fee\<close>).

  \<^bold>\<open>Conventions.\<close>  A Go struct is a record and an interface with known implementations a datatype.  A map is a HOL map, or
  an association list where its order is visible.  Objects that are shared by pointers are in an explicit heap or
  are named by their key in the map that owns them.  An error is a value; a panic, and a loop that does not
  end, is \<open>None\<close>, so that a theorem that gives \<open>Some\<close> excludes both.  A \<open>uint64\<close> amount is a \<open>64 word\<close>, an \<open>int\<close> is an integer (a count of votes, validators or list elements, far from its bounds; the
  bag also has the counters that wrap);
  block heights are natural numbers, since a height grows by one per block.  The iteration order over a Go map or set is an argument (\<open>iter\<close>,
  \<open>pop\<close> or an enumeration), and the theorems hold for every order.  The locks of the program make each
  operation atomic and are left out, as are logs, metrics and clocks.  No definition has fuel: loops are structural, have a
  termination proof, or are partial functions in the option type whose results are proved to exist.

  \<^bold>\<open>The theories.\<close>

  \<^item> \<open>Prelude\<close>, \<open>Safe_Math\<close> (\<open>utils/math/safe_math.go\<close>), \<open>Ids\<close> (\<open>ids/bits.go\<close>, \<open>ids/id.go\<close>), \<open>Bag\<close> and \<open>Bag_Int\<close> (\<open>utils/bag/bag.go\<close>): the shared
    vocabulary.  Checked arithmetic is exact at every width, the bit-range comparisons of identifiers are exact,
    and the bag implements a multiset.  \<open>Bag_Int\<close> has the counters of the code, which wrap: below \<open>2 ^ 63\<close> elements the
    operations agree with those of \<open>Bag\<close>, which the other theories use, and there only \<open>Remove\<close> leaves the threshold set stale.

  \<^item> \<open>Snow_Params\<close> (\<open>parameters.go\<close>), \<open>Snow_Instances\<close> with \<open>Snow_Instance_Facts\<close> (the unary, binary and multi-choice slush, snowflake and
    snowball instances), and \<open>Snow_Contracts\<close> (the locales of the instances and their interpretations): an
    instance finalizes exactly on \<open>Beta\<close> consecutive polls for one choice, and snowball prefers a choice with
    the most successful polls.

  \<^item> \<open>Snow_Tree\<close>, \<open>Snow_Tree_Inv\<close>, \<open>Snow_Tree_Props\<close>, \<open>Snow_Tree_Eager\<close> (\<open>tree.go\<close>): every reachable tree is a well-formed
    Patricia tree, decisions are never revoked, unanimous polls finalize, the live choices change exactly
    as the decided prefix demands, and the flags that delay a reset implement an immediate one.

  \<^item> \<open>Topological\<close> (\<open>topological.go\<close>, \<open>snowman_block.go\<close>, \<open>block.go\<close>) with \<open>Topological_Inv\<close>, \<open>Block_Tree\<close>, \<open>Topological_Kahn\<close>,
    \<open>Topological_Accept\<close>, \<open>Topological_Vote\<close>, \<open>Topological_Chain\<close> and \<open>Topological_Reach\<close>: over every sequence of additions
    and polls, a poll ends without a panic, accepts a chain of blocks from the last accepted one, rejects every
    block that conflicts with it once and keeps the others; votes are counted for a block and all blocks below it; the
    preferred blocks are one branch; a new block becomes a leaf and extends this branch if its parent is the tip.

  \<^item> \<open>Linked_List\<close> and \<open>Linked_Hashmap\<close> (\<open>utils/linked\<close>): the pointer structures implement lists of any length, guards
    included, and an insertion-ordered map; \<open>MoveBefore\<close> dereferences nil for a location that is in no list.

  \<^item> \<open>Poll_Graph\<close> (\<open>poll/graph.go\<close>), \<open>Poll_Prefix\<close> (\<open>poll/prefix.go\<close>), \<open>Poll_Early\<close> (\<open>poll/early_term_traversal.go\<close>) and \<open>Poll_Set\<close> (\<open>poll/set.go\<close>): a poll that
    ends early has an outcome that no missing answer can change, ending early is decided exactly, and the results of
    the set are the votes of its polls in the order of their requests.  The set relies on the ordered map of \<open>Linked_Hashmap\<close>.

  \<^item> \<open>Sampler_Weighted\<close>, \<open>Sampler_Rng\<close> and \<open>Sampler\<close> (\<open>utils/sampler\<close>): the heap gives every index exactly as many values as its
    weight, the random numbers are unbiased over a uniform source, and a sample draws no value twice.

  \<^item> \<open>Validators\<close>, \<open>Validator_Props\<close> and \<open>Validator_Reach\<close> (\<open>snow/validators\<close>): the manager implements a map from subnets and
    nodes to weights, a listener that applies its events holds the same map, and samples respect the weights.

  \<^item> \<open>Ancestor_Tree\<close> (\<open>snow/engine/snowman/ancestor/tree.go\<close>): the two maps of the tree are inverse, and walking up and removing
    a subtree end with the right result.

  \<^item> \<open>Gas\<close> and \<open>Validator_Fee\<close>: amounts saturate, the price loop stays in 256 bits and equals the exponential series over unbounded
    numbers, and the validator fee is exact although its loops stop early.

  \<^bold>\<open>Hypotheses.\<close>  The virtual machine accepts and rejects the blocks it is asked to (\<open>vm_ok\<close>); a block is one higher than its parent
  and is not the last accepted one (\<open>block_fits\<close>); parents do not form a cycle (\<open>acyclic_parents\<close>, \<open>add_fits\<close>); an iteration visits each
  element once (\<open>iter_ok\<close>, \<open>pop_ok\<close>, \<open>op_fits\<close>); the random source lets every rejection loop end (\<open>rng_returns\<close>); the package \<open>uint256\<close>
  computes modulo \<open>2 ^ 256\<close> as documented (\<open>uint256_laws\<close>).  Each theorem that has one comes with an instance.

  \<^bold>\<open>Not modelled.\<close>  The engine's message handlers, the networking, the node's start-up code, the databases, the virtual machines
  apart from the fee arithmetic, the APIs and the wallet: they are input and output, threads, or
  callbacks into packages that are not part of the repository.  The codec works by reflection over struct tags and the
  cryptography wraps external packages.  Of the modelled files, the functions that print and the health
  ratio in floating point are left out.  The probability that a poll of honest validators succeeds is not
  stated: the samplers are shown to be exact over their random source instead.
\<close>

end
